(* ===== verification/Prelude.thy ===== *)
theory Prelude
  imports Main "HOL-Library.Word" "HOL-Library.AList"
begin

text \<open>
  The prelude of the development: the machine types of the Go sources as words of their
  width, byte strings, big-endian numbers, Go's map type as an association list with
  distinct keys, and the generic facts on lists, options and words that the component
  theories share.  The collections \<open>gomap\<close> and \<open>bytes\<close> gather the rewrite
  rules that component proofs pass to the simplifier.
\<close>

unbundle bit_operations_syntax

named_theorems gomap \<open>rewrite rules for the operations on Go maps\<close>
named_theorems bytes \<open>rewrite rules for byte strings and big-endian numbers\<close>

type_synonym byte = "8 word"
type_synonym u32 = "32 word"
type_synonym u64 = "64 word"
type_synonym hash = "256 word"
type_synonym address = "160 word"
type_synonym peer_id = string

text \<open>
  What a Go call can do: return a value, return an error, or panic (an explicit
  \<open>panic\<close>, an index out of range, a nil dereference).
\<close>

datatype ('e, 'a) outcome = Ok 'a | Err 'e | Panic

fun bind_outcome :: "('e, 'a) outcome \<Rightarrow> ('a \<Rightarrow> ('e, 'b) outcome) \<Rightarrow> ('e, 'b) outcome" where
  "bind_outcome (Ok a) f = f a"
| "bind_outcome (Err e) f = Err e"
| "bind_outcome Panic f = Panic"

subsection \<open>Big-endian byte strings\<close>

definition be_nat :: "byte list \<Rightarrow> nat" where
  "be_nat bs = foldl (\<lambda>a b. 256 * a + unat b) 0 bs"

fun be_bytes :: "nat \<Rightarrow> nat \<Rightarrow> byte list" where
  "be_bytes 0 n = []"
| "be_bytes (Suc k) n = be_bytes k (n div 256) @ [word_of_nat (n mod 256)]"

subsection \<open>Go maps\<close>

type_synonym ('k, 'v) gomap = "('k \<times> 'v) list"

definition mget :: "('k, 'v) gomap \<Rightarrow> 'k \<Rightarrow> 'v option" where
  "mget m k = map_of m k"

definition mput :: "'k \<Rightarrow> 'v \<Rightarrow> ('k, 'v) gomap \<Rightarrow> ('k, 'v) gomap" where
  "mput k v m = AList.update k v m"

definition mdel :: "'k \<Rightarrow> ('k, 'v) gomap \<Rightarrow> ('k, 'v) gomap" where
  "mdel k m = AList.delete k m"

definition mkeys :: "('k, 'v) gomap \<Rightarrow> 'k list" where
  "mkeys m = map fst m"

definition mlen :: "('k, 'v) gomap \<Rightarrow> nat" where
  "mlen m = length m"

definition mwf :: "('k, 'v) gomap \<Rightarrow> bool" where
  "mwf m = distinct (map fst m)"

definition mhas :: "('k, 'v) gomap \<Rightarrow> 'k \<Rightarrow> bool" where
  "mhas m k = (mget m k \<noteq> None)"

subsection \<open>Facts on big-endian byte strings\<close>

lemma be_nat_Nil [simp]: "be_nat [] = 0"
  by (simp add: be_nat_def)

lemma be_nat_snoc [bytes]: "be_nat (bs @ [b]) = 256 * be_nat bs + unat b"
  by (simp add: be_nat_def)

lemma be_nat_Cons [bytes]: "be_nat (b # bs) = unat b * 256 ^ length bs + be_nat bs"
proof (induction bs rule: rev_induct)
  case Nil
  show ?case by (simp add: be_nat_def)
next
  case (snoc c cs)
  have "be_nat (b # cs @ [c]) = 256 * be_nat (b # cs) + unat c"
    using be_nat_snoc [of "b # cs" c] by simp
  with snoc show ?case by (simp add: be_nat_snoc)
qed

lemma be_nat_bound: "be_nat bs < 256 ^ length bs"
proof (induction bs rule: rev_induct)
  case Nil
  show ?case by simp
next
  case (snoc b bs)
  have "unat b < 256"
    using unsigned_less [of b] by simp
  with snoc show ?case by (simp add: be_nat_snoc)
qed

lemma length_be_bytes [simp]: "length (be_bytes k n) = k"
  by (induction k arbitrary: n) auto

lemma be_nat_be_bytes [bytes]: "be_nat (be_bytes k n) = n mod 256 ^ k"
proof (induction k arbitrary: n)
  case 0
  show ?case by simp
next
  case (Suc k)
  have u: "unat (word_of_nat (n mod 256) :: byte) = n mod 256"
    by (simp add: unat_of_nat)
  have "n mod (256 * 256 ^ k) = 256 * (n div 256 mod 256 ^ k) + n mod 256"
    by (rule mod_mult2_eq)
  with Suc u show ?case by (simp add: be_nat_snoc)
qed

lemma be_bytes_be_nat: "be_bytes (length bs) (be_nat bs) = bs"
proof (induction bs rule: rev_induct)
  case Nil
  show ?case by simp
next
  case (snoc b bs)
  have "unat b < 256"
    using unsigned_less [of b] by simp
  with snoc show ?case by (simp add: be_nat_snoc)
qed

lemma be_nat_inject:
  assumes "length xs = length ys" and "be_nat xs = be_nat ys"
  shows "xs = ys"
  by (metis assms be_bytes_be_nat)

lemma be_nat_append [bytes]: "be_nat (xs @ ys) = be_nat xs * 256 ^ length ys + be_nat ys"
  by (induction xs) (simp_all add: be_nat_Cons power_add algebra_simps)

lemma be_nat_replicate_0 [bytes]: "be_nat (replicate n 0 @ bs) = be_nat bs"
  by (induction n) (simp_all add: be_nat_Cons)

subsection \<open>Nibbles\<close>

lemma nibble_enum:
  fixes n :: nat
  assumes "n < 16"
  shows "n \<in> {0, 1, 2, 3, 4, 5, 6, 7, 8, 9, 10, 11, 12, 13, 14, 15}"
  using assms by (simp, arith)

lemma nib_or:
  fixes a b :: byte
  assumes "b < 16"
  shows "push_bit 4 a OR b = 16 * a + b"
proof -
  have b: "take_bit 4 b = b"
    using assms by (simp add: take_bit_eq_mod mod_word_less)
  have small: "bit b n \<Longrightarrow> n < 4" for n
    using b by (metis bit_take_bit_iff)
  have "push_bit 4 a OR b = push_bit 4 a + b"
    by (intro disjunctive_add [symmetric]) (use small in \<open>force simp: bit_push_bit_iff\<close>)
  then show ?thesis by (simp add: push_bit_eq_mult mult.commute)
qed

lemma unat_nib_or:
  fixes a b :: byte
  assumes "a < 16" and "b < 16"
  shows "unat (push_bit 4 a OR b) = 16 * unat a + unat b"
proof -
  have ab: "unat a < 16" "unat b < 16"
    using assms by (simp_all add: word_less_nat_alt)
  then show ?thesis
    using assms by (simp add: nib_or unat_word_ariths)
qed

lemma byte_split: "push_bit 4 (b div 16) OR b mod 16 = (b::byte)"
proof -
  have "b mod 16 < 16"
    by (simp add: word_mod_less_divisor)
  then have "push_bit 4 (b div 16) OR b mod 16 = 16 * (b div 16) + b mod 16"
    by (rule nib_or)
  also have "\<dots> = b div 16 * 16 + b mod 16"
    by (simp add: mult.commute)
  finally show ?thesis by (simp only: div_mult_mod_eq)
qed

subsection \<open>Facts on Go maps\<close>

lemma mget_Nil [simp, gomap]: "mget [] k = None"
  by (simp add: mget_def)

lemma mget_mput [simp, gomap]: "mget (mput k v m) j = (if j = k then Some v else mget m j)"
  by (simp add: mget_def mput_def update_conv')

lemma mget_mdel [simp, gomap]: "mget (mdel k m) j = (if j = k then None else mget m j)"
  by (simp add: mget_def mdel_def delete_conv')

lemma mwf_Nil [simp, gomap]: "mwf []"
  by (simp add: mwf_def)

lemma mwf_mput [simp, gomap]: "mwf m \<Longrightarrow> mwf (mput k v m)"
  by (simp add: mwf_def mput_def distinct_update)

lemma mwf_mdel [simp, gomap]: "mwf m \<Longrightarrow> mwf (mdel k m)"
  by (simp add: mwf_def mdel_def distinct_delete)

lemma mhas_iff [gomap]: "mhas m k \<longleftrightarrow> (\<exists>v. mget m k = Some v)"
  by (auto simp: mhas_def)

lemma set_mkeys [gomap]: "set (mkeys m) = {k. mget m k \<noteq> None}"
  by (auto simp: mkeys_def mget_def map_of_eq_None_iff image_iff)

lemma in_set_mkeys: "k \<in> set (mkeys m) \<longleftrightarrow> mget m k \<noteq> None"
  by (simp add: set_mkeys)

lemma distinct_mkeys: "mwf m \<Longrightarrow> distinct (mkeys m)"
  by (simp add: mwf_def mkeys_def)

lemma length_mkeys [simp]: "length (mkeys m) = mlen m"
  by (simp add: mkeys_def mlen_def)

lemma mlen_Nil [simp]: "mlen [] = 0"
  by (simp add: mlen_def)

lemma mlen_card: "mwf m \<Longrightarrow> mlen m = card {k. mget m k \<noteq> None}"
  using distinct_card [of "mkeys m"] by (simp add: distinct_mkeys set_mkeys)

lemma mlen_0_iff: "mlen m = 0 \<longleftrightarrow> (\<forall>k. mget m k = None)"
proof
  assume "mlen m = 0"
  then show "\<forall>k. mget m k = None" by (simp add: mlen_def)
next
  assume a: "\<forall>k. mget m k = None"
  show "mlen m = 0"
  proof (cases m)
    case (Cons p ps)
    with a [rule_format, of "fst p"] show ?thesis by (cases p) (simp add: mget_def)
  qed simp
qed

lemma mput_new: "mget m k = None \<Longrightarrow> mput k v m = m @ [(k, v)]"
proof (induction m)
  case Nil
  show ?case by (simp add: mput_def)
next
  case (Cons p ps)
  then show ?case by (cases p) (auto simp: mput_def mget_def split: if_splits)
qed

lemma mlen_mput: "mlen (mput k v m) = (if mget m k = None then Suc (mlen m) else mlen m)"
proof (cases "mget m k")
  case None
  then show ?thesis by (simp add: mput_new mlen_def)
next
  case (Some w)
  then have "k \<in> fst ` set m"
    by (metis mget_def map_of_eq_None_iff option.distinct(1))
  then have "map fst (mput k v m) = map fst m"
    by (simp add: mput_def update_keys)
  then have "length (mput k v m) = length m"
    by (metis length_map)
  with Some show ?thesis by (simp add: mlen_def)
qed

lemma mdel_absent: "mget m k = None \<Longrightarrow> mdel k m = m"
  by (simp add: mdel_def mget_def map_of_eq_None_iff)

lemma mlen_mdel:
  assumes "mwf m"
  shows "mlen (mdel k m) = (if mget m k = None then mlen m else mlen m - 1)"
proof -
  let ?D = "{j. mget m j \<noteq> None}"
  have fin: "finite ?D"
    using finite_set [of "mkeys m"] by (simp add: set_mkeys)
  have "{j. mget (mdel k m) j \<noteq> None} = ?D - {k}"
    by auto
  with assms fin show ?thesis
    by (auto simp: mlen_card)
qed

lemma mget_Cons: "mget ((k, v) # m) j = (if j = k then Some v else mget m j)"
  by (simp add: mget_def)

subsection \<open>The interface of a keyed store\<close>

text \<open>
  Several components of the program are keyed stores: Go's own maps, the ordered maps of
  the database layer, the Merkle-Patricia trie.  The locale names the operations and the
  laws, and derives what a batch of writes leaves behind.
\<close>

locale kv_store =
  fixes lookup :: "'m \<Rightarrow> 'k \<Rightarrow> 'v option"
    and update :: "'k \<Rightarrow> 'v \<Rightarrow> 'm \<Rightarrow> 'm"
    and delete :: "'k \<Rightarrow> 'm \<Rightarrow> 'm"
    and invar :: "'m \<Rightarrow> bool"
    and key_ok :: "'k \<Rightarrow> bool"
    and val_ok :: "'v \<Rightarrow> bool"
  assumes lookup_update: "invar m \<Longrightarrow> key_ok k \<Longrightarrow> val_ok v \<Longrightarrow> key_ok j \<Longrightarrow>
      lookup (update k v m) j = (if j = k then Some v else lookup m j)"
    and lookup_delete: "invar m \<Longrightarrow> key_ok k \<Longrightarrow> key_ok j \<Longrightarrow>
      lookup (delete k m) j = (if j = k then None else lookup m j)"
    and invar_update: "invar m \<Longrightarrow> key_ok k \<Longrightarrow> val_ok v \<Longrightarrow> invar (update k v m)"
    and invar_delete: "invar m \<Longrightarrow> key_ok k \<Longrightarrow> invar (delete k m)"
begin

definition writes :: "('k \<times> 'v) list \<Rightarrow> 'm \<Rightarrow> 'm" where
  "writes kvs m = foldl (\<lambda>s kv. update (fst kv) (snd kv) s) m kvs"

lemma writes_invar:
  assumes "invar m" and "\<And>kv. kv \<in> set kvs \<Longrightarrow> key_ok (fst kv) \<and> val_ok (snd kv)"
  shows "invar (writes kvs m)"
  using assms by (induction kvs arbitrary: m) (simp_all add: writes_def invar_update)

lemma writes_lookup:
  assumes "invar m" and "\<And>kv. kv \<in> set kvs \<Longrightarrow> key_ok (fst kv) \<and> val_ok (snd kv)" and "key_ok j"
  shows "lookup (writes kvs m) j = (case map_of (rev kvs) j of Some v \<Rightarrow> Some v | None \<Rightarrow> lookup m j)"
  using assms
proof (induction kvs arbitrary: m)
  case Nil
  then show ?case by (simp add: writes_def)
next
  case (Cons kv kvs)
  have kv: "key_ok (fst kv)" "val_ok (snd kv)"
    using Cons.prems(2) [of kv] by auto
  have "lookup (writes (kv # kvs) m) j = lookup (writes kvs (update (fst kv) (snd kv) m)) j"
    by (simp add: writes_def)
  also have "\<dots> = (case map_of (rev kvs) j of Some v \<Rightarrow> Some v
                 | None \<Rightarrow> lookup (update (fst kv) (snd kv) m) j)"
    using Cons.prems kv by (intro Cons.IH) (auto simp: invar_update)
  also have "\<dots> = (case map_of (rev (kv # kvs)) j of Some v \<Rightarrow> Some v | None \<Rightarrow> lookup m j)"
    using Cons.prems kv by (cases kv) (auto simp: lookup_update map_add_def split: option.splits)
  finally show ?case .
qed

lemma delete_update:
  assumes "invar m" and "key_ok k" and "val_ok v" and "key_ok j"
  shows "lookup (delete k (update k v m)) j = lookup (delete k m) j"
  using assms by (simp add: lookup_delete lookup_update invar_update)

end

interpretation gm: kv_store mget mput mdel mwf "\<lambda>_. True" "\<lambda>_. True"
  by unfold_locales simp_all

end
