(* ===== verification/Hexcodec.thy ===== *)
theory Hexcodec
  imports Prelude
begin

text \<open>
  The byte and text representations every other component uses: the fixed-size values
  \<open>Hash\<close> and \<open>Address\<close> of \<open>common/types.go\<close>, the hexadecimal helpers of
  \<open>common/bytes.go\<close> and the checked 0x-codec of \<open>common/hexutil\<close>.  A hash is a
  256-bit word, an address a 160-bit word, each read big-endian from its bytes.  The
  standard library's \<open>encoding/hex\<close> and \<open>strconv.ParseUint\<close> are modelled as far as
  the sources use them.
\<close>

subsection \<open>The standard library's hexadecimal codec\<close>

datatype hex_err = InvalidByteError | ErrLength

definition hexdig :: "nat \<Rightarrow> char" where
  "hexdig n = ''0123456789abcdef'' ! n"

definition hex_encode :: "byte list \<Rightarrow> string" where
  "hex_encode bs = concat (map (\<lambda>b. [hexdig (unat b div 16), hexdig (unat b mod 16)]) bs)"

definition fromHexChar :: "char \<Rightarrow> byte option" where
  "fromHexChar c =
     (let n = (of_char c :: nat) in
      if 48 \<le> n \<and> n \<le> 57 then Some (word_of_nat (n - 48))
      else if 97 \<le> n \<and> n \<le> 102 then Some (word_of_nat (n - 97 + 10))
      else if 65 \<le> n \<and> n \<le> 70 then Some (word_of_nat (n - 65 + 10))
      else None)"

fun hex_decode :: "string \<Rightarrow> byte list \<times> hex_err option" where
  "hex_decode [] = ([], None)"
| "hex_decode [c] = ([], Some (if fromHexChar c = None then InvalidByteError else ErrLength))"
| "hex_decode (p # q # s) =
     (case (fromHexChar p, fromHexChar q) of
        (Some a, Some b) \<Rightarrow>
          (case hex_decode s of (bs, e) \<Rightarrow> ((push_bit 4 a OR b) # bs, e))
      | _ \<Rightarrow> ([], Some InvalidByteError))"

subsection \<open>common/bytes.go\<close>

definition has0xPrefix :: "string \<Rightarrow> bool" where
  "has0xPrefix str \<longleftrightarrow> 2 \<le> length str \<and> str ! 0 = CHR ''0'' \<and>
     (str ! 1 = CHR ''x'' \<or> str ! 1 = CHR ''X'')"

definition isHexCharacter :: "char \<Rightarrow> bool" where
  "isHexCharacter c \<longleftrightarrow> (let n = (of_char c :: nat) in
     (48 \<le> n \<and> n \<le> 57) \<or> (97 \<le> n \<and> n \<le> 102) \<or> (65 \<le> n \<and> n \<le> 70))"

definition isHex :: "string \<Rightarrow> bool" where
  "isHex str = (if length str mod 2 \<noteq> 0 then False else list_all isHexCharacter str)"

definition Bytes2Hex :: "byte list \<Rightarrow> string" where
  "Bytes2Hex d = hex_encode d"

definition Hex2Bytes :: "string \<Rightarrow> byte list" where
  "Hex2Bytes str = fst (hex_decode str)"

definition FromHex :: "string \<Rightarrow> byte list" where
  "FromHex s =
     (let s = (if has0xPrefix s then drop 2 s else s);
          s = (if length s mod 2 = 1 then CHR ''0'' # s else s)
      in Hex2Bytes s)"

definition Hex2BytesFixed :: "string \<Rightarrow> nat \<Rightarrow> byte list" where
  "Hex2BytesFixed str flen =
     (let h = fst (hex_decode str) in
      if length h = flen then h
      else if length h > flen then drop (length h - flen) h
      else replicate (flen - length h) 0 @ h)"

definition RightPadBytes :: "byte list \<Rightarrow> nat \<Rightarrow> byte list" where
  "RightPadBytes sl l = (if l \<le> length sl then sl else sl @ replicate (l - length sl) 0)"

definition LeftPadBytes :: "byte list \<Rightarrow> nat \<Rightarrow> byte list" where
  "LeftPadBytes sl l = (if l \<le> length sl then sl else replicate (l - length sl) 0 @ sl)"

fun TrimLeftZeroes :: "byte list \<Rightarrow> byte list" where
  "TrimLeftZeroes [] = []"
| "TrimLeftZeroes (b # s) = (if b \<noteq> 0 then b # s else TrimLeftZeroes s)"

definition TrimRightZeroes :: "byte list \<Rightarrow> byte list" where
  "TrimRightZeroes s = rev (TrimLeftZeroes (rev s))"

subsection \<open>common/types.go\<close>

definition setFixed :: "nat \<Rightarrow> byte list \<Rightarrow> byte list" where
  "setFixed n b =
     (let b = (if length b > n then drop (length b - n) b else b)
      in replicate (n - length b) 0 @ b)"

definition Hash_Bytes :: "hash \<Rightarrow> byte list" where
  "Hash_Bytes h = be_bytes 32 (unat h)"

definition hash_of_bytes :: "byte list \<Rightarrow> hash" where
  "hash_of_bytes b = word_of_nat (be_nat b)"

definition BytesToHash :: "byte list \<Rightarrow> hash" where
  "BytesToHash b = hash_of_bytes (setFixed 32 b)"

definition HexToHash :: "string \<Rightarrow> hash" where
  "HexToHash s = BytesToHash (FromHex s)"

definition Hash_Cmp :: "hash \<Rightarrow> hash \<Rightarrow> int" where
  "Hash_Cmp h other = (if h = other then 0 else if h < other then -1 else 1)"

definition Hash_Hex :: "hash \<Rightarrow> string" where
  "Hash_Hex h = ''0x'' @ hex_encode (Hash_Bytes h)"

definition Address_Bytes :: "address \<Rightarrow> byte list" where
  "Address_Bytes a = be_bytes 20 (unat a)"

definition BytesToAddress :: "byte list \<Rightarrow> address" where
  "BytesToAddress b = word_of_nat (be_nat (setFixed 20 b))"

definition HexToAddress :: "string \<Rightarrow> address" where
  "HexToAddress s = BytesToAddress (FromHex s)"

definition IsHexAddress :: "string \<Rightarrow> bool" where
  "IsHexAddress s = (let s = (if has0xPrefix s then drop 2 s else s) in length s = 2 * 20 \<and> isHex s)"

definition Address_hex :: "address \<Rightarrow> string" where
  "Address_hex a = ''0x'' @ hex_encode (Address_Bytes a)"

definition checksumChar :: "byte list \<Rightarrow> string \<Rightarrow> nat \<Rightarrow> char" where
  "checksumChar hash buf i =
     (let hashByte = hash ! ((i - 2) div 2);
          hashByte = (if i mod 2 = 0 then drop_bit 4 hashByte else hashByte AND 15)
      in if (of_char (buf ! i) :: nat) > 57 \<and> hashByte > 7
         then char_of ((of_char (buf ! i) :: nat) - 32) else buf ! i)"

definition Address_Hex :: "(string \<Rightarrow> byte list) \<Rightarrow> address \<Rightarrow> string" where
  "Address_Hex keccak256 a =
     (let buf = Address_hex a; hash = keccak256 (drop 2 buf)
      in take 2 buf @ map (checksumChar hash buf) [2..<length buf])"

definition checksum_tail :: "(string \<Rightarrow> byte list) \<Rightarrow> address \<Rightarrow> string" where
  "checksum_tail keccak256 a =
     map (checksumChar (keccak256 (drop 2 (Address_hex a))) (Address_hex a)) [2..<length (Address_hex a)]"

subsection \<open>common/hexutil\<close>

datatype hexutil_err = ErrEmptyString | ErrSyntax | ErrMissingPrefix | ErrOddLength
  | ErrEmptyNumber | ErrLeadingZero | ErrUint64Range | ErrBig256Range

datatype num_err = NumErrRange | NumErrSyntax

fun mapError :: "hex_err \<Rightarrow> hexutil_err" where
  "mapError InvalidByteError = ErrSyntax"
| "mapError ErrLength = ErrOddLength"

fun mapNumError :: "num_err \<Rightarrow> hexutil_err" where
  "mapNumError NumErrRange = ErrUint64Range"
| "mapNumError NumErrSyntax = ErrSyntax"

definition Decode :: "string \<Rightarrow> byte list \<times> hexutil_err option" where
  "Decode input =
     (if length input = 0 then ([], Some ErrEmptyString)
      else if \<not> has0xPrefix input then ([], Some ErrMissingPrefix)
      else case hex_decode (drop 2 input) of (b, e) \<Rightarrow> (b, map_option mapError e))"

definition Encode :: "byte list \<Rightarrow> string" where
  "Encode b = ''0x'' @ hex_encode b"

definition checkNumber :: "string \<Rightarrow> string \<times> hexutil_err option" where
  "checkNumber input =
     (if length input = 0 then ([], Some ErrEmptyString)
      else if \<not> has0xPrefix input then ([], Some ErrMissingPrefix)
      else let input = drop 2 input in
        if length input = 0 then ([], Some ErrEmptyNumber)
        else if length input > 1 \<and> input ! 0 = CHR ''0'' then ([], Some ErrLeadingZero)
        else (input, None))"

fun parseUint16_from :: "nat \<Rightarrow> string \<Rightarrow> u64 \<times> num_err option" where
  "parseUint16_from n [] = (word_of_nat n, None)"
| "parseUint16_from n (c # s) =
     (case fromHexChar c of
        None \<Rightarrow> (0, Some NumErrSyntax)
      | Some d \<Rightarrow> if n \<ge> 2 ^ 60 then (- 1, Some NumErrRange)
                 else parseUint16_from (n * 16 + unat d) s)"

definition parseUint16 :: "string \<Rightarrow> u64 \<times> num_err option" where
  "parseUint16 s = (if s = [] then (0, Some NumErrSyntax) else parseUint16_from 0 s)"

definition DecodeUint64 :: "string \<Rightarrow> u64 \<times> hexutil_err option" where
  "DecodeUint64 input =
     (case checkNumber input of
        (raw, Some e) \<Rightarrow> (0, Some e)
      | (raw, None) \<Rightarrow> (case parseUint16 raw of (dec, e) \<Rightarrow> (dec, map_option mapNumError e)))"

fun appendUint16 :: "nat \<Rightarrow> string" where
  "appendUint16 n = (if n < 16 then [hexdig n] else appendUint16 (n div 16) @ [hexdig (n mod 16)])"

declare appendUint16.simps [simp del]

definition EncodeUint64 :: "u64 \<Rightarrow> string" where
  "EncodeUint64 i = ''0x'' @ appendUint16 (unat i)"

definition badNibble :: u64 where
  "badNibble = - 1"

definition decodeNibble :: "char \<Rightarrow> u64" where
  "decodeNibble c =
     (let n = (of_char c :: nat) in
      if 48 \<le> n \<and> n \<le> 57 then word_of_nat (n - 48)
      else if 65 \<le> n \<and> n \<le> 70 then word_of_nat (n - 65 + 10)
      else if 97 \<le> n \<and> n \<le> 102 then word_of_nat (n - 97 + 10)
      else badNibble)"

definition bigWordNibbles :: nat where
  "bigWordNibbles = 16"

fun decodeWord :: "u64 \<Rightarrow> string \<Rightarrow> u64 option" where
  "decodeWord w [] = Some w"
| "decodeWord w (c # s) =
     (let nib = decodeNibble c in
      if nib = badNibble then None else decodeWord (w * 16 + nib) s)"

fun decodeWords :: "nat \<Rightarrow> string \<Rightarrow> u64 list option" where
  "decodeWords 0 raw = Some []"
| "decodeWords (Suc k) raw =
     (let start = length raw - bigWordNibbles in
      case decodeWord 0 (drop start raw) of
        None \<Rightarrow> None
      | Some w \<Rightarrow> map_option ((#) w) (decodeWords k (take start raw)))"

fun setBits :: "u64 list \<Rightarrow> nat" where
  "setBits [] = 0"
| "setBits (w # ws) = unat w + 2 ^ 64 * setBits ws"

definition DecodeBig :: "string \<Rightarrow> nat option \<times> hexutil_err option" where
  "DecodeBig input =
     (case checkNumber input of
        (raw, Some e) \<Rightarrow> (None, Some e)
      | (raw, None) \<Rightarrow>
          if length raw > 64 then (None, Some ErrBig256Range)
          else case decodeWords (length raw div bigWordNibbles + 1) raw of
                 None \<Rightarrow> (None, Some ErrSyntax)
               | Some ws \<Rightarrow> (Some (setBits ws), None))"

definition EncodeBig :: "int \<Rightarrow> string" where
  "EncodeBig b =
     (if b = 0 then ''0x0''
      else if b > 0 then ''0x'' @ appendUint16 (nat b)
      else ''-0x'' @ appendUint16 (nat (- b)))"

text \<open>The number a string of hexadecimal digits denotes: the reference for the decoders.\<close>

definition nibval :: "char \<Rightarrow> nat" where
  "nibval c = (case fromHexChar c of Some d \<Rightarrow> unat d | None \<Rightarrow> 0)"

definition hexval :: "string \<Rightarrow> nat" where
  "hexval s = foldl (\<lambda>a c. 16 * a + nibval c) 0 s"

subsection \<open>Hexadecimal digits\<close>

lemma fromHexChar_hexdig [simp]: "n < 16 \<Longrightarrow> fromHexChar (hexdig n) = Some (word_of_nat n)"
  by (drule nibble_enum) (elim insertE emptyE; simp add: fromHexChar_def hexdig_def)

lemma isHexCharacter_iff: "isHexCharacter c \<longleftrightarrow> fromHexChar c \<noteq> None"
  by (auto simp: isHexCharacter_def fromHexChar_def Let_def)

lemma fromHexChar_bound: "fromHexChar c = Some b \<Longrightarrow> b < 16"
  by (auto simp: fromHexChar_def Let_def word_less_nat_alt unat_of_nat
      simp del: of_nat_diff of_nat_add split: if_splits)

lemma length_hex_encode [simp]: "length (hex_encode bs) = 2 * length bs"
  by (induction bs) (simp_all add: hex_encode_def)

lemma hex_encode_Cons:
  "hex_encode (b # bs) = hexdig (unat b div 16) # hexdig (unat b mod 16) # hex_encode bs"
  by (simp add: hex_encode_def)

lemma nibbles_of_byte:
  "unat (b :: byte) div 16 < 16" "unat b mod 16 < 16"
  "push_bit 4 (word_of_nat (unat b div 16)) OR word_of_nat (unat b mod 16) = b"
proof -
  have u: "unat b < 256"
    using unsigned_less [of b] by simp
  then show "unat b div 16 < 16" "unat b mod 16 < 16" by auto
  have "unat b div 16 = unat (b div 16)" "unat b mod 16 = unat (b mod 16)"
    by (simp_all add: unat_div unat_mod)
  then show "push_bit 4 (word_of_nat (unat b div 16)) OR word_of_nat (unat b mod 16) = b"
    by (simp add: byte_split)
qed

lemma hex_decode_encode [simp]: "hex_decode (hex_encode bs) = (bs, None)"
proof (induction bs)
  case Nil
  show ?case by (simp add: hex_encode_def)
next
  case (Cons b bs)
  then show ?case
    by (simp add: hex_encode_Cons nibbles_of_byte)
qed

lemma Hex2Bytes_Bytes2Hex [simp]: "Hex2Bytes (Bytes2Hex d) = d"
  by (simp add: Hex2Bytes_def Bytes2Hex_def)

subsection \<open>Hashes and addresses\<close>

lemma length_setFixed [simp]: "length (setFixed n b) = n"
  by (simp add: setFixed_def Let_def)

lemma setFixed_exact [simp]: "length b = n \<Longrightarrow> setFixed n b = b"
  by (simp add: setFixed_def)

lemma setFixed_suffix: "n \<le> length ys \<Longrightarrow> setFixed n (xs @ ys) = setFixed n ys"
  by (auto simp: setFixed_def Let_def)

lemma length_Hash_Bytes [simp]: "length (Hash_Bytes h) = 32"
  by (simp add: Hash_Bytes_def)

lemma length_Address_Bytes [simp]: "length (Address_Bytes a) = 20"
  by (simp add: Address_Bytes_def)

lemma hash_of_bytes_Hash_Bytes [simp]: "hash_of_bytes (Hash_Bytes h) = h"
proof -
  have "unat h < 256 ^ 32"
    using unsigned_less [of h] by simp
  then show ?thesis by (simp add: hash_of_bytes_def Hash_Bytes_def be_nat_be_bytes)
qed

lemma BytesToHash_Hash_Bytes [simp]: "BytesToHash (Hash_Bytes h) = h"
  by (simp add: BytesToHash_def)

lemma Hash_Bytes_BytesToHash: "Hash_Bytes (BytesToHash b) = setFixed 32 b"
proof -
  have "be_nat (setFixed 32 b) < 256 ^ 32"
    using be_nat_bound [of "setFixed 32 b"] by simp
  then have "unat (word_of_nat (be_nat (setFixed 32 b)) :: hash) = be_nat (setFixed 32 b)"
    by (simp add: unat_of_nat)
  then show ?thesis
    using be_bytes_be_nat [of "setFixed 32 b"]
    by (simp add: Hash_Bytes_def BytesToHash_def hash_of_bytes_def)
qed

lemma BytesToHash_suffix: "32 \<le> length ys \<Longrightarrow> BytesToHash (xs @ ys) = BytesToHash ys"
  by (simp add: BytesToHash_def setFixed_suffix)

lemma BytesToAddress_Address_Bytes [simp]: "BytesToAddress (Address_Bytes a) = a"
proof -
  have "unat a < 256 ^ 20"
    using unsigned_less [of a] by simp
  then show ?thesis by (simp add: BytesToAddress_def Address_Bytes_def be_nat_be_bytes)
qed

lemma has0xPrefix_0x [simp]: "has0xPrefix (CHR ''0'' # CHR ''x'' # s)"
  by (simp add: has0xPrefix_def)

lemma FromHex_0x_encode [simp]: "FromHex (CHR ''0'' # CHR ''x'' # hex_encode bs) = bs"
  by (simp add: FromHex_def Hex2Bytes_def Let_def)

lemma Hash_Hex_eq_iff [simp]: "Hash_Hex g = Hash_Hex h \<longleftrightarrow> g = h"
proof
  assume "Hash_Hex g = Hash_Hex h"
  then have "fst (hex_decode (hex_encode (Hash_Bytes g))) = fst (hex_decode (hex_encode (Hash_Bytes h)))"
    by (simp add: Hash_Hex_def)
  then have "BytesToHash (Hash_Bytes g) = BytesToHash (Hash_Bytes h)"
    by simp
  then show "g = h" by simp
qed simp

lemma HexToHash_Hex [simp]: "HexToHash (Hash_Hex h) = h"
  by (simp add: HexToHash_def Hash_Hex_def)

lemma hex_decode_cong:
  "list_all2 (\<lambda>c d. fromHexChar c = fromHexChar d) s t \<Longrightarrow> hex_decode s = hex_decode t"
proof (induction s arbitrary: t rule: hex_decode.induct)
  case 1
  then show ?case by simp
next
  case (2 c)
  then show ?case by (auto simp: list_all2_Cons1 eq_commute)
next
  case (3 p q s)
  from "3.prems" obtain p' q' t' where t: "t = p' # q' # t'"
      and pq: "fromHexChar p' = fromHexChar p" "fromHexChar q' = fromHexChar q"
      and st: "list_all2 (\<lambda>c d. fromHexChar c = fromHexChar d) s t'"
    by (auto simp: list_all2_Cons1)
  show ?case
  proof (cases "fromHexChar p")
    case None
    then show ?thesis by (simp add: t pq)
  next
    case (Some a)
    then show ?thesis
      using "3.IH" st by (cases "fromHexChar q") (auto simp: t pq)
  qed
qed

lemma hex_encode_digit:
  assumes "c \<in> set (hex_encode bs)"
  obtains n where "n < 16" "c = hexdig n"
proof -
  from assms obtain b where "c = hexdig (unat b div 16) \<or> c = hexdig (unat (b::byte) mod 16)"
    by (auto simp: hex_encode_def)
  then show thesis
    using that nibbles_of_byte(1,2) [of b] by blast
qed

lemma fromHexChar_upper:
  "n < 16 \<Longrightarrow> (of_char (hexdig n) :: nat) > 57 \<Longrightarrow>
   fromHexChar (char_of ((of_char (hexdig n) :: nat) - 32)) = fromHexChar (hexdig n)"
  by (drule nibble_enum) (elim insertE emptyE; simp add: fromHexChar_def hexdig_def)

lemma checksumChar_nibble:
  assumes "2 \<le> i" and "i < length (Address_hex a)"
  shows "fromHexChar (checksumChar hash (Address_hex a) i) = fromHexChar (Address_hex a ! i)"
proof -
  from assms have "Address_hex a ! i \<in> set (hex_encode (Address_Bytes a))"
    by (auto simp: Address_hex_def nth_Cons split: nat.splits intro!: nth_mem)
  then obtain n where "n < 16" "Address_hex a ! i = hexdig n"
    by (rule hex_encode_digit)
  then show ?thesis
    by (simp add: checksumChar_def Let_def fromHexChar_upper)
qed

lemma length_Address_hex [simp]: "length (Address_hex a) = 42"
  by (simp add: Address_hex_def)

lemma length_checksum_tail [simp]: "length (checksum_tail k a) = 40"
  by (simp add: checksum_tail_def del: upt_rec_numeral)

lemma Address_Hex_0x: "Address_Hex k a = CHR ''0'' # CHR ''x'' # checksum_tail k a"
proof -
  have "take 2 (Address_hex a) = ''0x''"
    by (simp add: Address_hex_def)
  then show ?thesis
    by (simp add: Address_Hex_def checksum_tail_def Let_def del: upt_rec_numeral)
qed

lemma checksum_tail_nibbles:
  "list_all2 (\<lambda>c d. fromHexChar c = fromHexChar d) (checksum_tail k a) (hex_encode (Address_Bytes a))"
proof (rule list_all2I)
  show "length (checksum_tail k a) = length (hex_encode (Address_Bytes a))"
    by simp
  have "fromHexChar (checksum_tail k a ! j) = fromHexChar (hex_encode (Address_Bytes a) ! j)"
    if "j < 40" for j
  proof -
    have "checksum_tail k a ! j = checksumChar (k (drop 2 (Address_hex a))) (Address_hex a) (j + 2)"
      using that by (simp add: checksum_tail_def nth_upt del: upt_rec_numeral)
    moreover have "Address_hex a ! (j + 2) = hex_encode (Address_Bytes a) ! j"
      by (simp add: Address_hex_def)
    ultimately show ?thesis
      using checksumChar_nibble [of "j + 2" a "k (drop 2 (Address_hex a))"] that by simp
  qed
  then show "\<forall>(x, y) \<in> set (zip (checksum_tail k a) (hex_encode (Address_Bytes a))).
      fromHexChar x = fromHexChar y"
    by (auto simp: set_zip)
qed

lemma checksum_tail_hex: "c \<in> set (checksum_tail k a) \<Longrightarrow> fromHexChar c \<noteq> None"
proof -
  assume "c \<in> set (checksum_tail k a)"
  then obtain j where j: "j < 40" "c = checksum_tail k a ! j"
    by (auto simp: in_set_conv_nth)
  define d where "d = hex_encode (Address_Bytes a) ! j"
  have "d \<in> set (hex_encode (Address_Bytes a))"
    using j(1) by (simp add: d_def)
  moreover have "fromHexChar c = fromHexChar d"
    using list_all2_nthD [OF checksum_tail_nibbles, of j k a] j by (simp add: d_def)
  moreover from calculation(1) obtain n where "n < 16" "d = hexdig n" by (rule hex_encode_digit)
  ultimately show ?thesis by simp
qed

lemma HexToAddress_checksum [simp]: "HexToAddress (Address_Hex keccak256 a) = a"
proof -
  have "hex_decode (checksum_tail keccak256 a) = hex_decode (hex_encode (Address_Bytes a))"
    by (rule hex_decode_cong [OF checksum_tail_nibbles])
  then show ?thesis
    by (simp add: HexToAddress_def Address_Hex_0x FromHex_def Hex2Bytes_def Let_def)
qed

lemma length_Address_Hex [simp]: "length (Address_Hex k a) = 42"
  by (simp add: Address_Hex_0x)

lemma Address_Hex_no_comma: "CHR '','' \<notin> set (Address_Hex k a)"
proof -
  have "fromHexChar CHR '','' = None" by (simp add: fromHexChar_def)
  then have "CHR '','' \<notin> set (checksum_tail k a)" using checksum_tail_hex by blast
  then show ?thesis by (simp add: Address_Hex_0x)
qed

text \<open>
  C19: the checksummed text form of an address is accepted by \<open>IsHexAddress\<close> and reads
  back as the address, whatever the checksum hash returns; the text form of a hash reads
  back as the hash.
\<close>

theorem fixed_values_hex_roundtrip:
  "IsHexAddress (Address_Hex keccak256 a) \<and> HexToAddress (Address_Hex keccak256 a) = a \<and>
   HexToHash (Hash_Hex h) = h"
proof -
  have "IsHexAddress (Address_Hex keccak256 a)"
    using checksum_tail_hex [of _ keccak256 a]
    by (simp add: IsHexAddress_def Address_Hex_0x isHex_def list_all_iff isHexCharacter_iff)
  then show ?thesis by simp
qed

subsection \<open>Quantities\<close>

lemma nibval_bound: "nibval c < 16"
  using fromHexChar_bound [of c]
  by (auto simp: nibval_def word_less_nat_alt split: option.splits)

lemma nibval_hexdig [simp]: "n < 16 \<Longrightarrow> nibval (hexdig n) = n"
  by (simp add: nibval_def unat_of_nat)

lemma isHexCharacter_hexdig [simp]: "n < 16 \<Longrightarrow> isHexCharacter (hexdig n)"
  by (simp add: isHexCharacter_iff)

lemma hexval_Nil [simp]: "hexval [] = 0"
  by (simp add: hexval_def)

lemma hexval_snoc: "hexval (s @ [c]) = 16 * hexval s + nibval c"
  by (simp add: hexval_def)

lemma hexval_append: "hexval (s @ t) = hexval s * 16 ^ length t + hexval t"
proof (induction t rule: rev_induct)
  case (snoc c t)
  then show ?case
    using hexval_snoc [of "s @ t" c] by (simp add: hexval_snoc)
qed simp

lemma hexval_bound: "hexval s < 16 ^ length s"
proof (induction s rule: rev_induct)
  case (snoc c s)
  then show ?case using nibval_bound [of c] by (simp add: hexval_snoc)
qed simp

lemma hexval_Cons: "hexval (c # s) = nibval c * 16 ^ length s + hexval s"
  using hexval_append [of "[c]" s] hexval_snoc [of "[]" c] by simp

lemma appendUint16_hex: "list_all isHexCharacter (appendUint16 n)"
proof (induction n rule: appendUint16.induct)
  case (1 n)
  then show ?case by (cases "n < 16") (simp_all add: appendUint16.simps [of n])
qed

lemma hexval_appendUint16 [simp]: "hexval (appendUint16 n) = n"
proof (induction n rule: appendUint16.induct)
  case (1 n)
  then show ?case
    by (cases "n < 16") (simp_all add: appendUint16.simps [of n] hexval_snoc hexval_Cons)
qed

lemma appendUint16_nonempty [simp]: "appendUint16 n \<noteq> []"
  by (simp add: appendUint16.simps [of n])

lemma hexdig_0: "n < 16 \<Longrightarrow> hexdig n = CHR ''0'' \<longleftrightarrow> n = 0"
  by (drule nibble_enum) (elim insertE emptyE; simp add: hexdig_def)

lemma appendUint16_no_leading_zero: "0 < n \<Longrightarrow> appendUint16 n ! 0 \<noteq> CHR ''0''"
proof (induction n rule: appendUint16.induct)
  case (1 n)
  show ?case
  proof (cases "n < 16")
    case True
    with "1.prems" show ?thesis by (simp add: appendUint16.simps [of n] hexdig_0)
  next
    case False
    then have "appendUint16 (n div 16) ! 0 \<noteq> CHR ''0''"
      using "1.IH" by simp
    with False show ?thesis by (simp add: appendUint16.simps [of n] nth_append)
  qed
qed

lemma checkNumber_canonical [simp]:
  "checkNumber (CHR ''0'' # CHR ''x'' # appendUint16 n) = (appendUint16 n, None)"
proof (cases "n = 0")
  case True
  then show ?thesis by (simp add: checkNumber_def appendUint16.simps [of 0])
next
  case False
  then show ?thesis
    using appendUint16_no_leading_zero [of n] by (simp add: checkNumber_def Let_def)
qed

lemma length_appendUint16: "n < 16 ^ Suc k \<Longrightarrow> length (appendUint16 n) \<le> Suc k"
proof (induction k arbitrary: n)
  case 0
  then show ?case by (simp add: appendUint16.simps [of n])
next
  case (Suc k)
  then have "n div 16 < 16 ^ Suc k"
    by (simp add: less_mult_imp_div_less)
  with Suc.IH have "length (appendUint16 (n div 16)) \<le> Suc k" by blast
  then show ?case by (simp add: appendUint16.simps [of n])
qed

lemma parseUint16_from_value:
  "list_all isHexCharacter s \<Longrightarrow> n * 16 ^ length s + hexval s < 2 ^ 64 \<Longrightarrow>
   parseUint16_from n s = (word_of_nat (n * 16 ^ length s + hexval s), None)"
proof (induction s arbitrary: n)
  case Nil
  then show ?case by simp
next
  case (Cons c s)
  from Cons.prems(1) have s: "list_all isHexCharacter s" by simp
  from Cons.prems(1) obtain d where d: "fromHexChar c = Some d"
    by (auto simp: isHexCharacter_iff)
  have nv: "nibval c = unat d" by (simp add: nibval_def d)
  have eq: "(n * 16 + unat d) * 16 ^ length s + hexval s = n * 16 ^ length (c # s) + hexval (c # s)"
    by (simp add: hexval_Cons nv algebra_simps)
  have "n * 16 \<le> n * 16 ^ length (c # s)" by simp
  with Cons.prems(2) have "n * 16 < 2 ^ 64" by linarith
  then have "n < 2 ^ 60" by simp
  with Cons.IH [OF s, of "n * 16 + unat d"] Cons.prems(2) eq d show ?case
    by simp
qed

text \<open>
  C20: a 64-bit quantity survives \<open>EncodeUint64\<close> followed by \<open>DecodeUint64\<close>, with
  no error.
\<close>

theorem DecodeUint64_EncodeUint64: "DecodeUint64 (EncodeUint64 i) = (i, None)"
proof -
  have "unat i < 2 ^ 64" using unsigned_less [of i] by simp
  then have "parseUint16 (appendUint16 (unat i)) = (i, None)"
    using parseUint16_from_value [of "appendUint16 (unat i)" 0]
    by (simp add: parseUint16_def appendUint16_hex)
  then show ?thesis by (simp add: DecodeUint64_def EncodeUint64_def)
qed

lemma decodeNibble_hex:
  assumes "isHexCharacter c"
  shows "decodeNibble c = word_of_nat (nibval c)" and "decodeNibble c \<noteq> badNibble"
proof -
  show "decodeNibble c = word_of_nat (nibval c)"
    using assms
    by (auto simp: decodeNibble_def nibval_def fromHexChar_def isHexCharacter_def Let_def unat_of_nat
        simp del: of_nat_diff of_nat_add split: if_splits)
  moreover have "(word_of_nat (nibval c) :: u64) \<noteq> badNibble"
  proof
    assume "word_of_nat (nibval c) = badNibble"
    then have "unat (word_of_nat (nibval c) :: u64) = unat badNibble" by simp
    then show False
      using nibval_bound [of c] by (simp add: badNibble_def unat_of_nat
          unsigned_minus_1_eq_mask mask_eq_exp_minus_1)
  qed
  ultimately show "decodeNibble c \<noteq> badNibble" by simp
qed

lemma decodeWord_value:
  "list_all isHexCharacter s \<Longrightarrow> unat w * 16 ^ length s + hexval s < 2 ^ 64 \<Longrightarrow>
   \<exists>v. decodeWord w s = Some v \<and> unat v = unat w * 16 ^ length s + hexval s"
proof (induction s arbitrary: w)
  case Nil
  then show ?case by simp
next
  case (Cons c s)
  from Cons.prems(1) have c: "isHexCharacter c" and s: "list_all isHexCharacter s" by auto
  have eq: "(unat w * 16 + nibval c) * 16 ^ length s + hexval s
      = unat w * 16 ^ length (c # s) + hexval (c # s)"
    by (simp add: hexval_Cons algebra_simps)
  have "unat w * 16 + nibval c \<le> (unat w * 16 + nibval c) * 16 ^ length s" by simp
  with eq Cons.prems(2) have "unat w * 16 + nibval c < 2 ^ 64" by linarith
  then have "unat (w * 16 + word_of_nat (nibval c) :: u64) = unat w * 16 + nibval c"
    by (simp add: unat_word_ariths unat_of_nat)
  with Cons.IH [OF s, of "w * 16 + word_of_nat (nibval c)"] eq Cons.prems(2) show ?case
    using decodeNibble_hex [OF c] by (simp add: Let_def)
qed

lemma decodeWords_value:
  "list_all isHexCharacter raw \<Longrightarrow> length raw \<le> k * 16 \<Longrightarrow>
   \<exists>ws. decodeWords k raw = Some ws \<and> setBits ws = hexval raw"
proof (induction k arbitrary: raw)
  case 0
  then show ?case by simp
next
  case (Suc k)
  let ?st = "length raw - 16"
  let ?lo = "drop ?st raw" and ?hi = "take ?st raw"
  have lo: "list_all isHexCharacter ?lo" and hi: "list_all isHexCharacter ?hi"
    using Suc.prems(1) by (auto simp: list_all_iff dest: in_set_takeD in_set_dropD)
  have "hexval ?lo < 16 ^ length ?lo" by (rule hexval_bound)
  also have "\<dots> \<le> 16 ^ 16" by (rule power_increasing) auto
  finally have "hexval ?lo < 2 ^ 64" by simp
  with decodeWord_value [OF lo, of 0] obtain v
    where v: "decodeWord 0 ?lo = Some v" "unat v = hexval ?lo" by auto
  have "length ?hi \<le> k * 16" using Suc.prems(2) by simp
  with Suc.IH [OF hi] obtain ws where ws: "decodeWords k ?hi = Some ws" "setBits ws = hexval ?hi"
    by blast
  have "hexval raw = hexval (?hi @ ?lo)" by simp
  also have "\<dots> = hexval ?hi * 16 ^ length ?lo + hexval ?lo" by (rule hexval_append)
  also have "\<dots> = hexval ?hi * 2 ^ 64 + hexval ?lo"
    by (cases "16 \<le> length raw") auto
  finally have "hexval raw = hexval ?lo + 2 ^ 64 * hexval ?hi" by simp
  with v ws show ?case by (simp add: Let_def bigWordNibbles_def)
qed

text \<open>
  C21: every number of at most 256 bits survives \<open>EncodeBig\<close> followed by
  \<open>DecodeBig\<close>: the word-by-word accumulation of the decoder agrees with the positional
  value of the digits.
\<close>

theorem DecodeBig_EncodeBig:
  assumes "0 \<le> b" and "b < 2 ^ 256"
  shows "DecodeBig (EncodeBig b) = (Some (nat b), None)"
proof -
  let ?s = "appendUint16 (nat b)"
  have enc: "EncodeBig b = ''0x'' @ ?s"
    using assms by (simp add: EncodeBig_def appendUint16.simps [of 0] hexdig_def)
  have "nat b < 16 ^ Suc 63" using assms by (simp add: nat_less_iff)
  then have len: "length ?s \<le> 64" using length_appendUint16 [of "nat b" 63] by linarith
  obtain ws where "decodeWords (length ?s div 16 + 1) ?s = Some ws" "setBits ws = hexval ?s"
    using decodeWords_value [OF appendUint16_hex, of "nat b" "length ?s div 16 + 1"] by force
  with len show ?thesis by (simp add: DecodeBig_def enc bigWordNibbles_def)
qed

theorem DecodeBig_EncodeBig_witness:
  "(0::int) \<le> 2 ^ 255 + 7 \<and> (2 ^ 255 + 7 :: int) < 2 ^ 256 \<and>
   DecodeBig (EncodeBig (2 ^ 255 + 7)) = (Some (nat (2 ^ 255 + 7)), None)"
proof -
  have h: "(0::int) \<le> 2 ^ 255 + 7" "(2 ^ 255 + 7 :: int) < 2 ^ 256" by simp_all
  show ?thesis using h DecodeBig_EncodeBig [OF h] by blast
qed

end
