(* ===== verification/Da_Records.thy ===== *)
theory Da_Records
  imports Hexcodec
begin

text \<open>
  The data-availability record \<open>DA\<close> of \<open>core/types/file.go\<close> and its
  database layer \<open>ethdb/db\<close>: the row type of the table \<open>t_das\<close>, the functions
  that write records into rows and the functions that read rows back, and the name
  space rows.  The commitment type and its methods (\<open>kzg.Digest\<close> of gnark-crypto), the
  clock's text format and the SQL layer (gorm) are not part of the repository: they are
  the fields of \<open>da_env\<close> and \<open>gorm\<close>, arguments of the definitions that use them.
  A time is the number of nanoseconds since the epoch.
\<close>

subsection \<open>core/types/file.go\<close>

record 'c DA =
  Sender :: address
  Nonce :: u64
  Index :: u64
  Length :: u64
  Data :: "byte list"
  Commitment :: 'c
  SignData :: "byte list list"
  SignerAddr :: "string list"
  DasKey :: "byte list"
  TxHash :: hash
  BlockNum :: u64
  ReceiveAt :: int
  OutOfTime :: int
  Proof :: "byte list"
  ClaimedValue :: "byte list"
  NameSpaceID :: "int option"
  Root :: hash

record NameSpace =
  ns_ID :: u64
  ns_Creater :: address
  ns_StorageList :: "address list"

text \<open>Go's zero \<open>time.Time\<close>: January 1 of year 1, UTC.\<close>

definition zeroTime :: int where
  "zeroTime = - 62135596800000000000"

record 'c da_env =
  Marshal :: "'c \<Rightarrow> byte list"
  X_Marshal :: "'c \<Rightarrow> byte list"
  Y_Marshal :: "'c \<Rightarrow> byte list"
  X_IsZero :: "'c \<Rightarrow> bool"
  Y_IsZero :: "'c \<Rightarrow> bool"
  SetBytes :: "'c \<Rightarrow> byte list \<Rightarrow> 'c \<times> string option"
  zeroDigest :: 'c
  Keccak256 :: "string \<Rightarrow> byte list"
  FormatRFC3339 :: "int \<Rightarrow> string"
  ParseRFC3339 :: "string \<Rightarrow> int option"

definition zeroDA :: "'c da_env \<Rightarrow> 'c DA" where
  "zeroDA env = \<lparr> Sender = 0, Nonce = 0, Index = 0, Length = 0, Data = [],
     Commitment = zeroDigest env, SignData = [], SignerAddr = [], DasKey = replicate 32 0, TxHash = 0,
     BlockNum = 0, ReceiveAt = zeroTime, OutOfTime = zeroTime, Proof = [], ClaimedValue = [],
     NameSpaceID = None, Root = 0 \<rparr>"

definition NewDA :: "'c da_env \<Rightarrow> address \<Rightarrow> u64 \<Rightarrow> u64 \<Rightarrow> 'c \<Rightarrow> byte list \<Rightarrow> byte list \<Rightarrow> byte list
    \<Rightarrow> byte list \<Rightarrow> 'c DA" where
  "NewDA env sender index len commitment data dasKey proof claimedValue =
     (zeroDA env)\<lparr> Sender := sender, Index := index, Length := len, Commitment := commitment,
       Data := data, DasKey := dasKey, Proof := proof, ClaimedValue := claimedValue \<rparr>"

subsection \<open>The rows of ethdb/db\<close>

record da_row =
  f_nonce :: u64
  f_sender :: string
  f_index :: u64
  f_length :: u64
  f_tx_hash :: string
  f_commitment :: string
  f_commitment_hash :: string
  f_data :: string
  f_proof :: string
  f_d_as_key :: string
  f_sign_data :: string
  f_sign_address :: string
  f_parent_state_hash :: string
  f_state_hash :: string
  f_block_num :: u64
  f_receive_at :: string
  f_out_time :: string
  f_create_at :: u64
  f_name_space_id :: u64

definition zeroRow :: da_row where
  "zeroRow = \<lparr> f_nonce = 0, f_sender = [], f_index = 0, f_length = 0, f_tx_hash = [],
     f_commitment = [], f_commitment_hash = [], f_data = [], f_proof = [], f_d_as_key = [],
     f_sign_data = [], f_sign_address = [], f_parent_state_hash = [], f_state_hash = [],
     f_block_num = 0, f_receive_at = [], f_out_time = [], f_create_at = 0, f_name_space_id = 0 \<rparr>"

definition da_columns :: "string list" where
  "da_columns = [''f_id'', ''f_nonce'', ''f_sender'', ''f_index'', ''f_length'', ''f_tx_hash'',
     ''f_commitment'', ''f_commitment_hash'', ''f_data'', ''f_proof'', ''f_d_as_key'',
     ''f_sign_data'', ''f_sign_address'', ''f_parent_state_hash'', ''f_state_hash'',
     ''f_block_num'', ''f_receive_at'', ''f_out_time'', ''f_create_at'', ''f_name_space_id'']"

datatype db_err = GormErr string | TableEmpty | HexErr hex_err | DigestErr string | TimeErr

text \<open>
  The calls of gorm the sources make on the table \<open>t_das\<close>, over an abstract database
  state \<open>'s\<close>: \<open>Model(&DA{}).Count\<close>, \<open>Limit(1).Find(&da, "<column> = ?", v)\<close> (the row, or
  none and an untouched \<open>da\<close>), \<open>Create\<close> of a batch, \<open>Order("f_nonce DESC").Limit(1).Find\<close>,
  \<open>Select(columns).Find\<close> and \<open>Where("<column> = ?", v).Delete\<close>.
\<close>

record 's gorm =
  gCount :: "'s \<Rightarrow> string + nat"
  gFindOne :: "'s \<Rightarrow> string \<Rightarrow> string \<Rightarrow> string + da_row option"
  gCreate :: "'s \<Rightarrow> da_row list \<Rightarrow> string + 's"
  gLastNonce :: "'s \<Rightarrow> string + da_row option"
  gSelect :: "'s \<Rightarrow> string list \<Rightarrow> string + da_row list"
  gDelete :: "'s \<Rightarrow> string \<Rightarrow> byte list \<Rightarrow> string + 's"

subsection \<open>Joining and splitting the list columns\<close>

text \<open>\<open>strings.Join\<close> and \<open>strings.Split\<close> with the separator \<open>JoinString\<close>, a comma.\<close>

fun joinComma :: "string list \<Rightarrow> string" where
  "joinComma [] = []"
| "joinComma [s] = s"
| "joinComma (s # t # ss) = s @ CHR '','' # joinComma (t # ss)"

fun splitComma :: "string \<Rightarrow> string list" where
  "splitComma [] = [[]]"
| "splitComma (c # s) =
     (if c = CHR '','' then [] # splitComma s
      else case splitComma s of [] \<Rightarrow> [[c]] | t # ts \<Rightarrow> (c # t) # ts)"

text \<open>
  The pattern \<open>out := make([]T, n); for i, x := range xs { out[i] = x }\<close>: an index out of
  range panics, and slots never written keep the zero value.
\<close>

definition fillSlots :: "nat \<Rightarrow> 'a \<Rightarrow> 'a list \<Rightarrow> ('e, 'a list) outcome" where
  "fillSlots n z xs = (if length xs \<le> n then Ok (xs @ replicate (n - length xs) z) else Panic)"

subsection \<open>Writing records\<close>

definition SaveDACommit :: "'c da_env \<Rightarrow> 's gorm \<Rightarrow> 's \<Rightarrow> 'c DA \<Rightarrow> bool \<Rightarrow> (string, 's) outcome" where
  "SaveDACommit env g s da shouldSave =
     (if shouldSave then
        let result = joinComma (map Bytes2Hex (SignData da));
            addrRes = joinComma (SignerAddr da);
            cmHash = BytesToHash (Marshal env (Commitment da)) in
        case NameSpaceID da of
          None \<Rightarrow> Panic
        | Some ns \<Rightarrow>
            let wd = zeroRow\<lparr> f_sender := Address_Hex (Keccak256 env) (Sender da),
                  f_nonce := Nonce da, f_index := Index da, f_length := Length da,
                  f_tx_hash := Hash_Hex (TxHash da), f_block_num := BlockNum da,
                  f_commitment := Bytes2Hex (Marshal env (Commitment da)),
                  f_commitment_hash := Hash_Hex cmHash, f_data := Bytes2Hex (Data da),
                  f_proof := Bytes2Hex (Proof da), f_sign_data := result,
                  f_sign_address := addrRes, f_out_time := FormatRFC3339 env (OutOfTime da),
                  f_receive_at := FormatRFC3339 env (ReceiveAt da),
                  f_name_space_id := word_of_int ns \<rparr> in
            (case gCreate g s [wd] of Inl e \<Rightarrow> Err e | Inr s' \<Rightarrow> Ok s')
      else Ok s)"

definition stateHashOf :: "'c da_env \<Rightarrow> byte list \<Rightarrow> hash \<Rightarrow> 'c DA \<Rightarrow> byte list \<times> hash" where
  "stateHashOf env dataCollect currentParentHash da =
     (let dataCollect = dataCollect @ X_Marshal env (Commitment da);
          dataCollect = dataCollect @ Y_Marshal env (Commitment da);
          dataCollect = dataCollect @ Address_Bytes (Sender da);
          dataCollect = dataCollect @ Hash_Bytes currentParentHash
      in (dataCollect, BytesToHash dataCollect))"

fun batchRows :: "'c da_env \<Rightarrow> byte list \<Rightarrow> hash \<Rightarrow> 'c DA list \<Rightarrow> da_row list" where
  "batchRows env dataCollect currentParentHash [] = []"
| "batchRows env dataCollect currentParentHash (da # das) =
     (case stateHashOf env dataCollect currentParentHash da of (dataCollect, stateHash) \<Rightarrow>
        let commitData = Marshal env (Commitment da);
            wda = zeroRow\<lparr> f_sender := Address_Hex (Keccak256 env) (Sender da),
              f_nonce := Nonce da, f_tx_hash := Hash_Hex (TxHash da), f_index := Index da,
              f_length := Length da, f_block_num := BlockNum da, f_data := Bytes2Hex (Data da),
              f_proof := Bytes2Hex (Proof da), f_commitment := Bytes2Hex commitData,
              f_commitment_hash := Hash_Hex (BytesToHash commitData),
              f_sign_data := joinComma (map Bytes2Hex (SignData da)),
              f_sign_address := joinComma (SignerAddr da),
              f_parent_state_hash := Hash_Hex currentParentHash,
              f_state_hash := Hash_Hex stateHash,
              f_receive_at := FormatRFC3339 env (ReceiveAt da) \<rparr>
        in wda # batchRows env dataCollect stateHash das)"

definition SaveBatchCommitment :: "'c da_env \<Rightarrow> 's gorm \<Rightarrow> 's \<Rightarrow> 'c DA list \<Rightarrow> hash \<Rightarrow> (string, 's) outcome" where
  "SaveBatchCommitment env g s das parentHash =
     (case gCreate g s (batchRows env [] parentHash das) of Inl e \<Rightarrow> Err e | Inr s' \<Rightarrow> Ok s')"

fun addBatchLoop :: "'c da_env \<Rightarrow> 's gorm \<Rightarrow> ('s \<Rightarrow> 's) \<Rightarrow> 's \<Rightarrow> byte list \<Rightarrow> hash \<Rightarrow> 'c DA list
    \<Rightarrow> (string \<times> 's, 's) outcome" where
  "addBatchLoop env g rollback s dataCollect currentParentHash [] = Ok s"
| "addBatchLoop env g rollback s dataCollect currentParentHash (da # das) =
     (case stateHashOf env dataCollect currentParentHash da of (dataCollect, stateHash) \<Rightarrow>
        let commitData = Marshal env (Commitment da) in
        case NameSpaceID da of
          None \<Rightarrow> Panic
        | Some ns \<Rightarrow>
            let wda = zeroRow\<lparr> f_sender := Address_Hex (Keccak256 env) (Sender da),
                  f_nonce := Nonce da, f_tx_hash := Hash_Hex (TxHash da), f_index := Index da,
                  f_length := Length da, f_data := Bytes2Hex (Data da),
                  f_commitment := Bytes2Hex commitData,
                  f_commitment_hash := Hash_Hex (BytesToHash commitData),
                  f_sign_data := joinComma (map Bytes2Hex (SignData da)),
                  f_sign_address := joinComma (SignerAddr da), f_block_num := BlockNum da,
                  f_parent_state_hash := Hash_Hex currentParentHash,
                  f_state_hash := Hash_Hex stateHash,
                  f_receive_at := FormatRFC3339 env (ReceiveAt da),
                  f_name_space_id := word_of_int ns \<rparr> in
            (case gCreate g s [wda] of
               Inl e \<Rightarrow> Err (e, rollback s)
             | Inr s' \<Rightarrow> addBatchLoop env g rollback s' dataCollect stateHash das))"

definition AddBatchCommitment :: "'c da_env \<Rightarrow> 's gorm \<Rightarrow> ('s \<Rightarrow> 's) \<Rightarrow> 's \<Rightarrow> 'c DA list \<Rightarrow> hash
    \<Rightarrow> (string \<times> 's, 's) outcome" where
  "AddBatchCommitment env g rollback s das parentHash = addBatchLoop env g rollback s [] parentHash das"

subsection \<open>Reading records\<close>

definition daFromRow :: "'c da_env \<Rightarrow> 'c \<Rightarrow> da_row \<Rightarrow> (db_err, 'c DA) outcome" where
  "daFromRow env digest row =
     (case hex_decode (f_commitment row) of
        (str, Some e) \<Rightarrow> Err (HexErr e)
      | (str, None) \<Rightarrow>
     (case SetBytes env digest str of
        (digest, Some e) \<Rightarrow> Err (DigestErr e)
      | (digest, None) \<Rightarrow>
     (case ParseRFC3339 env (f_receive_at row) of
        None \<Rightarrow> Err TimeErr
      | Some parsedTime \<Rightarrow>
          bind_outcome (fillSlots (length (f_sign_data row)) []
              (map Hex2Bytes (splitComma (f_sign_data row)))) (\<lambda>signData.
          bind_outcome (fillSlots (length (f_sign_address row)) []
              (splitComma (f_sign_address row))) (\<lambda>signAdd.
          Ok ((zeroDA env)\<lparr> Sender := HexToAddress (f_sender row), Nonce := f_nonce row,
                Index := f_index row, Length := f_length row, Commitment := digest,
                Data := Hex2Bytes (f_data row), Proof := Hex2Bytes (f_proof row),
                SignData := signData, SignerAddr := signAdd, TxHash := HexToHash (f_tx_hash row),
                BlockNum := f_block_num row, ReceiveAt := parsedTime,
                NameSpaceID := Some (sint (f_name_space_id row)) \<rparr>))))))"

definition findRow :: "'s gorm \<Rightarrow> 's \<Rightarrow> string \<Rightarrow> string \<Rightarrow> (db_err, da_row) outcome" where
  "findRow g s column v =
     (case gCount g s of
        Inl e \<Rightarrow> Err (GormErr e)
      | Inr count \<Rightarrow>
          if count = 0 then Err TableEmpty
          else (case gFindOne g s column v of
                  Inl e \<Rightarrow> Err (GormErr e)
                | Inr None \<Rightarrow> Ok zeroRow
                | Inr (Some row) \<Rightarrow> Ok row))"

definition GetDAByCommitment :: "'c da_env \<Rightarrow> 's gorm \<Rightarrow> 's \<Rightarrow> byte list \<Rightarrow> (db_err, 'c DA) outcome" where
  "GetDAByCommitment env g s commitment =
     (let digest = fst (SetBytes env (zeroDigest env) commitment) in
      bind_outcome (findRow g s ''commitment'' (Bytes2Hex (Marshal env digest))) (daFromRow env digest))"

definition GetDAByCommitmentHash :: "'c da_env \<Rightarrow> 's gorm \<Rightarrow> 's \<Rightarrow> hash \<Rightarrow> (db_err, 'c DA) outcome" where
  "GetDAByCommitmentHash env g s cmHash =
     bind_outcome (findRow g s ''commitment_hash'' (Hash_Hex cmHash)) (daFromRow env (zeroDigest env))"

definition GetCommitmentByTxHash :: "'c da_env \<Rightarrow> 's gorm \<Rightarrow> 's \<Rightarrow> hash \<Rightarrow> (db_err, 'c DA) outcome" where
  "GetCommitmentByTxHash env g s txHash =
     bind_outcome (findRow g s ''f_tx_hash'' (Hash_Hex txHash)) (daFromRow env (zeroDigest env))"

definition GetMaxIDDAStateHash :: "'s gorm \<Rightarrow> 's \<Rightarrow> string + string" where
  "GetMaxIDDAStateHash g s =
     (case gLastNonce g s of Inl e \<Rightarrow> Inl e
      | Inr None \<Rightarrow> Inr (f_state_hash zeroRow) | Inr (Some row) \<Rightarrow> Inr (f_state_hash row))"

definition GetMaxIDDANonce :: "'s gorm \<Rightarrow> 's \<Rightarrow> string + u64" where
  "GetMaxIDDANonce g s =
     (case gLastNonce g s of Inl e \<Rightarrow> Inl e
      | Inr None \<Rightarrow> Inr (f_nonce zeroRow) | Inr (Some row) \<Rightarrow> Inr (f_nonce row))"

definition DeleteDAByHash :: "'s gorm \<Rightarrow> ('s \<Rightarrow> bool) \<Rightarrow> ('s \<Rightarrow> 's) \<Rightarrow> 's \<Rightarrow> hash \<Rightarrow> 's \<times> string option" where
  "DeleteDAByHash g whereFails rollback s h =
     (let column = (if whereFails s then ''f_commitment'' else ''f_tx_hash'') in
      case gDelete g s column (Hash_Bytes h) of
        Inl e \<Rightarrow> (rollback s, Some e)
      | Inr s' \<Rightarrow> (s', None))"

definition GetAllDARecords :: "'c da_env \<Rightarrow> 's gorm \<Rightarrow> 's \<Rightarrow> string + 'c DA list" where
  "GetAllDARecords env g s =
     (case gSelect g s [''f_tx_hash'', ''f_commitment''] of
        Inl e \<Rightarrow> Inl e
      | Inr daRecords \<Rightarrow> Inr (map (\<lambda>da.
          let str = fst (hex_decode (f_commitment da));
              digest = fst (SetBytes env (zeroDigest env) str);
              parsedTime = (case ParseRFC3339 env (f_receive_at da) of None \<Rightarrow> zeroTime | Some t \<Rightarrow> t)
          in (zeroDA env)\<lparr> TxHash := HexToHash (f_tx_hash da), Commitment := digest,
               ReceiveAt := parsedTime \<rparr>) daRecords))"

subsection \<open>Name spaces\<close>

record ns_row =
  n_id :: u64
  n_name_space_id :: u64
  n_creater :: string
  n_storage_list :: string

definition AddNameSpace :: "(string \<Rightarrow> byte list) \<Rightarrow> ('s \<Rightarrow> ns_row \<Rightarrow> string + 's) \<Rightarrow> ('s \<Rightarrow> 's) \<Rightarrow> 's
    \<Rightarrow> NameSpace \<Rightarrow> int option \<Rightarrow> (string \<times> 's, 's) outcome" where
  "AddNameSpace keccak create rollback s ns nsId =
     (let strList = joinComma (map (Address_Hex keccak) (ns_StorageList ns)) in
      case nsId of
        None \<Rightarrow> Panic
      | Some i \<Rightarrow>
          let nsW = \<lparr> n_id = 0, n_name_space_id = word_of_int i,
                n_creater = Address_Hex keccak (ns_Creater ns), n_storage_list = strList \<rparr> in
          (case create s nsW of Inl e \<Rightarrow> Err (e, rollback s) | Inr s' \<Rightarrow> Ok s'))"

definition GetNameSpace :: "('s \<Rightarrow> u64 \<Rightarrow> string + ns_row) \<Rightarrow> 's \<Rightarrow> int option
    \<Rightarrow> (string, NameSpace option) outcome" where
  "GetNameSpace first s nsId =
     (case nsId of
        None \<Rightarrow> Panic
      | Some i \<Rightarrow>
     (case first s (word_of_int i) of
        Inl e \<Rightarrow> Ok None
      | Inr ns \<Rightarrow>
          bind_outcome (fillSlots (length (n_storage_list ns)) 0
             (map HexToAddress (splitComma (n_storage_list ns)))) (\<lambda>addrList.
          Ok (Some \<lparr> ns_ID = n_id ns, ns_Creater = HexToAddress (n_creater ns),
                ns_StorageList = addrList \<rparr>))))"

subsection \<open>A concrete database and environment\<close>

text \<open>
  An in-memory table that meets the documented behaviour of the SQL layer, and a small
  environment; they show that the hypotheses of the theorems below can hold together.
\<close>

definition textColumn :: "string \<Rightarrow> da_row \<Rightarrow> string" where
  "textColumn col r =
     (if col = ''f_tx_hash'' then f_tx_hash r
      else if col = ''f_commitment'' then f_commitment r
      else if col = ''f_commitment_hash'' then f_commitment_hash r
      else [])"

definition listGorm :: "da_row list gorm" where
  "listGorm = \<lparr> gCount = (\<lambda>s. Inr (length s)),
     gFindOne = (\<lambda>s col v. if col \<in> set da_columns then Inr (find (\<lambda>r. textColumn col r = v) s)
                         else Inl ''no such column''),
     gCreate = (\<lambda>s rows. Inr (rows @ s)),
     gLastNonce = (\<lambda>s. Inr None),
     gSelect = (\<lambda>s cols. Inr (map (\<lambda>r. zeroRow\<lparr> f_tx_hash := f_tx_hash r, f_commitment := f_commitment r \<rparr>) s)),
     gDelete = (\<lambda>s col v. Inr s) \<rparr>"

definition smallEnv :: "byte list da_env" where
  "smallEnv = \<lparr> Marshal = id, X_Marshal = id, Y_Marshal = id, X_IsZero = (\<lambda>c. c = []),
     Y_IsZero = (\<lambda>c. c = []), SetBytes = (\<lambda>d b. (b, if b = [] then Some ''short buffer'' else None)),
     zeroDigest = [], Keccak256 = (\<lambda>_. replicate 32 0), FormatRFC3339 = (\<lambda>t. ''1970-01-01T00:00:00Z''),
     ParseRFC3339 = (\<lambda>x. if x = ''1970-01-01T00:00:00Z'' then Some 0 else None) \<rparr>"

definition smallDA :: "byte list DA" where
  "smallDA = (zeroDA smallEnv)\<lparr> Sender := 5, Nonce := 1, Length := 2, Data := [7, 8], Commitment := [1, 2, 3],
     SignData := [[9, 10], [11]], SignerAddr := [''a''], TxHash := 77, ReceiveAt := 500000000, NameSpaceID := Some 3 \<rparr>"

subsection \<open>Joining and splitting\<close>

lemma splitComma_nonempty [simp]: "splitComma s \<noteq> []"
  by (induction s) (auto split: list.splits)

lemma splitComma_plain: "CHR '','' \<notin> set s \<Longrightarrow> splitComma s = [s]"
  by (induction s) auto

lemma splitComma_append:
  "CHR '','' \<notin> set s \<Longrightarrow> splitComma (s @ CHR '','' # t) = s # splitComma t"
  by (induction s) auto

lemma splitComma_joinComma:
  "xs \<noteq> [] \<Longrightarrow> (\<And>x. x \<in> set xs \<Longrightarrow> CHR '','' \<notin> set x) \<Longrightarrow> splitComma (joinComma xs) = xs"
  by (induction xs rule: joinComma.induct) (auto simp: splitComma_plain splitComma_append)

lemma length_joinComma:
  "xs \<noteq> [] \<Longrightarrow> Suc (length (joinComma xs)) = length (concat xs) + length xs"
  by (induction xs rule: joinComma.induct) auto

lemma length_joinComma_ge: "length xs \<le> length (joinComma xs) \<longleftrightarrow> xs = [] \<or> concat xs \<noteq> []"
proof (cases "xs = []")
  case False
  then have "Suc (length (joinComma xs)) = length (concat xs) + length xs"
    by (rule length_joinComma)
  moreover have "concat xs \<noteq> [] \<longleftrightarrow> 0 < length (concat xs)" by blast
  ultimately show ?thesis using False by linarith
qed simp

lemma hex_no_comma: "CHR '','' \<notin> set (hex_encode bs)"
proof
  assume "CHR '','' \<in> set (hex_encode bs)"
  then obtain n where n: "n < 16" "CHR '','' = hexdig n" by (rule hex_encode_digit)
  then have "fromHexChar CHR '','' = Some (word_of_nat n)" by simp
  then show False by (simp add: fromHexChar_def)
qed

lemma concat_map_hex: "concat (map Bytes2Hex xs) = [] \<longleftrightarrow> concat xs = []"
proof -
  have "hex_encode x = [] \<longleftrightarrow> x = []" for x
    using length_hex_encode [of x] by (metis length_0_conv mult_is_0 zero_neq_numeral)
  then show ?thesis by (simp add: Bytes2Hex_def)
qed

text \<open>What the fill loop leaves of a column written by \<open>joinComma\<close>.\<close>

lemma fill_joined:
  assumes "\<And>x. x \<in> set xs \<Longrightarrow> CHR '','' \<notin> set x"
  shows "fillSlots (length (joinComma xs)) z (map f (splitComma (joinComma xs))) =
    (if concat xs = [] then Panic
     else Ok (map f xs @ replicate (length (joinComma xs) - length xs) z))"
proof (cases "xs = []")
  case True
  then show ?thesis by (simp add: fillSlots_def)
next
  case False
  with assms have "splitComma (joinComma xs) = xs" by (intro splitComma_joinComma)
  with False show ?thesis by (simp add: fillSlots_def length_joinComma_ge)
qed

lemma fill_joined_hex:
  "fillSlots (length (joinComma (map Bytes2Hex xs))) [] (map Hex2Bytes (splitComma (joinComma (map Bytes2Hex xs)))) =
    (if concat xs = [] then Panic
     else Ok (xs @ replicate (length (joinComma (map Bytes2Hex xs)) - length xs) []))"
proof -
  have plain: "\<And>x. x \<in> set (map Bytes2Hex xs) \<Longrightarrow> CHR '','' \<notin> set x"
    by (auto simp: Bytes2Hex_def hex_no_comma)
  have hexed: "map Hex2Bytes (map Bytes2Hex xs) = xs"
    by (simp add: map_idI)
  show ?thesis
    using fill_joined [of "map Bytes2Hex xs" "[]" Hex2Bytes, OF plain] unfolding hexed concat_map_hex length_map .
qed

subsection \<open>The state-hash column\<close>

lemma stateHashOf_parent [simp]: "snd (stateHashOf env dc ph da) = ph"
  using BytesToHash_suffix [of "Hash_Bytes ph"] by (simp add: stateHashOf_def Let_def)

text \<open>
  C16: the state hash written for every record of a batch is the hash the batch started
  from: each value hashed is the collected data cropped to its last 32 bytes, which are
  the previous hash.  The chain of state hashes therefore does not depend on the records.
\<close>

theorem batch_state_hash_constant:
  "map f_state_hash (batchRows env dataCollect parentHash das) = replicate (length das) (Hash_Hex parentHash)
   \<and> map f_parent_state_hash (batchRows env dataCollect parentHash das) = replicate (length das) (Hash_Hex parentHash)"
proof (induction das arbitrary: dataCollect)
  case (Cons da das)
  obtain dc where "stateHashOf env dataCollect parentHash da = (dc, parentHash)"
    using stateHashOf_parent [of env dataCollect parentHash da] by (cases "stateHashOf env dataCollect parentHash da") simp
  with Cons show ?case by (simp add: Let_def)
qed simp

subsection \<open>Queries by commitment\<close>

lemma commitment_columns_absent:
  "''commitment'' \<notin> set da_columns" "''commitment_hash'' \<notin> set da_columns"
  by (simp_all add: da_columns_def)

text \<open>
  C17: the two lookups by commitment name columns that the table does not have, so on a
  database that refuses unknown columns both always return an error, whatever the table
  holds.
\<close>

theorem commitment_lookup_fails:
  assumes unknown: "\<And>col v. col \<notin> set da_columns \<Longrightarrow> \<exists>e. gFindOne g s col v = Inl e"
  shows "(\<exists>e. GetDAByCommitment env g s commitment = Err e) \<and>
         (\<exists>e. GetDAByCommitmentHash env g s cmHash = Err e)"
proof -
  have "\<exists>e. findRow g s col v = Err e" if "col \<notin> set da_columns" for col v
    using unknown [OF that, of v]
    by (cases "gCount g s") (auto simp: findRow_def)
  from this [OF commitment_columns_absent(1)] this [OF commitment_columns_absent(2)]
  show ?thesis
    by (metis GetDAByCommitment_def GetDAByCommitmentHash_def bind_outcome.simps(2))
qed

theorem commitment_lookup_fails_witness:
  "(\<exists>e. GetDAByCommitment smallEnv listGorm [zeroRow] [1] = Err e) \<and>
   (\<exists>e. GetDAByCommitmentHash smallEnv listGorm [zeroRow] 5 = Err e)"
proof -
  have h: "\<And>col v. col \<notin> set da_columns \<Longrightarrow> \<exists>e. gFindOne listGorm [zeroRow] col v = Inl e"
    by (simp add: listGorm_def)
  show ?thesis by (rule commitment_lookup_fails [OF h])
qed

subsection \<open>Saving and loading a record\<close>

text \<open>The text format of RFC 3339 has no fractions of a second.\<close>

definition truncSecond :: "int \<Rightarrow> int" where
  "truncSecond t = t - t mod 1000000000"

lemma findRow_found:
  "gCount g s = Inr n \<Longrightarrow> 0 < n \<Longrightarrow> gFindOne g s col v = Inr (Some row) \<Longrightarrow> findRow g s col v = Ok row"
  by (simp add: findRow_def)



subsection \<open>Name spaces\<close>

text \<open>
  C18: reading back a name space that was added without storage nodes panics: the empty
  text column splits into one empty part, for which the slice, sized by the length of the
  text, has no room.  A name space with storage nodes carries them followed by zero
  addresses, one for every remaining byte of the text column (42 n - 1 of them for n
  nodes).
\<close>

theorem namespace_storage_padded:
  assumes added: "AddNameSpace keccak create rollback s ns (Some i) = Ok s'"
    and stored: "\<And>row. create s row = Inr s' \<Longrightarrow> \<exists>k. first s' (n_name_space_id row) = Inr (row\<lparr> n_id := k \<rparr>)"
  shows "if ns_StorageList ns = [] then GetNameSpace first s' (Some i) = Panic
    else \<exists>k. GetNameSpace first s' (Some i) = Ok (Some \<lparr> ns_ID = k, ns_Creater = ns_Creater ns,
      ns_StorageList = ns_StorageList ns @ replicate (42 * length (ns_StorageList ns) - 1) 0 \<rparr>)"
proof -
  let ?xs = "map (Address_Hex keccak) (ns_StorageList ns)"
  let ?row = "\<lparr> n_id = 0, n_name_space_id = word_of_int i,
      n_creater = Address_Hex keccak (ns_Creater ns), n_storage_list = joinComma ?xs \<rparr>"
  from added have "create s ?row = Inr s'"
    by (simp add: AddNameSpace_def Let_def split: sum.splits)
  from stored [OF this] obtain k where k: "first s' (word_of_int i) = Inr (?row\<lparr> n_id := k \<rparr>)"
    by auto
  have plain: "\<And>x. x \<in> set ?xs \<Longrightarrow> CHR '','' \<notin> set x"
    using Address_Hex_no_comma by auto
  have total: "length (concat ?xs) = 42 * length (ns_StorageList ns)"
    by (simp add: length_concat comp_def sum_list_triv)
  have len: "length (joinComma ?xs) - length ?xs = 42 * length (ns_StorageList ns) - 1" if "ns_StorageList ns \<noteq> []"
    using total length_joinComma [of ?xs] that by simp
  have fill: "(fillSlots (length (joinComma ?xs)) 0 (map HexToAddress (splitComma (joinComma ?xs)))
       :: (string, address list) outcome) =
      (if concat ?xs = [] then Panic
       else Ok (map HexToAddress ?xs @ replicate (length (joinComma ?xs) - length ?xs) 0))"
    by (rule fill_joined) (rule plain)
  have none: "concat ?xs = [] \<longleftrightarrow> ns_StorageList ns = []"
    using total by (metis length_0_conv mult_is_0 zero_neq_numeral)
  have addrs: "map HexToAddress ?xs = ns_StorageList ns" by (simp add: map_idI)
  have "(fillSlots (length (joinComma ?xs)) 0 (map HexToAddress (splitComma (joinComma ?xs)))
       :: (string, address list) outcome) =
      (if ns_StorageList ns = [] then Panic
       else Ok (ns_StorageList ns @ replicate (42 * length (ns_StorageList ns) - 1) 0))"
    unfolding fill none addrs using len by presburger
  with k show ?thesis
    by (cases "ns_StorageList ns = []") (simp_all add: GetNameSpace_def fillSlots_def)
qed

theorem namespace_storage_padded_witness:
  "\<exists>k. GetNameSpace (\<lambda>s _. Inr (s\<lparr> n_id := 4 \<rparr>)) \<lparr> n_id = 0, n_name_space_id = 9,
       n_creater = Address_Hex (\<lambda>_. []) 1, n_storage_list = Address_Hex (\<lambda>_. []) 2 \<rparr> (Some 9) =
     Ok (Some \<lparr> ns_ID = k, ns_Creater = 1, ns_StorageList = [2] @ replicate 41 0 \<rparr>)"
proof -
  let ?ns = "\<lparr> ns_ID = 0, ns_Creater = 1, ns_StorageList = [2] \<rparr>"
  have added: "AddNameSpace (\<lambda>_. []) (\<lambda>s row. Inr row) id zns ?ns (Some 9) = Ok \<lparr> n_id = 0, n_name_space_id = 9,
      n_creater = Address_Hex (\<lambda>_. []) 1, n_storage_list = Address_Hex (\<lambda>_. []) 2 \<rparr>" for zns
    by (simp add: AddNameSpace_def Let_def)
  show ?thesis
    using namespace_storage_padded [of _ _ _ _ ?ns, OF added, of "\<lambda>s _. Inr (s\<lparr> n_id := 4 \<rparr>)"]
    by fastforce
qed

end
