(* ===== verification/Rlp_Codec.thy ===== *)
theory Rlp_Codec
  imports Prelude
begin

text \<open>
  The RLP codec below reflection: the integer and header writers of \<open>rlp/encode.go\<close>, the
  encoder buffer of \<open>rlp/encbuffer.go\<close> with its deferred list headers and its reader.
  \<open>renders\<close> relates the buffer to the bytes it stands for; the writers are shown to render the
  reference encodings \<open>encStr\<close> of strings and integers.
\<close>

datatype Kind = Byte | String | List

text \<open>
  Errors.  A \<open>decodeError\<close> is represented by its message; the type and the path it prints are
  diagnostics.  \<open>ErrIllTyped\<close> is not an error of the code: it marks applications that Go's type
  system excludes.
\<close>

datatype tag_err = TagNotPointer | TagAlsoTail | TagNotLast | TagAlsoOptional | TagNotSlice | TagUnknown
  | TagMustBeOptional

datatype decode_msg = MsgCanonInt | MsgCanonSize | MsgExpectedList | MsgExpectedString | MsgTooLong | MsgTooShort
  | MsgTooManyElements | MsgTooFewElements | MsgWrongEmptyKind Kind Kind

datatype rlp_err = ErrExpectedString | ErrExpectedList | ErrCanonInt | ErrCanonSize | ErrElemTooLarge
  | ErrValueTooLarge | ErrMoreThanOneValue | ErrNotInList | ErrNotAtEOL | ErrUintOverflow
  | ErrUnexpectedEOF | ErrEOF | EOL | ErrInvalidBool u64 | ErrWrongSize u64 nat | ErrNegativeBigInt
  | ErrNotSerializable | ErrTag tag_err | DecodeError decode_msg | ErrIllTyped

subsection \<open>Integers and headers\<close>

text \<open>\<open>byte(i >> k)\<close>.\<close>

definition byteAt :: "u64 \<Rightarrow> nat \<Rightarrow> byte" where
  "byteAt i k = ucast (drop_bit k i)"

definition putint :: "u64 \<Rightarrow> byte list" where
  "putint i =
     (if i < 2 ^ 8 then [byteAt i 0]
      else if i < 2 ^ 16 then [byteAt i 8, byteAt i 0]
      else if i < 2 ^ 24 then [byteAt i 16, byteAt i 8, byteAt i 0]
      else if i < 2 ^ 32 then [byteAt i 24, byteAt i 16, byteAt i 8, byteAt i 0]
      else if i < 2 ^ 40 then [byteAt i 32, byteAt i 24, byteAt i 16, byteAt i 8, byteAt i 0]
      else if i < 2 ^ 48 then [byteAt i 40, byteAt i 32, byteAt i 24, byteAt i 16, byteAt i 8, byteAt i 0]
      else if i < 2 ^ 56 then [byteAt i 48, byteAt i 40, byteAt i 32, byteAt i 24, byteAt i 16, byteAt i 8, byteAt i 0]
      else [byteAt i 56, byteAt i 48, byteAt i 40, byteAt i 32, byteAt i 24, byteAt i 16, byteAt i 8, byteAt i 0])"

function intsize :: "u64 \<Rightarrow> nat" where
  "intsize i = (if drop_bit 8 i = 0 then 1 else 1 + intsize (drop_bit 8 i))"
  by pat_completeness auto

termination intsize
proof (relation "measure unat")
  fix i :: u64
  assume "drop_bit 8 i \<noteq> 0"
  then have "0 < unat i" by (cases "i = 0") (simp_all add: unat_gt_0)
  moreover have "unat (drop_bit 8 i) = unat i div 256"
    by (simp add: drop_bit_eq_div unat_div)
  ultimately show "(drop_bit 8 i, i) \<in> measure unat" by simp
qed simp

declare intsize.simps [simp del]

text \<open>The same on natural numbers, a reference for the sizes.\<close>

fun blen :: "nat \<Rightarrow> nat" where
  "blen n = (if n < 256 then 1 else 1 + blen (n div 256))"

declare blen.simps [simp del]

definition headsize :: "u64 \<Rightarrow> nat" where
  "headsize sz = (if sz < 56 then 1 else 1 + intsize sz)"

definition puthead :: "byte \<Rightarrow> byte \<Rightarrow> u64 \<Rightarrow> byte list" where
  "puthead smalltag largetag sz =
     (if sz < 56 then [smalltag + ucast sz]
      else let sizebytes = putint sz in (largetag + word_of_nat (length sizebytes)) # sizebytes)"

definition BytesSize :: "byte list \<Rightarrow> u64" where
  "BytesSize b =
     (if length b = 0 then 1
      else if length b = 1 then (if b ! 0 \<le> 0x7f then 1 else 2)
      else word_of_nat (headsize (word_of_nat (length b)) + length b))"

definition ListSize :: "u64 \<Rightarrow> u64" where
  "ListSize contentSize = word_of_nat (headsize contentSize) + contentSize"

definition IntSize :: "u64 \<Rightarrow> nat" where
  "IntSize x = (if x < 0x80 then 1 else 1 + intsize x)"

definition AppendUint64 :: "byte list \<Rightarrow> u64 \<Rightarrow> byte list" where
  "AppendUint64 b i =
     (if i = 0 then b @ [0x80]
      else if i < 128 then b @ [ucast i]
      else if i < 2 ^ 8 then b @ [0x81, byteAt i 0]
      else if i < 2 ^ 16 then b @ [0x82, byteAt i 8, byteAt i 0]
      else if i < 2 ^ 24 then b @ [0x83, byteAt i 16, byteAt i 8, byteAt i 0]
      else if i < 2 ^ 32 then b @ [0x84, byteAt i 24, byteAt i 16, byteAt i 8, byteAt i 0]
      else if i < 2 ^ 40 then b @ [0x85, byteAt i 32, byteAt i 24, byteAt i 16, byteAt i 8, byteAt i 0]
      else if i < 2 ^ 48 then b @ [0x86, byteAt i 40, byteAt i 32, byteAt i 24, byteAt i 16, byteAt i 8, byteAt i 0]
      else if i < 2 ^ 56 then b @ [0x87, byteAt i 48, byteAt i 40, byteAt i 32, byteAt i 24, byteAt i 16, byteAt i 8, byteAt i 0]
      else b @ [0x88, byteAt i 56, byteAt i 48, byteAt i 40, byteAt i 32, byteAt i 24, byteAt i 16, byteAt i 8, byteAt i 0])"

subsection \<open>The encoder buffer\<close>

record listhead =
  offset :: nat
  lh_size :: int

record encBuffer =
  str :: "byte list"
  lheads :: "listhead list"
  lhsize :: int

definition enc_reset :: encBuffer where
  "enc_reset = \<lparr> str = [], lheads = [], lhsize = 0 \<rparr>"

definition buf_size :: "encBuffer \<Rightarrow> int" where
  "buf_size buf = int (length (str buf)) + lhsize buf"

definition head_encode :: "listhead \<Rightarrow> byte list" where
  "head_encode head = puthead 0xC0 0xF7 (word_of_int (lh_size head))"

text \<open>
  \<open>copy_at\<close> is Go's \<open>copy(dst[pos:], src)\<close>.  \<open>copyTo\<close> fills the preallocated output and
  panics (\<open>None\<close>) when a header does not fit or an offset lies behind the position;
  \<open>writeTo\<close> lists the writes to a writer that accepts them.
\<close>

definition copy_at :: "'a list \<Rightarrow> nat \<Rightarrow> 'a list \<Rightarrow> 'a list" where
  "copy_at dst pos src = take pos dst @ take (length dst - pos) src @ drop (pos + length src) dst"

primrec copyTo :: "nat \<Rightarrow> nat \<Rightarrow> byte list \<Rightarrow> byte list \<Rightarrow> listhead list \<Rightarrow> byte list option" where
  "copyTo pos strpos dst s [] = Some (copy_at dst pos (drop strpos s))"
| "copyTo pos strpos dst s (head # heads) =
     (if offset head < strpos then None
      else
        let piece = take (offset head - strpos) (drop strpos s);
            n = min (length dst - pos) (length piece);
            dst = copy_at dst pos piece;
            pos = pos + n;
            strpos = strpos + n;
            e = head_encode head
        in if length dst < pos + length e then None
           else copyTo (pos + length e) strpos (copy_at dst pos e) s heads)"

definition makeBytes :: "encBuffer \<Rightarrow> byte list option" where
  "makeBytes buf = copyTo 0 0 (replicate (nat (buf_size buf)) 0) (str buf) (lheads buf)"

primrec writeTo :: "nat \<Rightarrow> byte list \<Rightarrow> listhead list \<Rightarrow> byte list list" where
  "writeTo strpos s [] = (if strpos < length s then [drop strpos s] else [])"
| "writeTo strpos s (head # heads) =
     (if strpos < offset head
      then let piece = take (offset head - strpos) (drop strpos s) in
        piece # head_encode head # writeTo (strpos + length piece) s heads
      else head_encode head # writeTo strpos s heads)"

definition buf_append :: "byte list \<Rightarrow> encBuffer \<Rightarrow> encBuffer" where
  "buf_append b buf = buf\<lparr> str := str buf @ b \<rparr>"

definition writeBool :: "bool \<Rightarrow> encBuffer \<Rightarrow> encBuffer" where
  "writeBool b buf = (if b then buf_append [0x01] buf else buf_append [0x80] buf)"

definition writeUint64 :: "u64 \<Rightarrow> encBuffer \<Rightarrow> encBuffer" where
  "writeUint64 i buf =
     (if i = 0 then buf_append [0x80] buf
      else if i < 128 then buf_append [ucast i] buf
      else let s = putint i in buf_append ((0x80 + word_of_nat (length s)) # s) buf)"

definition encodeStringHeader :: "nat \<Rightarrow> encBuffer \<Rightarrow> encBuffer" where
  "encodeStringHeader sz buf =
     (if sz < 56 then buf_append [0x80 + word_of_nat sz] buf
      else let s = putint (word_of_nat sz) in buf_append ((0xB7 + word_of_nat (length s)) # s) buf)"

definition writeBytes :: "byte list \<Rightarrow> encBuffer \<Rightarrow> encBuffer" where
  "writeBytes b buf =
     (if length b = 1 \<and> b ! 0 \<le> 0x7F then buf_append [b ! 0] buf
      else buf_append b (encodeStringHeader (length b) buf))"

definition list_start :: "encBuffer \<Rightarrow> encBuffer \<times> nat" where
  "list_start buf =
     (let buf = buf\<lparr> lheads := lheads buf @ [\<lparr> offset = length (str buf), lh_size = lhsize buf \<rparr>] \<rparr>
      in (buf, length (lheads buf) - 1))"

definition listEnd :: "nat \<Rightarrow> encBuffer \<Rightarrow> encBuffer" where
  "listEnd index buf =
     (let lh = lheads buf ! index;
          lh = lh\<lparr> lh_size := buf_size buf - int (offset lh) - lh_size lh \<rparr>;
          buf = buf\<lparr> lheads := (lheads buf)[index := lh] \<rparr>
      in if lh_size lh < 56 then buf\<lparr> lhsize := lhsize buf + 1 \<rparr>
         else buf\<lparr> lhsize := lhsize buf + 1 + int (intsize (word_of_int (lh_size lh))) \<rparr>)"

text \<open>
  Big integers: \<open>big.Int\<close> is an integer, \<open>Bits\<close> its absolute value in little-endian words.
\<close>

fun bitLen :: "nat \<Rightarrow> nat" where
  "bitLen n = (if n = 0 then 0 else 1 + bitLen (n div 2))"

declare bitLen.simps [simp del]

fun bigBits :: "nat \<Rightarrow> u64 list" where
  "bigBits n = (if n = 0 then [] else word_of_nat n # bigBits (n div 2 ^ 64))"

declare bigBits.simps [simp del]

fun fillWord :: "nat \<Rightarrow> u64 \<Rightarrow> nat \<times> byte list \<Rightarrow> nat \<times> byte list" where
  "fillWord 0 d (index, b) = (index, b)"
| "fillWord (Suc j) d (index, b) =
     (if index > 0 then fillWord j (drop_bit 8 d) (index - 1, b[index - 1 := ucast d]) else (index, b))"

definition writeBigInt :: "int \<Rightarrow> encBuffer \<Rightarrow> encBuffer" where
  "writeBigInt i buf =
     (let bitlen = bitLen (nat \<bar>i\<bar>) in
      if bitlen \<le> 64 then writeUint64 (word_of_nat (nat \<bar>i\<bar>)) buf
      else
        let len = (bitlen + 7) div 8;
            buf = encodeStringHeader len buf
        in buf_append (snd (fold (fillWord 8) (bigBits (nat \<bar>i\<bar>)) (len, replicate len 0))) buf)"

text \<open>The reader over a finished buffer; \<open>None\<close> as the piece is Go's nil.\<close>

record encReader =
  er_lhpos :: nat
  er_strpos :: nat
  er_piece :: "byte list option"

definition er_next :: "encBuffer \<Rightarrow> encReader \<Rightarrow> byte list option \<times> encReader" where
  "er_next buf r =
     (case er_piece r of
        Some p \<Rightarrow> (Some p, r)
      | None \<Rightarrow>
          if er_lhpos r < length (lheads buf) then
            let head = lheads buf ! er_lhpos r in
            if er_strpos r < offset head
            then (Some (take (offset head - er_strpos r) (drop (er_strpos r) (str buf))),
                  r\<lparr> er_strpos := offset head \<rparr>)
            else (Some (head_encode head), r\<lparr> er_lhpos := er_lhpos r + 1 \<rparr>)
          else if er_strpos r < length (str buf)
          then (Some (drop (er_strpos r) (str buf)), r\<lparr> er_strpos := length (str buf) \<rparr>)
          else (None, r))"

text \<open>
  \<open>Read\<close> of \<open>n\<close> bytes: the bytes read, whether \<open>io.EOF\<close> was returned, and the reader.  At the
  end of the input the buffer goes back to the pool, after which every call returns EOF; the
  exhausted reader behaves the same.
\<close>

fun Read :: "nat \<Rightarrow> encBuffer \<Rightarrow> nat \<Rightarrow> encReader \<Rightarrow> (byte list \<times> bool \<times> encReader) option" where
  "Read 0 buf n r = None"
| "Read (Suc fuel) buf n r =
     (case er_next buf r of
        (None, r) \<Rightarrow> Some ([], True, r\<lparr> er_piece := None \<rparr>)
      | (Some p, r) \<Rightarrow>
          if n < length p then Some (take n p, False, r\<lparr> er_piece := Some (drop n p) \<rparr>)
          else
            (case Read fuel buf (n - length p) (r\<lparr> er_piece := None \<rparr>) of
               None \<Rightarrow> None
             | Some (out, eof, r) \<Rightarrow> Some (p @ out, eof, r)))"

text \<open>A client that reads pieces of the given sizes, one after the other.\<close>

fun reads :: "nat \<Rightarrow> encBuffer \<Rightarrow> nat list \<Rightarrow> encReader \<Rightarrow> (byte list \<times> bool) list option" where
  "reads fuel buf [] r = Some []"
| "reads fuel buf (n # ns) r =
     (case Read fuel buf n r of
        None \<Rightarrow> None
      | Some (out, eof, r) \<Rightarrow> map_option (\<lambda>outs. (out, eof) # outs) (reads fuel buf ns r))"

definition new_encReader :: encReader where
  "new_encReader = \<lparr> er_lhpos = 0, er_strpos = 0, er_piece = None \<rparr>"

text \<open>The reference encoding of a string, and the bytes of an integer.\<close>

definition int_bytes :: "nat \<Rightarrow> byte list" where
  "int_bytes n = (if n = 0 then [] else be_bytes (blen n) n)"

fun encStr :: "byte list \<Rightarrow> byte list" where
  "encStr b = (if length b = 1 \<and> b ! 0 < 0x80 then b else puthead 0x80 0xB7 (word_of_nat (length b)) @ b)"

subsection \<open>Minimal byte lengths\<close>

lemma blen_pos [simp]: "0 < blen n"
  by (subst blen.simps) simp

lemma blen_upper: "n < 256 ^ blen n"
proof (induction n rule: blen.induct)
  case (1 n)
  show ?case
  proof (cases "n < 256")
    case True
    then show ?thesis by (simp add: blen.simps [of n])
  next
    case False
    with 1 have "n div 256 < 256 ^ blen (n div 256)" by blast
    then have "n < 256 * 256 ^ blen (n div 256)" by (simp add: div_less_iff_less_mult mult.commute)
    with False show ?thesis by (simp add: blen.simps [of n])
  qed
qed

lemma blen_lower: "256 \<le> n \<Longrightarrow> 256 ^ (blen n - 1) \<le> n"
proof (induction n rule: blen.induct)
  case (1 n)
  show ?case
  proof (cases "n div 256 < 256")
    case True
    with 1(2) show ?thesis by (simp add: blen.simps [of n] blen.simps [of "n div 256"])
  next
    case False
    with 1 have ih: "256 ^ (blen (n div 256) - 1) \<le> n div 256" by simp
    obtain k where k: "blen (n div 256) = Suc k" using blen_pos [of "n div 256"] by (cases "blen (n div 256)") auto
    have "256 * 256 ^ k \<le> n" using ih k by (simp add: less_eq_div_iff_mult_less_eq mult.commute)
    with 1(2) k show ?thesis by (simp add: blen.simps [of n])
  qed
qed

lemma blen_unique:
  assumes "n < 256 ^ k" and "0 < k" and "k = 1 \<or> 256 ^ (k - 1) \<le> n"
  shows "blen n = k"
proof (rule antisym)
  show "blen n \<le> k"
  proof (rule ccontr)
    assume "\<not> blen n \<le> k"
    then have "k \<le> blen n - 1" "blen n \<noteq> 1" using assms(2) by auto
    then have "256 \<le> n" by (metis blen.simps not_less)
    with blen_lower [of n] have "256 ^ k \<le> n"
      using \<open>k \<le> blen n - 1\<close> by (meson le_trans one_le_numeral power_increasing)
    with assms(1) show False by simp
  qed
  show "k \<le> blen n"
  proof (rule ccontr)
    assume a: "\<not> k \<le> blen n"
    then have "k \<noteq> 1" using blen_pos [of n] by linarith
    with assms have "256 ^ (k - 1) \<le> n" by simp
    moreover have "n < 256 ^ (k - 1)"
    proof -
      have "blen n \<le> k - 1" using a by simp
      then have "256 ^ blen n \<le> (256 :: nat) ^ (k - 1)" by (simp add: power_increasing)
      then show ?thesis by (rule less_le_trans [OF blen_upper])
    qed
    ultimately show False by simp
  qed
qed

lemma intsize_blen: "intsize i = blen (unat i)"
proof (induction i rule: intsize.induct)
  case (1 i)
  have d: "unat (drop_bit 8 i) = unat i div 256" by (simp add: drop_bit_eq_div unat_div)
  have z: "drop_bit 8 i = 0 \<longleftrightarrow> unat i < 256"
    using d unat_eq_0 [of "drop_bit 8 i"] by (simp add: div_eq_0_iff)
  show ?case
  proof (cases "drop_bit 8 i = 0")
    case True
    with z show ?thesis by (simp add: intsize.simps [of i] blen.simps [of "unat i"])
  next
    case False
    with 1 d z show ?thesis by (simp add: intsize.simps [of i] blen.simps [of "unat i"])
  qed
qed

lemma byteAt_be: "byteAt i k = word_of_nat (unat i div 2 ^ k)"
proof -
  have "word_of_nat (unat (drop_bit k i)) = byteAt i k" by (simp add: byteAt_def)
  moreover have "unat (drop_bit k i) = unat i div 2 ^ k"
    by (rule trans [OF unat_drop_bit_eq drop_bit_eq_div])
  ultimately show ?thesis by simp
qed

lemma word_of_nat_mod_256 [simp]: "(word_of_nat (n mod 256) :: byte) = word_of_nat n"
  by (simp add: word_unat_eq_iff unat_of_nat)

lemma putint_be: "putint i = be_bytes (blen (unat i)) (unat i)"
proof -
  let ?n = "unat i"
  have n64: "?n < 2 ^ 64" using unsigned_less [of i] by simp
  have be: "be_bytes (Suc 0) ?n = [byteAt i 0]" "be_bytes (Suc (Suc 0)) ?n = [byteAt i 8, byteAt i 0]"
    "be_bytes (Suc (Suc (Suc 0))) ?n = [byteAt i 16, byteAt i 8, byteAt i 0]"
    "be_bytes (Suc (Suc (Suc (Suc 0)))) ?n = [byteAt i 24, byteAt i 16, byteAt i 8, byteAt i 0]"
    "be_bytes (Suc (Suc (Suc (Suc (Suc 0))))) ?n = [byteAt i 32, byteAt i 24, byteAt i 16, byteAt i 8, byteAt i 0]"
    "be_bytes (Suc (Suc (Suc (Suc (Suc (Suc 0)))))) ?n = [byteAt i 40, byteAt i 32, byteAt i 24, byteAt i 16, byteAt i 8, byteAt i 0]"
    "be_bytes (Suc (Suc (Suc (Suc (Suc (Suc (Suc 0))))))) ?n = [byteAt i 48, byteAt i 40, byteAt i 32, byteAt i 24, byteAt i 16, byteAt i 8, byteAt i 0]"
    "be_bytes (Suc (Suc (Suc (Suc (Suc (Suc (Suc (Suc 0)))))))) ?n = [byteAt i 56, byteAt i 48, byteAt i 40, byteAt i 32, byteAt i 24, byteAt i 16, byteAt i 8, byteAt i 0]"
    by (simp_all add: byteAt_be div_mult2_eq [symmetric])
  consider "?n < 2 ^ 8" | "2 ^ 8 \<le> ?n" "?n < 2 ^ 16" | "2 ^ 16 \<le> ?n" "?n < 2 ^ 24" | "2 ^ 24 \<le> ?n" "?n < 2 ^ 32"
    | "2 ^ 32 \<le> ?n" "?n < 2 ^ 40" | "2 ^ 40 \<le> ?n" "?n < 2 ^ 48" | "2 ^ 48 \<le> ?n" "?n < 2 ^ 56" | "2 ^ 56 \<le> ?n"
    by linarith
  then show ?thesis
  proof cases
    case 1
    then have "blen ?n = Suc 0" by (intro blen_unique) simp_all
    with 1 be(1) show ?thesis by (simp add: putint_def word_less_nat_alt del: be_bytes.simps)
  next
    case 2
    then have "blen ?n = Suc (Suc 0)" by (intro blen_unique) simp_all
    with 2 be(2) show ?thesis by (simp add: putint_def word_less_nat_alt del: be_bytes.simps)
  next
    case 3
    then have "blen ?n = Suc (Suc (Suc 0))" by (intro blen_unique) simp_all
    with 3 be(3) show ?thesis by (simp add: putint_def word_less_nat_alt del: be_bytes.simps)
  next
    case 4
    then have "blen ?n = Suc (Suc (Suc (Suc 0)))" by (intro blen_unique) simp_all
    with 4 be(4) show ?thesis by (simp add: putint_def word_less_nat_alt del: be_bytes.simps)
  next
    case 5
    then have "blen ?n = Suc (Suc (Suc (Suc (Suc 0))))" by (intro blen_unique) simp_all
    with 5 be(5) show ?thesis by (simp add: putint_def word_less_nat_alt del: be_bytes.simps)
  next
    case 6
    then have "blen ?n = Suc (Suc (Suc (Suc (Suc (Suc 0)))))" by (intro blen_unique) simp_all
    with 6 be(6) show ?thesis by (simp add: putint_def word_less_nat_alt del: be_bytes.simps)
  next
    case 7
    then have "blen ?n = Suc (Suc (Suc (Suc (Suc (Suc (Suc 0))))))" by (intro blen_unique) simp_all
    with 7 be(7) show ?thesis by (simp add: putint_def word_less_nat_alt del: be_bytes.simps)
  next
    case 8
    with n64 have "blen ?n = Suc (Suc (Suc (Suc (Suc (Suc (Suc (Suc 0)))))))" by (intro blen_unique) simp_all
    with 8 be(8) show ?thesis by (simp add: putint_def word_less_nat_alt del: be_bytes.simps)
  qed
qed

subsection \<open>Headers\<close>

lemma blen_le_8: "n < 2 ^ 64 \<Longrightarrow> blen n \<le> 8"
proof (rule ccontr)
  assume n: "n < 2 ^ 64" and "\<not> blen n \<le> 8"
  then have b: "8 \<le> blen n - 1" "blen n \<noteq> 1" by auto
  then have "256 \<le> n" by (metis blen.simps not_less)
  from blen_lower [OF this] have "256 ^ 8 \<le> n"
    using b(1) by (meson le_trans one_le_numeral power_increasing)
  with n show False by simp
qed

lemma length_putint: "length (putint i) = blen (unat i)"
  by (simp add: putint_be)

lemma length_putint_bounds: "0 < length (putint i)" "length (putint i) \<le> 8"
  using blen_le_8 [of "unat i"] unsigned_less [of i] by (simp_all add: length_putint)

lemma be_nat_putint: "be_nat (putint i) = unat i"
  using blen_upper [of "unat i"] by (simp add: putint_be be_nat_be_bytes)

lemma putint_head: "i \<noteq> 0 \<Longrightarrow> putint i ! 0 \<noteq> 0"
proof
  assume i: "i \<noteq> 0" and z: "putint i ! 0 = 0"
  obtain b bs where p: "putint i = b # bs" using length_putint_bounds(1) [of i] by (cases "putint i") auto
  with z have "unat i = be_nat bs" using be_nat_putint [of i] by (simp add: be_nat_Cons)
  moreover have "blen (unat i) - 1 = length bs" using p length_putint [of i] by simp
  ultimately have lt: "unat i < 256 ^ (blen (unat i) - 1)" using be_nat_bound [of bs] by simp
  show False
  proof (cases "unat i < 256")
    case True
    then have "blen (unat i) = 1" by (simp add: blen.simps [of "unat i"])
    with lt i show False by (simp add: unat_eq_0)
  next
    case False
    with blen_lower [of "unat i"] lt show False by simp
  qed
qed

lemma unat_ucast_byte [simp]: "unat (ucast (b :: byte) :: u64) = unat b"
proof -
  have "unat b < 256" using unsigned_less [of b] by simp
  then have "unat b < 2 ^ 64" by simp
  then show ?thesis by (simp add: unsigned_ucast_eq take_bit_nat_eq_self)
qed

lemma ucast_len: "n < 2 ^ 64 \<Longrightarrow> (ucast (word_of_nat n :: u64) :: byte) = word_of_nat n"
proof -
  assume "n < 2 ^ 64"
  then have "unat (word_of_nat n :: u64) = n" by (simp add: unat_of_nat)
  moreover have "(ucast (word_of_nat n :: u64) :: byte) = word_of_nat (unat (word_of_nat n :: u64))"
    by (simp only: of_nat_unat)
  ultimately show ?thesis by simp
qed

subsection \<open>The encoder buffer renders the reference encoding\<close>

lemma length_puthead: "length (puthead st lt sz) = headsize sz"
  by (simp add: puthead_def headsize_def Let_def length_putint intsize_blen)

text \<open>
  \<open>renders buf buf' bs\<close>: from \<open>buf\<close> to \<open>buf'\<close> string data, headers and header sizes were
  appended that stand for the bytes \<open>bs\<close>, whatever is appended later.
\<close>

definition renders :: "encBuffer \<Rightarrow> encBuffer \<Rightarrow> byte list \<Rightarrow> bool" where
  "renders buf buf' bs \<longleftrightarrow>
     (\<exists>s hs. str buf' = str buf @ s \<and> lheads buf' = lheads buf @ hs \<and>
        sorted (map offset hs) \<and>
        (\<forall>h\<in>set hs. length (str buf) \<le> offset h \<and> offset h \<le> length (str buf')) \<and>
        buf_size buf' = buf_size buf + int (length bs) \<and>
        (\<forall>post hs2. (\<forall>h\<in>set hs2. length (str buf') \<le> offset h) \<longrightarrow>
           concat (writeTo (length (str buf)) (str buf' @ post) (hs @ hs2)) =
           bs @ concat (writeTo (length (str buf')) (str buf' @ post) hs2)))"

lemma take_drop_split:
  "p \<le> q \<Longrightarrow> q \<le> r \<Longrightarrow> take (q - p) (drop p s) @ take (r - q) (drop q s) = take (r - p) (drop p s)"
  using take_add [of "q - p" "r - q" "drop p s"] by simp

lemma writeTo_advance:
  assumes "p \<le> q" "q \<le> length s" "\<forall>h\<in>set hs. q \<le> offset h"
  shows "concat (writeTo p s hs) = take (q - p) (drop p s) @ concat (writeTo q s hs)"
proof (cases hs)
  case Nil
  have "take (q - p) (drop p s) @ drop q s = drop p s"
    using take_drop_split [of p q "length s" s] assms by simp
  then show ?thesis using Nil assms by (simp add: not_less)
next
  case (Cons h hs')
  then have q: "q \<le> offset h" using assms(3) by simp
  note t = take_drop_split [OF assms(1) q, of s, symmetric]
  show ?thesis
  proof (cases "p = q")
    case False
    then have pq: "p < offset h" using assms(1) q by simp
    show ?thesis
    proof (cases "q < offset h")
      case True
      have "p + length (take (q - p) (drop p s)) = q" using assms(1,2) by simp
      then have "writeTo (p + (length (take (q - p) (drop p s)) + n)) s hs' = writeTo (q + n) s hs'" for n
        by (metis add.assoc)
      then show ?thesis using Cons pq True t by (simp add: Let_def del: length_take)
    next
      case False
      then have "offset h = q" using q by simp
      then show ?thesis using Cons pq assms(2) by (simp add: Let_def)
    qed
  qed simp
qed

lemma renders_append: "renders buf (buf_append b buf) b"
  unfolding renders_def buf_append_def
proof (intro exI [of _ b] exI [of _ "[]"] conjI allI impI)
  fix post :: "byte list" and hs2 :: "listhead list"
  assume "\<forall>h\<in>set hs2. length (str (buf\<lparr>str := str buf @ b\<rparr>)) \<le> offset h"
  then show "concat (writeTo (length (str buf)) (str (buf\<lparr>str := str buf @ b\<rparr>) @ post) ([] @ hs2)) =
      b @ concat (writeTo (length (str (buf\<lparr>str := str buf @ b\<rparr>))) (str (buf\<lparr>str := str buf @ b\<rparr>) @ post) hs2)"
    by (simp add: writeTo_advance [of "length (str buf)" "length (str buf) + length b"])
qed (simp_all add: buf_size_def)

lemma renders_refl: "renders buf buf []"
  unfolding renders_def by (intro exI [of _ "[]"]) simp

lemma renders_trans:
  assumes "renders a b x" and "renders b c y"
  shows "renders a c (x @ y)"
proof -
  from assms obtain s hs s' hs' where
    ab: "str b = str a @ s" "lheads b = lheads a @ hs"
      "sorted (map offset hs) \<and> (\<forall>h\<in>set hs. length (str a) \<le> offset h \<and> offset h \<le> length (str b))"
      "buf_size b = buf_size a + int (length x)"
      "\<And>post hs2. \<forall>h\<in>set hs2. length (str b) \<le> offset h \<Longrightarrow>
         concat (writeTo (length (str a)) (str b @ post) (hs @ hs2)) =
         x @ concat (writeTo (length (str b)) (str b @ post) hs2)" and
    bc: "str c = str b @ s'" "lheads c = lheads b @ hs'"
      "sorted (map offset hs') \<and> (\<forall>h\<in>set hs'. length (str b) \<le> offset h \<and> offset h \<le> length (str c))"
      "buf_size c = buf_size b + int (length y)"
      "\<And>post hs2. \<forall>h\<in>set hs2. length (str c) \<le> offset h \<Longrightarrow>
         concat (writeTo (length (str b)) (str c @ post) (hs' @ hs2)) =
         y @ concat (writeTo (length (str c)) (str c @ post) hs2)"
    unfolding renders_def by blast
  have "concat (writeTo (length (str a)) (str c @ post) ((hs @ hs') @ hs2)) =
      (x @ y) @ concat (writeTo (length (str c)) (str c @ post) hs2)"
    if h: "\<forall>h\<in>set hs2. length (str c) \<le> offset h" for post hs2
  proof -
    have "\<forall>h\<in>set (hs' @ hs2). length (str b) \<le> offset h" using h bc(1,3) by force
    from ab(5) [OF this, of "s' @ post"] have
      "concat (writeTo (length (str a)) (str c @ post) (hs @ hs' @ hs2)) =
       x @ concat (writeTo (length (str b)) (str c @ post) (hs' @ hs2))" by (simp add: bc(1))
    with bc(5) [OF h] show ?thesis by simp
  qed
  moreover have "\<forall>h\<in>set (hs @ hs'). length (str a) \<le> offset h \<and> offset h \<le> length (str c)"
    using ab(1,3) bc(1,3) by force
  moreover have "sorted (map offset (hs @ hs'))"
    using ab(3) bc(3) by (force simp: sorted_append)
  ultimately show ?thesis using ab(1,2,4) bc(1,2,4) unfolding renders_def
    by (intro exI [of _ "s @ s'"] exI [of _ "hs @ hs'"]) simp
qed

lemma renders_list:
  assumes "list_start buf = (buf1, index)" and "renders buf1 buf2 c" and "length c < 2 ^ 63"
  shows "renders buf (listEnd index buf2) (puthead 0xC0 0xF7 (word_of_nat (length c)) @ c)"
proof -
  let ?old = "\<lparr> offset = length (str buf), lh_size = lhsize buf \<rparr>"
  let ?new = "\<lparr> offset = length (str buf), lh_size = int (length c) \<rparr>"
  from assms(1) have b1: "buf1 = buf\<lparr> lheads := lheads buf @ [?old] \<rparr>" "index = length (lheads buf)"
    by (auto simp: list_start_def Let_def)
  from assms(2) obtain s hs where
    b2: "str buf2 = str buf @ s" "lheads buf2 = lheads buf @ ?old # hs"
      "sorted (map offset hs)" "\<forall>h\<in>set hs. length (str buf) \<le> offset h \<and> offset h \<le> length (str buf2)"
      "buf_size buf2 = buf_size buf + int (length c)"
      "\<And>post hs2. \<forall>h\<in>set hs2. length (str buf2) \<le> offset h \<Longrightarrow>
         concat (writeTo (length (str buf)) (str buf2 @ post) (hs @ hs2)) =
         c @ concat (writeTo (length (str buf2)) (str buf2 @ post) hs2)"
    unfolding renders_def b1 by (auto simp: buf_size_def)
  have sz: "buf_size buf2 - int (length (str buf)) - lhsize buf = int (length c)"
    using b2(5) by (simp add: buf_size_def)
  have w: "(word_of_int (int (length c)) :: u64) = word_of_nat (length c)" by simp
  have un: "unat (word_of_nat (length c) :: u64) = length c" using assms(3) by (simp add: unat_of_nat)
  have hsz: "headsize (word_of_nat (length c)) =
      (if int (length c) < 56 then 1 else 1 + intsize (word_of_nat (length c)))"
    using un by (simp add: headsize_def word_less_nat_alt)
  define buf3 where "buf3 = listEnd index buf2"
  have b3: "str buf3 = str buf2" "lheads buf3 = lheads buf @ ?new # hs"
    "lhsize buf3 = lhsize buf2 + int (headsize (word_of_nat (length c)))"
    using b2(2) sz hsz w unfolding buf3_def by (simp_all add: listEnd_def Let_def b1(2))
  have e: "head_encode ?new = puthead 0xC0 0xF7 (word_of_nat (length c))" by (simp add: head_encode_def)
  show ?thesis unfolding renders_def buf3_def [symmetric]
  proof (intro exI [of _ s] exI [of _ "?new # hs"] conjI allI impI)
    show "buf_size buf3 = buf_size buf + int (length (puthead 0xC0 0xF7 (word_of_nat (length c)) @ c))"
      using b2(5) b3 by (simp add: buf_size_def length_puthead)
  qed (use b2 b3 e in simp_all)
qed

lemma renders_writeBytes: "length b < 2 ^ 63 \<Longrightarrow> renders buf (writeBytes b buf) (encStr b)"
proof -
  assume l: "length b < 2 ^ 63"
  then have un: "unat (word_of_nat (length b) :: u64) = length b" by (simp add: unat_of_nat)
  have h: "encodeStringHeader (length b) buf = buf_append (puthead 0x80 0xB7 (word_of_nat (length b))) buf"
    using un ucast_len [of "length b"] l
    by (simp add: encodeStringHeader_def puthead_def Let_def word_less_nat_alt)
  have c: "length b = 1 \<and> b ! 0 \<le> 0x7F \<longleftrightarrow> length b = 1 \<and> b ! 0 < 0x80"
    by (auto simp: word_le_nat_alt word_less_nat_alt)
  show ?thesis
  proof (cases "length b = 1 \<and> b ! 0 < 0x80")
    case True
    then have "[b ! 0] = b" by (cases b) auto
    with True renders_append [of buf b] show ?thesis unfolding writeBytes_def c by simp
  next
    case False
    then show ?thesis unfolding writeBytes_def c h
      by (simp only: if_False encStr.simps) (rule renders_trans [OF renders_append renders_append])
  qed
qed

lemma copy_at_piece:
  assumes "pos + length p \<le> length dst"
  shows "length (copy_at dst pos p) = length dst" "take (pos + length p) (copy_at dst pos p) = take pos dst @ p"
  using assms by (simp_all add: copy_at_def)

lemma copyTo_writeTo:
  assumes "sorted (map offset hs)" "\<forall>h\<in>set hs. strpos \<le> offset h \<and> offset h \<le> length s"
    and "pos + length (concat (writeTo strpos s hs)) = length dst" "strpos \<le> length s"
  shows "copyTo pos strpos dst s hs = Some (take pos dst @ concat (writeTo strpos s hs))"
  using assms
proof (induction hs arbitrary: pos strpos dst)
  case Nil
  then show ?case by (auto simp: copy_at_def not_less)
next
  case (Cons h hs)
  define p where "p = take (offset h - strpos) (drop strpos s)"
  define e where "e = head_encode h"
  have le: "strpos \<le> offset h" "offset h \<le> length s" using Cons.prems(2) by auto
  then have lp: "length p = offset h - strpos" by (simp add: p_def)
  have w: "concat (writeTo strpos s (h # hs)) = p @ e @ concat (writeTo (offset h) s hs)"
    using le by (cases "strpos < offset h") (simp_all add: Let_def p_def e_def)
  have fit: "pos + length p + length e + length (concat (writeTo (offset h) s hs)) = length dst"
    using Cons.prems(3) unfolding w by simp
  define d1 where "d1 = copy_at dst pos p"
  define d2 where "d2 = copy_at d1 (pos + length p) e"
  have d1: "length d1 = length dst" "take (pos + length p) d1 = take pos dst @ p"
    using copy_at_piece [of pos p dst] fit by (simp_all add: d1_def)
  have d2: "length d2 = length dst" "take (pos + length p + length e) d2 = take pos dst @ p @ e"
    using copy_at_piece [of "pos + length p" e d1] fit d1 by (simp_all add: d2_def)
  have n: "min (length dst - pos) (length p) = length p" using fit by simp
  have "copyTo (pos + length p + length e) (offset h) d2 s hs =
      Some (take (pos + length p + length e) d2 @ concat (writeTo (offset h) s hs))"
    using Cons.prems fit d2(1) le by (intro Cons.IH) auto
  moreover have "copyTo pos strpos dst s (h # hs) = copyTo (pos + length p + length e) (offset h) d2 s hs"
  proof -
    have "strpos + length p = offset h" "\<not> length dst < pos + length p + length e"
      using lp le fit by simp_all
    then show ?thesis using le(1) n d1(1) unfolding d2_def d1_def
      by (simp add: Let_def p_def [symmetric] e_def [symmetric])
  qed
  ultimately show ?case unfolding w d2(2) by simp
qed

text \<open>A buffer filled from the empty one yields the bytes it renders.\<close>

lemma renders_makeBytes:
  assumes "renders enc_reset buf bs"
  shows "makeBytes buf = Some bs" "concat (writeTo 0 (str buf) (lheads buf)) = bs"
    "buf_size buf = int (length bs)" "sorted (map offset (lheads buf))"
    "\<forall>h\<in>set (lheads buf). offset h \<le> length (str buf)"
proof -
  from assms obtain s hs where r: "str buf = s" "lheads buf = hs" "sorted (map offset hs)"
    "\<forall>h\<in>set hs. offset h \<le> length s" "buf_size buf = int (length bs)"
    "\<And>post hs2. \<forall>h\<in>set hs2. length s \<le> offset h \<Longrightarrow>
       concat (writeTo 0 (s @ post) (hs @ hs2)) = bs @ concat (writeTo (length s) (s @ post) hs2)"
    unfolding renders_def by (auto simp: enc_reset_def buf_size_def)
  from r(6) [of "[]" "[]"] show c: "concat (writeTo 0 (str buf) (lheads buf)) = bs"
    by (simp add: r(1,2))
  show "makeBytes buf = Some bs"
    unfolding makeBytes_def r(1,2,5) using r(3,4) c by (subst copyTo_writeTo) (simp_all add: r(1,2))
qed (use assms in \<open>auto simp: renders_def enc_reset_def buf_size_def\<close>)

subsection \<open>Integers\<close>

lemma int_bytes_0 [simp]: "int_bytes 0 = []"
  by (simp add: int_bytes_def)

lemma int_bytes_unat: "i \<noteq> 0 \<Longrightarrow> int_bytes (unat i) = putint i"
  by (simp add: int_bytes_def putint_be unat_eq_0)

lemma length_int_bytes_64: "length (int_bytes (unat (i :: u64))) \<le> 8"
proof (cases "i = 0")
  case False
  show ?thesis unfolding int_bytes_unat [OF False] by (rule length_putint_bounds)
qed (simp add: int_bytes_def)

lemma encStr_short:
  assumes "length b < 56" "\<not> (length b = 1 \<and> b ! 0 < 0x80)"
  shows "encStr b = (0x80 + word_of_nat (length b)) # b"
proof -
  have "unat (word_of_nat (length b) :: u64) = length b" using assms(1) by (simp add: unat_of_nat)
  then show ?thesis using assms ucast_len [of "length b"]
    by (auto simp: puthead_def word_less_nat_alt)
qed

lemma putint_small: "i < 256 \<Longrightarrow> putint i = [ucast i]"
  by (simp add: putint_def byteAt_def)

lemma unat_ucast_small: "(i :: u64) < 256 \<Longrightarrow> unat (ucast i :: byte) = unat i"
  by (simp add: unsigned_ucast_eq take_bit_nat_eq_self word_less_nat_alt)

lemma encStr_int:
  "encStr (int_bytes (unat i)) =
    (if i = 0 then [0x80] else if i < 128 then [ucast i] else (0x80 + word_of_nat (length (putint i))) # putint i)"
proof (cases "i < 128")
  case True
  show ?thesis
  proof (cases "i = 0")
    case False
    from True have "i < 256" by (simp add: word_less_nat_alt)
    moreover from this True have "(ucast i :: byte) < 0x80"
      using unat_ucast_small [of i] by (simp add: word_less_nat_alt)
    ultimately show ?thesis using False True by (simp add: int_bytes_unat putint_small)
  qed (simp add: int_bytes_def puthead_def)
next
  case False
  then have nz: "i \<noteq> 0" by auto
  have "\<not> (length (putint i) = 1 \<and> putint i ! 0 < 0x80)"
  proof
    assume a: "length (putint i) = 1 \<and> putint i ! 0 < 0x80"
    then obtain b where "putint i = [b]" by (auto simp: length_Suc_conv)
    then have "unat i = unat b" using be_nat_putint [of i] by (simp add: be_nat_Cons)
    with a False \<open>putint i = [b]\<close> show False by (simp add: word_less_nat_alt)
  qed
  moreover have "length (putint i) < 56" using length_putint_bounds(2) [of i] by simp
  ultimately have "encStr (putint i) = (0x80 + word_of_nat (length (putint i))) # putint i"
    by (intro encStr_short) auto
  with False nz show ?thesis by (simp add: int_bytes_unat del: encStr.simps)
qed

lemma writeUint64_enc: "writeUint64 i buf = buf_append (encStr (int_bytes (unat i))) buf"
  unfolding encStr_int by (simp add: writeUint64_def Let_def)

lemma AppendUint64_enc: "AppendUint64 b i = b @ encStr (int_bytes (unat i))"
proof (cases "i < 128")
  case False
  then have nz: "i \<noteq> 0" by (auto simp: word_less_nat_alt)
  from False have "AppendUint64 b i = b @ (0x80 + word_of_nat (length (putint i))) # putint i"
    using nz by (simp add: AppendUint64_def putint_def)
  with False nz show ?thesis unfolding encStr_int by auto
qed (auto simp: AppendUint64_def encStr_int simp del: encStr.simps)

text \<open>Big integers: the words of \<open>Bits\<close> fill the bytes from the end.\<close>

lemma bitLen_bounds: "n \<noteq> 0 \<Longrightarrow> 2 ^ (bitLen n - 1) \<le> n \<and> n < 2 ^ bitLen n \<and> 0 < bitLen n"
proof (induction n rule: bitLen.induct)
  case (1 n)
  show ?case
  proof (cases "n div 2 = 0")
    case True
    with 1(2) have "n = 1" by (simp add: div_eq_0_iff)
    then show ?thesis by (simp add: bitLen.simps [of "Suc 0"] bitLen.simps [of 0])
  next
    case False
    with 1 have ih: "2 ^ (bitLen (n div 2) - 1) \<le> n div 2" "n div 2 < 2 ^ bitLen (n div 2)" "0 < bitLen (n div 2)"
      by blast+
    from ih(3) obtain k where k: "bitLen (n div 2) = Suc k" by (cases "bitLen (n div 2)") auto
    have "2 * 2 ^ k \<le> n" "n < 4 * 2 ^ k" using ih k by auto
    then show ?thesis using k 1(2) by (simp add: bitLen.simps [of n])
  qed
qed

lemma bitLen_blen: "n \<noteq> 0 \<Longrightarrow> (bitLen n + 7) div 8 = blen n"
proof -
  assume n: "n \<noteq> 0"
  define k where "k = (bitLen n + 7) div 8"
  note b = bitLen_bounds [OF n]
  have k: "0 < k" "bitLen n \<le> 8 * k" "8 * (k - 1) \<le> bitLen n - 1" using b unfolding k_def by auto
  have p: "(256 :: nat) ^ m = 2 ^ (8 * m)" for m by (simp add: power_mult)
  have "n < 256 ^ k" unfolding p using b k(2) by (meson less_le_trans one_le_numeral power_increasing)
  moreover have "256 ^ (k - 1) \<le> n" unfolding p using b k(3) by (meson le_trans one_le_numeral power_increasing)
  ultimately have "blen n = k" using k(1) by (intro blen_unique) auto
  then show ?thesis by (simp add: k_def)
qed

text \<open>The bytes below \<open>index\<close> are still zero, those above hold the low bytes of \<open>n\<close>.\<close>

definition filled :: "nat \<Rightarrow> nat \<Rightarrow> nat \<times> byte list \<Rightarrow> bool" where
  "filled len n st \<longleftrightarrow> fst st \<le> len \<and> snd st = replicate (fst st) 0 @ be_bytes (len - fst st) n"

lemma be_bytes_Suc_front: "be_bytes (Suc k) n = word_of_nat (n div 256 ^ k) # be_bytes k n"
proof (induction k arbitrary: n)
  case (Suc k)
  have "be_bytes (Suc (Suc k)) n = be_bytes (Suc k) (n div 256) @ [word_of_nat n]" by simp
  also have "\<dots> = word_of_nat (n div 256 div 256 ^ k) # be_bytes k (n div 256) @ [word_of_nat n]"
    by (simp only: Suc append_Cons)
  finally show ?case by (simp add: div_mult2_eq)
qed simp

lemma fillWord_filled:
  assumes "filled len n (index, b)" and "j \<le> 8"
    and "\<forall>i<j. ucast (drop_bit (8 * i) d) = (word_of_nat (n div 256 ^ (len - index + i)) :: byte)"
  shows "filled len n (fillWord j d (index, b)) \<and> fst (fillWord j d (index, b)) = index - j"
  using assms
proof (induction j arbitrary: d index b)
  case (Suc j)
  show ?case
  proof (cases "index = 0")
    case False
    then obtain k where k: "index = Suc k" by (cases index) auto
    from Suc.prems(1) have le: "index \<le> len" and b: "b = replicate index 0 @ be_bytes (len - index) n"
      by (simp_all add: filled_def)
    have "ucast d = (word_of_nat (n div 256 ^ (len - index)) :: byte)" using Suc.prems(3) by force
    moreover have "replicate index (0 :: byte) = replicate k 0 @ [0]" by (simp add: k replicate_append_same)
    ultimately have upd: "b[k := ucast d] = replicate k 0 @ be_bytes (len - k) n"
      using le k by (simp add: b Suc_diff_Suc [symmetric] be_bytes_Suc_front list_update_append
          del: be_bytes.simps replicate_Suc)
    have "filled len n (fillWord j (drop_bit 8 d) (k, b[k := ucast d])) \<and>
        fst (fillWord j (drop_bit 8 d) (k, b[k := ucast d])) = k - j"
    proof (rule Suc.IH)
      show "filled len n (k, b[k := ucast d])" using upd le k by (simp add: filled_def)
      show "\<forall>i<j. ucast (drop_bit (8 * i) (drop_bit 8 d)) = (word_of_nat (n div 256 ^ (len - k + i)) :: byte)"
      proof (intro allI impI)
        fix i assume "i < j"
        then have "ucast (drop_bit (8 * Suc i) d) = (word_of_nat (n div 256 ^ (len - index + Suc i)) :: byte)"
          using Suc.prems(3) by blast
        moreover have e: "len - index + Suc i = len - k + i" using le k by simp
        ultimately have "ucast (drop_bit (8 * Suc i) d) = (word_of_nat (n div 256 ^ (len - k + i)) :: byte)"
          by (simp only: e)
        then show "ucast (drop_bit (8 * i) (drop_bit 8 d)) = (word_of_nat (n div 256 ^ (len - k + i)) :: byte)"
          by (simp add: drop_bit_drop_bit add.commute)
      qed
    qed (use Suc.prems in simp)
    then show ?thesis using k by simp
  qed (use Suc.prems in \<open>simp add: filled_def\<close>)
qed simp

lemma be_bytes_pad:
  assumes "n < 256 ^ k" "k \<le> len"
  shows "replicate (len - k) 0 @ be_bytes k n = be_bytes len n"
proof (rule be_nat_inject)
  have "(256 :: nat) ^ k \<le> 256 ^ len" using assms(2) by (simp add: power_increasing)
  then have "n < 256 ^ len" using assms(1) by (rule less_le_trans [rotated])
  with assms show "be_nat (replicate (len - k) 0 @ be_bytes k n) = be_nat (be_bytes len n)"
    by (simp add: be_nat_replicate_0 be_nat_be_bytes)
qed (use assms in simp)

lemma fillWord_0 [simp]: "fillWord j d (0, b) = (0, b)"
  by (cases j) simp_all

lemma fold_fillWord_0: "fold (fillWord j) ds (0, b) = (0, b)"
  by (induction ds) simp_all

lemma word_bytes:
  assumes "i < 8"
  shows "ucast (drop_bit (8 * i) (word_of_nat m :: u64)) = (word_of_nat (m div 256 ^ i) :: byte)"
proof -
  have d: "drop_bit (8 * i) (take_bit 64 m) = take_bit (64 - 8 * i) (m div 2 ^ (8 * i))"
    by (simp add: drop_bit_take_bit flip: drop_bit_eq_div)
  have "unat (ucast (drop_bit (8 * i) (word_of_nat m :: u64)) :: byte) = take_bit 8 (drop_bit (8 * i) (take_bit 64 m))"
    by (simp add: unsigned_ucast_eq unat_drop_bit_eq unsigned_of_nat)
  also have "\<dots> = take_bit 8 (m div 2 ^ (8 * i))" unfolding d using assms by (simp add: take_bit_take_bit min_def)
  also have "\<dots> = unat (word_of_nat (m div 256 ^ i) :: byte)" by (simp add: unsigned_of_nat power_mult)
  finally show ?thesis by (simp only: word_unat_eq_iff)
qed

lemma fold_fillWord:
  assumes "filled len n (index, b)" "m = n div 2 ^ (64 * w)" "index = len - 8 * w"
  shows "snd (fold (fillWord 8) (bigBits m) (index, b)) = be_bytes len n"
  using assms
proof (induction m arbitrary: index b w rule: bigBits.induct)
  case (1 m)
  have p: "(256 :: nat) ^ (8 * w) = 2 ^ (64 * w)" by (simp add: power_mult)
  consider "index = 0" | "m = 0" "0 < index" | "m \<noteq> 0" "0 < index" by blast
  then show ?case
  proof cases
    case 1
    then show ?thesis using "1.prems"(1) by (simp add: fold_fillWord_0 filled_def)
  next
    case 2
    then have "n < 256 ^ (8 * w)" using "1.prems"(2) unfolding p by (simp add: div_eq_0_iff)
    with 2 "1.prems" be_bytes_pad [of n "8 * w" len] show ?thesis
      by (simp add: filled_def bigBits.simps [of 0])
  next
    case 3
    then have len: "len - index = 8 * w" "8 * w < len" using "1.prems"(3) by auto
    have "\<forall>i<8. ucast (drop_bit (8 * i) (word_of_nat m :: u64)) = (word_of_nat (n div 256 ^ (len - index + i)) :: byte)"
      unfolding len(1) power_add p div_mult2_eq by (simp add: word_bytes "1.prems"(2))
    from fillWord_filled [OF "1.prems"(1) _ this] obtain b' where
      f: "fillWord 8 (word_of_nat m) (index, b) = (index - 8, b')" "filled len n (index - 8, b')"
      by (metis order_refl prod.collapse)
    have "m div 2 ^ 64 = n div 2 ^ (64 * Suc w)" "index - 8 = len - 8 * Suc w"
      using "1.prems" by (simp_all add: div_mult2_eq [symmetric] power_add mult.commute)
    from "1.IH" [OF 3(1) f(2) this] show ?thesis using 3 f(1) by (simp add: bigBits.simps [of m])
  qed
qed

lemma renders_writeBigInt:
  assumes "blen (nat \<bar>i\<bar>) < 2 ^ 63"
  shows "renders buf (writeBigInt i buf) (encStr (int_bytes (nat \<bar>i\<bar>)))"
proof (cases "bitLen (nat \<bar>i\<bar>) \<le> 64")
  case True
  have "nat \<bar>i\<bar> < 2 ^ 64"
  proof (cases "nat \<bar>i\<bar> = 0")
    case False
    have "(2 :: nat) ^ bitLen (nat \<bar>i\<bar>) \<le> 2 ^ 64" using True by (intro power_increasing) auto
    with bitLen_bounds [OF False] show ?thesis by linarith
  qed simp
  then have "unat (word_of_nat (nat \<bar>i\<bar>) :: u64) = nat \<bar>i\<bar>"
    using unat_of_nat [where 'a = 64, of "nat \<bar>i\<bar>"] by (simp del: of_nat_nat)
  with True renders_append show ?thesis by (simp add: writeBigInt_def writeUint64_enc del: encStr.simps of_nat_nat)
next
  case False
  let ?n = "nat \<bar>i\<bar>"
  have nz: "?n \<noteq> 0" using False by (auto simp: bitLen.simps [of 0])
  define len where "len = (bitLen ?n + 7) div 8"
  have len: "len = blen ?n" "8 < len" using bitLen_blen [OF nz] False unfolding len_def by auto
  have "snd (fold (fillWord 8) (bigBits ?n) (len, replicate len 0)) = be_bytes len ?n"
    by (rule fold_fillWord [where w = 0]) (simp_all add: filled_def)
  then have "writeBigInt i buf = buf_append (int_bytes ?n) (encodeStringHeader (length (int_bytes ?n)) buf)"
    using False nz len by (simp add: writeBigInt_def len_def [symmetric] int_bytes_def Let_def)
  also have "\<dots> = writeBytes (int_bytes ?n) buf"
    using len nz by (simp add: writeBytes_def int_bytes_def)
  finally show ?thesis using renders_writeBytes [of "int_bytes ?n" buf] assms nz
    by (simp add: int_bytes_def del: encStr.simps)
qed

subsection \<open>The reader over a finished buffer\<close>

text \<open>The bytes a reader has still to deliver, and the positions it can be in.\<close>

definition er_rest :: "encBuffer \<Rightarrow> encReader \<Rightarrow> byte list" where
  "er_rest buf r =
     (case er_piece r of None \<Rightarrow> [] | Some p \<Rightarrow> p) @
     concat (writeTo (er_strpos r) (str buf) (drop (er_lhpos r) (lheads buf)))"

definition er_ok :: "encBuffer \<Rightarrow> encReader \<Rightarrow> bool" where
  "er_ok buf r \<longleftrightarrow>
     sorted (map offset (lheads buf)) \<and>
     (\<forall>h\<in>set (drop (er_lhpos r) (lheads buf)). er_strpos r \<le> offset h \<and> offset h \<le> length (str buf)) \<and>
     er_strpos r \<le> length (str buf) \<and> er_piece r \<noteq> Some []"

lemma er_next_rest:
  assumes "er_ok buf r" and "er_next buf r = (p, r')"
  shows "(p = None \<longrightarrow> er_rest buf r = []) \<and>
    (\<forall>b. p = Some b \<longrightarrow> b \<noteq> [] \<and> er_rest buf r = b @ er_rest buf (r'\<lparr> er_piece := None \<rparr>)) \<and>
    (\<forall>q. q \<noteq> Some [] \<longrightarrow> er_ok buf (r'\<lparr> er_piece := q \<rparr>))"
proof (cases "er_piece r")
  case None
  show ?thesis
  proof (cases "er_lhpos r < length (lheads buf)")
    case True
    define h where "h = lheads buf ! er_lhpos r"
    have d: "drop (er_lhpos r) (lheads buf) = h # drop (Suc (er_lhpos r)) (lheads buf)"
      using True by (simp add: h_def Cons_nth_drop_Suc)
    have o: "er_strpos r \<le> offset h" "offset h \<le> length (str buf)" using assms(1) d by (auto simp: er_ok_def)
    have "sorted (map offset (h # drop (Suc (er_lhpos r)) (lheads buf)))"
      using assms(1) unfolding d [symmetric] er_ok_def by (simp add: drop_map [symmetric] sorted_wrt_drop)
    then have later: "\<forall>h'\<in>set (drop (Suc (er_lhpos r)) (lheads buf)). offset h \<le> offset h'" by simp
    have ne: "head_encode h \<noteq> []" by (simp add: head_encode_def puthead_def Let_def)
    show ?thesis
    proof (cases "er_strpos r < offset h")
      case lt: True
      then have "writeTo (offset h) (str buf) (h # hs) = head_encode h # writeTo (offset h) (str buf) hs" for hs
        by simp
      moreover have "min (length (str buf) - er_strpos r) (offset h - er_strpos r) = offset h - er_strpos r"
        using o by simp
      ultimately show ?thesis using assms None True lt d o later
        by (auto simp: er_next_def h_def [symmetric] er_rest_def er_ok_def Let_def)
    next
      case False
      then show ?thesis using assms None True d o ne
        by (auto simp: er_next_def h_def [symmetric] er_rest_def er_ok_def)
    qed
  next
    case False
    then show ?thesis using assms None by (auto simp: er_next_def er_rest_def er_ok_def split: if_splits)
  qed
next
  case (Some b)
  then show ?thesis using assms by (auto simp: er_next_def er_rest_def er_ok_def)
qed

lemma Read_rest:
  assumes "er_ok buf r" and "length (er_rest buf r) < fuel"
  shows "\<exists>r'. Read fuel buf n r = Some (take n (er_rest buf r), length (er_rest buf r) \<le> n, r') \<and>
    er_ok buf r' \<and> er_rest buf r' = drop n (er_rest buf r)"
  using assms
proof (induction fuel arbitrary: n r)
  case (Suc fuel)
  obtain p r1 where nx: "er_next buf r = (p, r1)" by fastforce
  note e = er_next_rest [OF Suc.prems(1) nx]
  show ?case
  proof (cases p)
    case None
    then have "er_rest buf r = []" "er_ok buf (r1\<lparr> er_piece := None \<rparr>)" using e by auto
    moreover from this have "er_rest buf (r1\<lparr> er_piece := None \<rparr>) = []"
      using nx None Suc.prems(1) by (auto simp: er_next_def er_rest_def Let_def split: option.splits if_splits)
    ultimately show ?thesis using nx None by simp
  next
    case (Some b)
    then have b: "b \<noteq> []" "er_rest buf r = b @ er_rest buf (r1\<lparr> er_piece := None \<rparr>)"
      "er_ok buf (r1\<lparr> er_piece := None \<rparr>)" using e by auto
    show ?thesis
    proof (cases "n < length b")
      case True
      then have "er_ok buf (r1\<lparr> er_piece := Some (drop n b) \<rparr>)" using e by simp
      moreover have "er_rest buf (r1\<lparr> er_piece := Some (drop n b) \<rparr>) = drop n b @ er_rest buf (r1\<lparr> er_piece := None \<rparr>)"
        by (simp add: er_rest_def)
      ultimately show ?thesis using True b nx Some by simp
    next
      case False
      have "length (er_rest buf (r1\<lparr> er_piece := None \<rparr>)) < fuel" using Suc.prems(2) b(1,2) by (cases b) auto
      from Suc.IH [OF b(3) this, of "n - length b"] obtain r' where
        "Read fuel buf (n - length b) (r1\<lparr> er_piece := None \<rparr>) =
          Some (take (n - length b) (er_rest buf (r1\<lparr> er_piece := None \<rparr>)),
            length (er_rest buf (r1\<lparr> er_piece := None \<rparr>)) \<le> n - length b, r')"
        "er_ok buf r'" "er_rest buf r' = drop (n - length b) (er_rest buf (r1\<lparr> er_piece := None \<rparr>))"
        by blast
      then show ?thesis using False b(2) nx Some by auto
    qed
  qed
qed simp

lemma reads_rest:
  assumes "er_ok buf r" and "length (er_rest buf r) < fuel"
  shows "\<exists>outs. reads fuel buf ns r = Some outs \<and> length outs = length ns \<and>
    concat (map fst outs) = take (sum_list ns) (er_rest buf r)"
  using assms
proof (induction ns arbitrary: r)
  case (Cons n ns)
  from Read_rest [OF Cons.prems, of n] obtain r' where
    rd: "Read fuel buf n r = Some (take n (er_rest buf r), length (er_rest buf r) \<le> n, r')"
      "er_ok buf r'" "er_rest buf r' = drop n (er_rest buf r)" by blast
  then have "length (er_rest buf r') < fuel" using Cons.prems(2) by simp
  from Cons.IH [OF rd(2) this] rd(1,3) show ?case by (auto simp: take_add)
qed simp

lemma er_start:
  assumes "renders enc_reset buf bs"
  shows "er_ok buf new_encReader" "er_rest buf new_encReader = bs"
  using renders_makeBytes [OF assms] by (simp_all add: er_ok_def er_rest_def new_encReader_def)

end
