(* ===== verification/Rlp_Raw.thy ===== *)
theory Rlp_Raw
  imports Rlp_Codec
begin

text \<open>
  The functions of \<open>rlp/raw.go\<close> and \<open>rlp/iterator.go\<close> that take an encoding apart without
  decoding it, and their round trips with the encoder of \<open>Rlp_Codec\<close> in both directions.
\<close>

subsection \<open>Splitting\<close>

text \<open>
  \<open>readSize\<close>: \<open>slen\<close> is between 1 and 8 at every call; for these the switch of the source
  reads a big-endian number.
\<close>

definition sizeBytes :: "byte list \<Rightarrow> nat \<Rightarrow> u64" where
  "sizeBytes b slen = foldl (\<lambda>s k. s OR push_bit (8 * (slen - 1 - k)) (ucast (b ! k))) 0 [0..<slen]"

definition readSize :: "byte list \<Rightarrow> byte \<Rightarrow> rlp_err + u64" where
  "readSize b slen =
     (if unat slen > length b then Inl ErrUnexpectedEOF
      else let s = (if 1 \<le> slen \<and> slen \<le> 8 then sizeBytes b (unat slen) else 0) in
        if s < 56 \<or> b ! 0 = 0 then Inl ErrCanonSize else Inr s)"

definition readKind :: "byte list \<Rightarrow> rlp_err + (Kind \<times> u64 \<times> u64)" where
  "readKind buf =
     (case buf of
        [] \<Rightarrow> Inl ErrUnexpectedEOF
      | b # bs \<Rightarrow>
          let r =
            (if b < 0x80 then Inr (Byte, 0, 1)
             else if b < 0xB8 then
               if ucast (b - 0x80) = (1 :: u64) \<and> length buf > 1 \<and> buf ! 1 < 128 then Inl ErrCanonSize
               else Inr (String, 1, ucast (b - 0x80))
             else if b < 0xC0 then
               (case readSize bs (b - 0xB7) of Inl e \<Rightarrow> Inl e | Inr cs \<Rightarrow> Inr (String, ucast (b - 0xB7) + 1, cs))
             else if b < 0xF8 then Inr (List, 1, ucast (b - 0xC0))
             else
               (case readSize bs (b - 0xF7) of Inl e \<Rightarrow> Inl e | Inr cs \<Rightarrow> Inr (List, ucast (b - 0xF7) + 1, cs)))
          in case r of
               Inl e \<Rightarrow> Inl e
             | Inr (k, tagsize, contentsize) \<Rightarrow>
                 if contentsize > word_of_nat (length buf) - tagsize then Inl ErrValueTooLarge
                 else Inr (k, tagsize, contentsize))"

definition Split :: "byte list \<Rightarrow> rlp_err + (Kind \<times> byte list \<times> byte list)" where
  "Split b =
     (case readKind b of
        Inl e \<Rightarrow> Inl e
      | Inr (k, ts, cs) \<Rightarrow> Inr (k, take (unat cs) (drop (unat ts) b), drop (unat (ts + cs)) b))"

definition SplitString :: "byte list \<Rightarrow> rlp_err + (byte list \<times> byte list)" where
  "SplitString b =
     (case Split b of
        Inl e \<Rightarrow> Inl e
      | Inr (k, content, rest) \<Rightarrow> if k = List then Inl ErrExpectedString else Inr (content, rest))"

definition SplitUint64 :: "byte list \<Rightarrow> rlp_err + (u64 \<times> byte list)" where
  "SplitUint64 b =
     (case SplitString b of
        Inl e \<Rightarrow> Inl e
      | Inr (content, rest) \<Rightarrow>
          if length content = 0 then Inr (0, rest)
          else if length content = 1 then
            if content ! 0 = 0 then Inl ErrCanonInt else Inr (ucast (content ! 0), rest)
          else if length content > 8 then Inl ErrUintOverflow
          else (case readSize content (word_of_nat (length content)) of
                  Inl e \<Rightarrow> Inl ErrCanonInt
                | Inr x \<Rightarrow> Inr (x, rest)))"

definition SplitList :: "byte list \<Rightarrow> rlp_err + (byte list \<times> byte list)" where
  "SplitList b =
     (case Split b of
        Inl e \<Rightarrow> Inl e
      | Inr (k, content, rest) \<Rightarrow> if k \<noteq> List then Inl ErrExpectedList else Inr (content, rest))"

text \<open>\<open>CountValues\<close> with fuel; every turn consumes at least one byte.\<close>

fun countFrom :: "nat \<Rightarrow> nat \<Rightarrow> byte list \<Rightarrow> (rlp_err + nat) option" where
  "countFrom 0 i b = None"
| "countFrom (Suc fuel) i b =
     (if length b > 0 then
        (case readKind b of
           Inl e \<Rightarrow> Some (Inl e)
         | Inr (k, tagsize, sz) \<Rightarrow> countFrom fuel (i + 1) (drop (unat (tagsize + sz)) b))
      else Some (Inr i))"

definition CountValues :: "byte list \<Rightarrow> (rlp_err + nat) option" where
  "CountValues b = countFrom (Suc (length b)) 0 b"

text \<open>The list iterator of \<open>rlp/iterator.go\<close>.\<close>

record listIterator =
  it_data :: "byte list"
  it_next :: "byte list"
  it_err :: "rlp_err option"

definition NewListIterator :: "byte list \<Rightarrow> rlp_err + listIterator" where
  "NewListIterator data =
     (case readKind data of
        Inl e \<Rightarrow> Inl e
      | Inr (k, t, c) \<Rightarrow>
          if k \<noteq> List then Inl ErrExpectedList
          else Inr \<lparr> it_data = take (unat c) (drop (unat t) data), it_next = [], it_err = None \<rparr>)"

definition it_Next :: "listIterator \<Rightarrow> bool \<times> listIterator" where
  "it_Next it =
     (if length (it_data it) = 0 then (False, it)
      else
        let (n, e) = (case readKind (it_data it) of Inl e \<Rightarrow> (0, Some e) | Inr (k, t, c) \<Rightarrow> (unat (t + c), None))
        in (True, it\<lparr> it_next := take n (it_data it), it_data := drop n (it_data it), it_err := e \<rparr>))"

text \<open>
  What a value of a given kind and content looks like: a single byte stands for itself, the
  other values have the minimal header of their kind.
\<close>

fun frame :: "Kind \<Rightarrow> byte list \<Rightarrow> byte list" where
  "frame Byte c = c"
| "frame String c = puthead 0x80 0xB7 (word_of_nat (length c)) @ c"
| "frame List c = puthead 0xC0 0xF7 (word_of_nat (length c)) @ c"

fun frame_ok :: "Kind \<Rightarrow> byte list \<Rightarrow> bool" where
  "frame_ok Byte c = (length c = 1 \<and> c ! 0 < 0x80)"
| "frame_ok String c = (\<not> (length c = 1 \<and> c ! 0 < 0x80))"
| "frame_ok List c = True"

subsection \<open>Sizes and kinds\<close>

lemma byte_or:
  fixes a b :: u64
  assumes "b < 256"
  shows "push_bit 8 a OR b = 256 * a + b"
proof -
  have b: "take_bit 8 b = b"
    using assms by (simp add: take_bit_eq_mod mod_word_less)
  have small: "bit b n \<Longrightarrow> n < 8" for n
    using b by (metis bit_take_bit_iff)
  have "push_bit 8 a + b = push_bit 8 a OR b"
    by (rule disjunctive_add) (use small in \<open>force simp: bit_push_bit_iff\<close>)
  then show ?thesis by (simp add: push_bit_eq_mult mult.commute)
qed

lemma sizeBytes_be:
  assumes "n \<le> length b"
  shows "sizeBytes b n = word_of_nat (be_nat (take n b))"
proof -
  have "m \<le> n \<Longrightarrow> foldl (\<lambda>s k. s OR push_bit (8 * (n - 1 - k)) (ucast (b ! k))) 0 [0..<m] =
      push_bit (8 * (n - m)) (word_of_nat (be_nat (take m b)) :: u64)" for m
  proof (induction m)
    case (Suc m)
    let ?A = "word_of_nat (be_nat (take m b)) :: u64" and ?c = "ucast (b ! m) :: u64"
    have e: "8 * (n - m) = 8 * (n - Suc m) + 8" using Suc.prems by simp
    have c: "?c < 256" using unsigned_less [of "b ! m"] by (simp add: word_less_nat_alt)
    have "foldl (\<lambda>s k. s OR push_bit (8 * (n - 1 - k)) (ucast (b ! k))) 0 [0..<Suc m] =
        push_bit (8 * (n - m)) ?A OR push_bit (8 * (n - Suc m)) ?c"
      using Suc by simp
    also have "\<dots> = push_bit (8 * (n - Suc m)) (push_bit 8 ?A OR ?c)"
      unfolding e push_bit_or push_bit_push_bit ..
    also have "push_bit 8 ?A OR ?c = 256 * ?A + ?c" by (rule byte_or [OF c])
    also have "\<dots> = word_of_nat (be_nat (take (Suc m) b))"
      using Suc.prems assms by (simp add: take_Suc_conv_app_nth be_nat_snoc)
    finally show ?case .
  qed simp
  from this [of n] show ?thesis by (simp add: sizeBytes_def)
qed

lemma readSize_putint:
  assumes "56 \<le> sz"
  shows "readSize (putint sz @ rest) (word_of_nat (length (putint sz))) = Inr sz"
proof -
  let ?k = "length (putint sz)"
  have k: "0 < ?k" "?k \<le> 8" by (rule length_putint_bounds)+
  then have u: "unat (word_of_nat ?k :: byte) = ?k" by (simp add: unat_of_nat)
  have nz: "sz \<noteq> 0" using assms by auto
  have "sizeBytes (putint sz @ rest) ?k = sz"
    by (simp add: sizeBytes_be be_nat_putint)
  moreover have "(putint sz @ rest) ! 0 \<noteq> 0" using putint_head [OF nz] k(1) by (simp add: nth_append)
  moreover have "1 \<le> (word_of_nat ?k :: byte) \<and> (word_of_nat ?k :: byte) \<le> 8"
    using k u by (simp add: word_le_nat_alt Suc_le_eq)
  ultimately show ?thesis using u assms by (simp add: readSize_def Let_def not_less)
qed

text \<open>Tags: a base tag plus a small number does not wrap.\<close>

lemma unat_tag: "unat (t :: byte) + n < 256 \<Longrightarrow> unat (t + word_of_nat n) = unat t + n"
  by (simp add: unat_word_ariths unat_of_nat)

lemma tag_diff: "(t :: byte) + word_of_nat n - t = word_of_nat n"
  by simp

lemma ucast_word_of_nat: "n < 256 \<Longrightarrow> (ucast (word_of_nat n :: byte) :: u64) = word_of_nat n"
  by (simp add: word_unat_eq_iff unat_of_nat)

lemma readKind_fits:
  assumes "length buf < 2 ^ 64" and "t + n \<le> length buf"
  shows "\<not> word_of_nat n > (word_of_nat (length buf) - word_of_nat t :: u64)"
proof -
  have "(word_of_nat (length buf) - word_of_nat t :: u64) = word_of_nat (length buf - t)"
    using assms by (simp add: of_nat_diff)
  moreover have "unat (word_of_nat (length buf - t) :: u64) = length buf - t" "unat (word_of_nat n :: u64) = n"
    using assms by (simp_all add: unat_of_nat del: of_nat_diff)
  ultimately show ?thesis using assms by (simp add: word_less_nat_alt not_less del: of_nat_diff)
qed

text \<open>The header of a value of either kind, in front of its content.\<close>

lemma readKind_head:
  assumes len: "length (puthead st lt (word_of_nat (length c)) @ c @ rest) < 2 ^ 64"
    and tags: "(st, lt, k) = (0x80, 0xB7, String) \<or> (st, lt, k) = (0xC0, 0xF7, List)"
    and canon: "k = String \<Longrightarrow> \<not> (length c = 1 \<and> c ! 0 < 128)"
  shows "readKind (puthead st lt (word_of_nat (length c)) @ c @ rest) =
    Inr (k, word_of_nat (length (puthead st lt (word_of_nat (length c)))), word_of_nat (length c))"
proof -
  let ?n = "length c" and ?h = "puthead st lt (word_of_nat (length c))"
  let ?buf = "?h @ c @ rest"
  have un: "unat (word_of_nat ?n :: u64) = ?n" using len by (simp add: unat_of_nat)
  have fits: "\<not> word_of_nat ?n > (word_of_nat (length ?buf) - word_of_nat (length ?h) :: u64)"
    by (rule readKind_fits) (use len in auto)
  show ?thesis
  proof (cases "?n < 56")
    case True
    then have h: "?h = [st + word_of_nat ?n]"
      using un ucast_len [of ?n] by (simp add: puthead_def word_less_nat_alt)
    have ut: "unat (st + word_of_nat ?n) = unat st + ?n"
      using tags True by (intro unat_tag) auto
    have d: "(ucast (st + word_of_nat ?n - st) :: u64) = word_of_nat ?n"
      unfolding tag_diff using True by (intro ucast_word_of_nat) simp
    from tags show ?thesis
    proof (elim disjE)
      assume t: "(st, lt, k) = (0x80, 0xB7, String)"
      have "\<not> (ucast (st + word_of_nat ?n - st) = (1 :: u64) \<and> length ?buf > 1 \<and> ?buf ! 1 < 128)"
        unfolding d using canon t h un by (auto simp: nth_append word_unat_eq_iff)
      then show ?thesis using t ut fits h d True by (simp add: readKind_def Let_def word_less_nat_alt)
    next
      assume t: "(st, lt, k) = (0xC0, 0xF7, List)"
      then show ?thesis using ut fits h d True by (simp add: readKind_def Let_def word_less_nat_alt)
    qed
  next
    case False
    define p where "p = putint (word_of_nat ?n)"
    have h: "?h = (lt + word_of_nat (length p)) # p"
      using un False by (simp add: puthead_def word_less_nat_alt p_def Let_def)
    have p: "0 < length p" "length p \<le> 8" unfolding p_def by (rule length_putint_bounds)+
    have ut: "unat (lt + word_of_nat (length p)) = unat lt + length p"
      using tags p by (intro unat_tag) auto
    have d: "(ucast (lt + word_of_nat (length p) - lt) :: u64) = word_of_nat (length p)"
      unfolding tag_diff using p by (intro ucast_word_of_nat) simp
    have r: "readSize (p @ c @ rest) (lt + word_of_nat (length p) - lt) = Inr (word_of_nat ?n)"
      unfolding tag_diff p_def using un False by (intro readSize_putint) (simp add: word_le_nat_alt)
    define b where "b = lt + word_of_nat (length p)"
    have e: "?h = b # p" "readSize (p @ c @ rest) (b - lt) = Inr (word_of_nat ?n)"
      "(ucast (b - lt) :: u64) + 1 = word_of_nat (length ?h)"
      using h r d by (simp_all add: b_def)
    from tags show ?thesis
    proof (elim disjE)
      assume t: "(st, lt, k) = (0x80, 0xB7, String)"
      with ut p have "\<not> b < 0x80" "\<not> b < 0xB8" "b < 0xC0" by (simp_all add: b_def word_less_nat_alt)
      then show ?thesis using t e fits by (simp add: readKind_def)
    next
      assume t: "(st, lt, k) = (0xC0, 0xF7, List)"
      with ut p have "\<not> b < 0x80" "\<not> b < 0xB8" "\<not> b < 0xC0" "\<not> b < 0xF8"
        by (simp_all add: b_def word_less_nat_alt)
      then show ?thesis using t e fits by (simp add: readKind_def)
    qed
  qed
qed



subsection \<open>Splitting and framing are inverse\<close>

lemma readKind_Byte: "b < 0x80 \<Longrightarrow> length bs < 2 ^ 64 - 1 \<Longrightarrow> readKind (b # bs) = Inr (Byte, 0, 1)"
proof -
  assume b: "b < 0x80" and l: "length bs < 2 ^ 64 - 1"
  have "unat (word_of_nat (length (b # bs)) :: u64) = Suc (length bs)"
    using l unat_of_nat [where 'a = 64, of "Suc (length bs)"] by simp
  then have "\<not> 1 > (word_of_nat (length (b # bs)) :: u64)" by (simp add: word_less_nat_alt)
  with b show ?thesis by (simp add: readKind_def)
qed

lemma readKind_frame:
  assumes "length (frame k c @ rest) < 2 ^ 64" and "frame_ok k c"
  shows "\<exists>t. readKind (frame k c @ rest) = Inr (k, word_of_nat t, word_of_nat (length c)) \<and>
    t + length c = length (frame k c) \<and> drop t (frame k c) = c"
proof (cases k)
  case Byte
  with assms obtain b where "c = [b]" "b < 0x80" by (auto simp: length_Suc_conv)
  with Byte assms readKind_Byte [of b rest] show ?thesis by (intro exI [of _ 0]) simp
next
  case String
  then show ?thesis using assms readKind_head [of "0x80" "0xB7" c rest String]
    by (intro exI [of _ "length (puthead 0x80 0xB7 (word_of_nat (length c)))"]) simp
next
  case List
  then show ?thesis using assms readKind_head [of "0xC0" "0xF7" c rest List]
    by (intro exI [of _ "length (puthead 0xC0 0xF7 (word_of_nat (length c)))"]) simp
qed

lemma Split_frame:
  assumes "length (frame k c @ rest) < 2 ^ 64" and "frame_ok k c"
  shows "Split (frame k c @ rest) = Inr (k, c, rest)"
proof -
  from readKind_frame [OF assms] obtain t where
    r: "readKind (frame k c @ rest) = Inr (k, word_of_nat t, word_of_nat (length c))"
    and t: "t + length c = length (frame k c)" "drop t (frame k c) = c" by blast
  have u: "unat (word_of_nat t :: u64) = t" "unat (word_of_nat (length c) :: u64) = length c"
    using t(1) assms(1) by (simp_all add: unat_of_nat)
  have "(word_of_nat t + word_of_nat (length c) :: u64) = word_of_nat (length (frame k c))"
    by (simp flip: t(1))
  then have "unat (word_of_nat t + word_of_nat (length c) :: u64) = length (frame k c)"
    using assms(1) by (simp add: unat_of_nat)
  moreover have "t - length (frame k c) = 0" using t(1) by simp
  moreover have "length (frame k c) - t = length c" using t(1) by simp
  ultimately show ?thesis using r u t(2) by (simp add: Split_def)
qed

lemma readSize_canon:
  assumes "readSize bs slen = Inr s" and "1 \<le> unat slen" "unat slen \<le> 8"
  shows "unat slen \<le> length bs" "putint s = take (unat slen) bs" "56 \<le> s"
proof -
  let ?k = "unat slen" and ?n = "be_nat (take (unat slen) bs)"
  have r: "?k \<le> length bs" "s = sizeBytes bs ?k" "\<not> s < 56" "bs ! 0 \<noteq> 0"
    using assms by (auto simp: readSize_def Let_def word_le_nat_alt split: if_splits)
  from r show "?k \<le> length bs" "56 \<le> s" by auto
  have bound: "?n < 256 ^ ?k" using be_nat_bound [of "take ?k bs"] r(1) by simp
  have "(256 :: nat) ^ ?k \<le> 256 ^ 8" using assms(3) by (intro power_increasing) auto
  with bound have "unat s = ?n" using r(1,2) by (simp add: sizeBytes_be unat_of_nat)
  moreover have "blen ?n = ?k"
  proof (rule blen_unique)
    obtain b bs' where b: "take ?k bs = b # bs'" "b \<noteq> 0"
      using assms(2) r(1,4) by (cases bs; cases ?k) auto
    then have "length bs' = ?k - 1" using r(1) by (metis diff_Suc_1 length_Cons length_take min.absorb2)
    moreover have "1 \<le> unat b" using b(2) by (simp add: unat_gt_0 Suc_le_eq)
    ultimately show "?k = 1 \<or> 256 ^ (?k - 1) \<le> ?n" by (simp add: b(1) be_nat_Cons trans_le_add1)
  qed (use bound assms(2) in auto)
  ultimately show "putint s = take ?k bs"
    using be_bytes_be_nat [of "take ?k bs"] r(1) by (simp add: putint_be)
qed

lemma ucast_ucast_byte [simp]: "(ucast (ucast (b :: byte) :: u64) :: byte) = b"
  by (rule bit_word_eqI) (simp add: bit_unsigned_iff)

lemma puthead_short: "unat (b - st) < 56 \<Longrightarrow> puthead st lt (ucast (b - st)) = [b]"
  by (simp add: puthead_def word_less_nat_alt)

lemma puthead_long:
  assumes "readSize bs (b - lt) = Inr cs" "1 \<le> unat (b - lt)" "unat (b - lt) \<le> 8"
  shows "puthead st lt cs = b # take (unat (b - lt)) bs"
proof -
  note c = readSize_canon [OF assms]
  then have "length (putint cs) = unat (b - lt)" by simp
  moreover have "\<not> cs < 56" using c(3) by simp
  ultimately show ?thesis using c(2) by (simp add: puthead_def Let_def)
qed

text \<open>
  An accepted header is the minimal one for the value behind it, and the value fits.  The
  header is described by the kind, the tags and the bytes it occupies.
\<close>

lemma head_frame:
  assumes "take (unat t) buf = puthead st lt c" "(st, lt, k) = (0x80, 0xB7, String) \<or> (st, lt, k) = (0xC0, 0xF7, List)"
    and "\<not> c > word_of_nat (length buf) - t" "unat t \<le> length buf" "length buf < 2 ^ 64"
  shows "unat t + unat c \<le> length buf \<and>
    frame k (take (unat c) (drop (unat t) buf)) = take (unat t + unat c) buf"
proof -
  have "unat (word_of_nat (length buf) - t) = length buf - unat t"
    using assms(4,5) by (subst unat_sub) (simp_all add: word_le_nat_alt unat_of_nat)
  then have fit: "unat t + unat c \<le> length buf" using assms(3,4) by (simp add: word_less_nat_alt not_less)
  then have "length (take (unat c) (drop (unat t) buf)) = unat c" by simp
  then have "frame k (take (unat c) (drop (unat t) buf)) = puthead st lt c @ take (unat c) (drop (unat t) buf)"
    using assms(2) by auto
  with fit assms(1) show ?thesis by (simp add: take_add)
qed

lemma unat_tag_diff: "lo \<le> (b :: byte) \<Longrightarrow> unat (b - lo) = unat b - unat lo"
  by (simp add: unat_sub)

lemma readKind_canon:
  assumes "readKind buf = Inr (k, t, c)" and "length buf < 2 ^ 64"
  shows "unat t + unat c \<le> length buf \<and>
    frame k (take (unat c) (drop (unat t) buf)) = take (unat t + unat c) buf \<and>
    frame_ok k (take (unat c) (drop (unat t) buf))"
proof -
  obtain b bs where buf: "buf = b # bs" using assms(1) by (cases buf) (simp_all add: readKind_def)
  have fit: "\<not> c > word_of_nat (length buf) - t"
    using assms(1) buf by (simp add: readKind_def Let_def split: sum.splits if_splits prod.splits) auto
  consider (byte) "b < 0x80" | (short) "\<not> b < 0x80" "b < 0xB8" | (long) "\<not> b < 0xB8" "b < 0xC0"
    | (shortl) "\<not> b < 0xC0" "b < 0xF8" | (longl) "\<not> b < 0xF8" by blast
  then show ?thesis
  proof cases
    case byte
    then show ?thesis using assms(1) buf by (simp add: readKind_def split: if_splits)
  next
    case short
    then have u: "unat (b - 0x80) < 56" by (simp add: unat_tag_diff word_less_nat_alt not_less word_le_nat_alt)
    have r: "k = String" "t = 1" "c = ucast (b - 0x80)" "\<not> (c = 1 \<and> length buf > 1 \<and> buf ! 1 < 128)"
      using assms(1) buf short by (auto simp: readKind_def Let_def split: if_splits)
    then have h: "take (unat t) buf = puthead 0x80 0xB7 c" using puthead_short [OF u] buf by simp
    have "unat t \<le> length buf" using r buf by simp
    from head_frame [OF h disjI1 [OF refl] fit this assms(2)] have
      f: "unat t + unat c \<le> length buf" "frame k (take (unat c) (drop (unat t) buf)) = take (unat t + unat c) buf"
      unfolding r(1) by blast+
    moreover have "frame_ok k (take (unat c) (drop (unat t) buf))"
      using r buf f(1) by (auto simp: min_def word_unat_eq_iff split: if_splits)
    ultimately show ?thesis by blast
  next
    case long
    then have u: "1 \<le> unat (b - 0xB7)" "unat (b - 0xB7) \<le> 8"
      by (simp_all add: unat_tag_diff word_less_nat_alt not_less word_le_nat_alt)
    have r: "k = String" "t = ucast (b - 0xB7) + 1" "readSize bs (b - 0xB7) = Inr c"
      using assms(1) buf long by (auto simp: readKind_def Let_def word_less_nat_alt split: if_splits sum.splits)
    note ca = readSize_canon [OF r(3) u]
    have ut: "unat t = Suc (unat (b - 0xB7))" using u(2) unfolding r(2) by (simp add: unat_word_ariths)
    then have h: "take (unat t) buf = puthead 0x80 0xB7 c" using puthead_long [OF r(3) u] buf by simp
    have "unat t \<le> length buf" using buf ut ca(1) by simp
    from head_frame [OF h disjI1 [OF refl] fit this assms(2)] have
      f: "unat t + unat c \<le> length buf" "frame k (take (unat c) (drop (unat t) buf)) = take (unat t + unat c) buf"
      unfolding r(1) by blast+
    moreover have "frame_ok k (take (unat c) (drop (unat t) buf))"
      using r(1) ca(3) f(1) by (auto simp: word_le_nat_alt)
    ultimately show ?thesis by blast
  next
    case shortl
    then have u: "unat (b - 0xC0) < 56" by (simp add: unat_tag_diff word_less_nat_alt not_less word_le_nat_alt)
    have r: "k = List" "t = 1" "c = ucast (b - 0xC0)"
      using assms(1) buf shortl by (auto simp: readKind_def Let_def word_less_nat_alt split: if_splits)
    then have h: "take (unat t) buf = puthead 0xC0 0xF7 c" using puthead_short [OF u] buf by simp
    have "unat t \<le> length buf" using r buf by simp
    from head_frame [OF h disjI2 [OF refl] fit this assms(2)] show ?thesis unfolding r(1) by simp
  next
    case longl
    have "unat b < 256" using unsigned_less [of b] by simp
    with longl have u: "1 \<le> unat (b - 0xF7)" "unat (b - 0xF7) \<le> 8"
      by (simp_all add: unat_tag_diff word_less_nat_alt not_less word_le_nat_alt)
    have r: "k = List" "t = ucast (b - 0xF7) + 1" "readSize bs (b - 0xF7) = Inr c"
      using assms(1) buf longl by (auto simp: readKind_def Let_def word_less_nat_alt split: if_splits sum.splits)
    have ut: "unat t = Suc (unat (b - 0xF7))" using u(2) unfolding r(2) by (simp add: unat_word_ariths)
    then have h: "take (unat t) buf = puthead 0xC0 0xF7 c" using puthead_long [OF r(3) u] buf by simp
    have "unat t \<le> length buf" using buf ut readSize_canon(1) [OF r(3) u] by simp
    from head_frame [OF h disjI2 [OF refl] fit this assms(2)] show ?thesis unfolding r(1) by simp
  qed
qed

lemma frame_nonempty: "frame_ok k c \<Longrightarrow> frame k c \<noteq> []"
  by (cases k) (auto simp: puthead_def Let_def)

lemma readKind_advance:
  assumes "readKind b = Inr (k, t, c)" and "length b < 2 ^ 64"
  shows "unat (t + c) = unat t + unat c" "unat t + unat c \<le> length b" "0 < unat t + unat c"
proof -
  note r = readKind_canon [OF assms]
  then show le: "unat t + unat c \<le> length b" by simp
  with assms(2) show "unat (t + c) = unat t + unat c" by (simp add: unat_word_ariths)
  have "take (unat t + unat c) b \<noteq> []" using r frame_nonempty by metis
  then show "0 < unat t + unat c" by auto
qed

lemma Split_canon:
  assumes "Split b = Inr (k, c, rest)" and "length b < 2 ^ 64"
  shows "b = frame k c @ rest" "frame_ok k c"
proof -
  from assms(1) obtain t n where r: "readKind b = Inr (k, t, n)"
    and c: "c = take (unat n) (drop (unat t) b)" "rest = drop (unat (t + n)) b"
    by (auto simp: Split_def split: sum.splits)
  show "b = frame k c @ rest" "frame_ok k c"
    using readKind_canon [OF r assms(2)] readKind_advance(1) [OF r assms(2)] c by simp_all
qed

text \<open>
  C26: \<open>Split\<close> accepts exactly the canonical framings: on an input of a representable length it
  returns kind, content and rest precisely when the input is the content in its minimal frame
  followed by the rest.  Two different contents or kinds therefore never share an encoding, and
  no encoding with a superfluous size byte is accepted.
\<close>

theorem Split_iff:
  assumes "length b < 2 ^ 64"
  shows "Split b = Inr (k, c, rest) \<longleftrightarrow> b = frame k c @ rest \<and> frame_ok k c"
  using assms Split_canon Split_frame by blast

theorem Split_iff_witness:
  "Split [0x82, 0x61, 0x62, 0xC0] = Inr (String, [0x61, 0x62], [0xC0])"
proof -
  have "[0x82, 0x61, 0x62, 0xC0] = frame String [0x61, 0x62] @ [0xC0] \<and> frame_ok String [0x61, 0x62 :: byte]"
    by (simp add: puthead_def)
  then show ?thesis using Split_iff [of "[0x82, 0x61, 0x62, 0xC0]" String "[0x61, 0x62]" "[0xC0]"] by simp
qed

lemma countFrom_frames:
  assumes "length b < 2 ^ 64" and "length b < fuel"
  shows "(\<exists>r. countFrom fuel i b = Some r) \<and>
    (countFrom fuel i b = Some (Inr m) \<longleftrightarrow>
       (\<exists>ws. b = concat ws \<and> m = i + length ws \<and> (\<forall>w\<in>set ws. \<exists>k c. w = frame k c \<and> frame_ok k c)))"
  using assms
proof (induction fuel arbitrary: i b)
  case (Suc fuel)
  show ?case
  proof (cases "b = []")
    case True
    have "ws = []" if "concat ws = []" "\<forall>w\<in>set ws. \<exists>k c. w = frame k c \<and> frame_ok k c" for ws
      using that frame_nonempty by (cases ws) (auto, metis)
    with True show ?thesis by (auto intro: exI [of _ "[]"])
  next
    case ne: False
    show ?thesis
    proof (cases "readKind b")
      case (Inl e)
      have "\<not> (\<exists>ws. b = concat ws \<and> (\<forall>w\<in>set ws. \<exists>k c. w = frame k c \<and> frame_ok k c))"
      proof
        assume "\<exists>ws. b = concat ws \<and> (\<forall>w\<in>set ws. \<exists>k c. w = frame k c \<and> frame_ok k c)"
        then obtain ws where ws: "b = concat ws" "\<forall>w\<in>set ws. \<exists>k c. w = frame k c \<and> frame_ok k c" by blast
        with ne obtain w ws' where "ws = w # ws'" by (cases ws) auto
        with ws obtain k c where "b = frame k c @ concat ws'" "frame_ok k c" by auto
        with readKind_frame [of k c "concat ws'"] Suc.prems(1) Inl show False by auto
      qed
      with Inl ne show ?thesis by auto
    next
      case (Inr ktn)
      then obtain k t n where r: "readKind b = Inr (k, t, n)" by (metis prod_cases3)
      define q where "q = unat t + unat n"
      have a: "unat (t + n) = q" "q \<le> length b" "0 < q"
        using readKind_advance [OF r Suc.prems(1)] by (simp_all add: q_def)
      define c where "c = take (unat n) (drop (unat t) b)"
      have f: "frame k c = take q b" "frame_ok k c"
        using readKind_canon [OF r Suc.prems(1)] by (simp_all add: c_def q_def)
      have step: "countFrom (Suc fuel) i b = countFrom fuel (i + 1) (drop q b)" using ne r a(1) by simp
      have l: "length (drop q b) < 2 ^ 64" "length (drop q b) < fuel" using Suc.prems a by auto
      have eq: "(\<exists>ws. b = concat ws \<and> m = i + length ws \<and> (\<forall>w\<in>set ws. \<exists>k c. w = frame k c \<and> frame_ok k c)) \<longleftrightarrow>
        (\<exists>ws. drop q b = concat ws \<and> m = i + 1 + length ws \<and> (\<forall>w\<in>set ws. \<exists>k c. w = frame k c \<and> frame_ok k c))"
        (is "?L \<longleftrightarrow> ?R")
      proof
        assume ?L
        then obtain ws where ws: "b = concat ws" "m = i + length ws" "\<forall>w\<in>set ws. \<exists>k c. w = frame k c \<and> frame_ok k c"
          by blast
        with ne obtain w ws' where w: "ws = w # ws'" by (cases ws) auto
        with ws obtain k' c' where kc: "w = frame k' c'" "frame_ok k' c'" by auto
        then have "b = frame k' c' @ concat ws'" using ws w by simp
        with kc(2) Suc.prems(1) have "Split b = Inr (k', c', concat ws')" using Split_frame by blast
        then have "drop q b = concat ws'" using r a(1) by (simp add: Split_def)
        with ws w show ?R by auto
      next
        assume ?R
        then obtain ws where ws: "drop q b = concat ws" "m = i + 1 + length ws"
          "\<forall>w\<in>set ws. \<exists>k c. w = frame k c \<and> frame_ok k c" by blast
        then have "b = concat (take q b # ws)" by (metis append_take_drop_id concat.simps(2))
        moreover have "\<exists>k c. take q b = frame k c \<and> frame_ok k c" using f by metis
        ultimately show ?L using ws by (intro exI [of _ "take q b # ws"]) auto
      qed
      show ?thesis unfolding step eq by (rule Suc.IH [OF l])
    qed
  qed
qed simp

text \<open>
  C27: \<open>CountValues\<close> ends on every input and counts exactly: it returns \<open>n\<close> precisely when the
  input is a concatenation of \<open>n\<close> canonically framed values, and an error otherwise.
\<close>

theorem CountValues_exact:
  assumes "length b < 2 ^ 64"
  shows "(\<exists>r. CountValues b = Some r) \<and>
    (CountValues b = Some (Inr m) \<longleftrightarrow>
       (\<exists>ws. b = concat ws \<and> m = length ws \<and> (\<forall>w\<in>set ws. \<exists>k c. w = frame k c \<and> frame_ok k c)))"
  unfolding CountValues_def using countFrom_frames [OF assms, of "Suc (length b)" 0 m] by simp

theorem CountValues_exact_witness: "CountValues [0x01, 0x82, 0x61, 0x62, 0xC0] = Some (Inr 3)"
proof -
  have "[0x01, 0x82, 0x61, 0x62, 0xC0] = concat [frame Byte [0x01], frame String [0x61, 0x62], frame List []]"
    by (simp add: puthead_def)
  moreover have "frame_ok k c \<Longrightarrow> \<exists>k' c'. frame k c = frame k' c' \<and> frame_ok k' c'" for k c by blast
  ultimately have "\<exists>ws. [0x01, 0x82, 0x61, 0x62, 0xC0 :: byte] = concat ws \<and> 3 = length ws \<and>
      (\<forall>w\<in>set ws. \<exists>k c. w = frame k c \<and> frame_ok k c)"
    by (intro exI [of _ "[frame Byte [0x01], frame String [0x61, 0x62], frame List []]"])
      (simp del: frame.simps)
  then show ?thesis using CountValues_exact [of "[0x01, 0x82, 0x61, 0x62, 0xC0]" 3] by simp
qed

subsection \<open>Integers\<close>

lemma be_nat_minimal:
  assumes "c \<noteq> []" "c ! 0 \<noteq> 0"
  shows "int_bytes (be_nat c) = c"
proof -
  obtain b bs where c: "c = b # bs" using assms(1) by (cases c) auto
  have b: "1 \<le> unat b" using assms(2) c by (simp add: unat_gt_0 Suc_le_eq)
  have "blen (be_nat c) = length c"
  proof (rule blen_unique)
    show "length c = 1 \<or> 256 ^ (length c - 1) \<le> be_nat c" using b by (simp add: c be_nat_Cons trans_le_add1)
  qed (use be_nat_bound assms(1) in auto)
  moreover have "be_nat c \<noteq> 0" using b by (simp add: c be_nat_Cons)
  ultimately show ?thesis by (simp add: int_bytes_def be_bytes_be_nat)
qed

lemma frame_encStr: "frame_ok k c \<Longrightarrow> k \<noteq> List \<Longrightarrow> frame k c = encStr c"
  by (cases k) auto

lemma Split_encStr:
  assumes "length (encStr c @ rest) < 2 ^ 64"
  shows "\<exists>k. k \<noteq> List \<and> Split (encStr c @ rest) = Inr (k, c, rest)"
proof (cases "length c = 1 \<and> c ! 0 < 0x80")
  case True
  then show ?thesis using Split_frame [of Byte c rest] assms by (intro exI [of _ Byte]) simp
next
  case False
  then have "encStr c = frame String c" "frame_ok String c" by auto
  then show ?thesis using Split_frame [of String c rest] assms
    by (intro exI [of _ String]) (simp del: encStr.simps frame.simps)
qed

lemma SplitString_iff:
  assumes "length b < 2 ^ 64"
  shows "SplitString b = Inr (c, rest) \<longleftrightarrow> b = encStr c @ rest"
proof
  assume "SplitString b = Inr (c, rest)"
  then obtain k where "Split b = Inr (k, c, rest)" "k \<noteq> List"
    by (auto simp: SplitString_def split: sum.splits if_splits)
  with Split_canon [OF _ assms] frame_encStr show "b = encStr c @ rest" by metis
next
  assume b: "b = encStr c @ rest"
  from Split_encStr [of c rest] assms obtain k where "k \<noteq> List" "Split b = Inr (k, c, rest)" unfolding b by auto
  then show "SplitString b = Inr (c, rest)" by (simp add: SplitString_def)
qed

lemma readSize_int:
  assumes "1 < length c" "length c \<le> 8"
  shows "readSize c (word_of_nat (length c)) = (if c ! 0 = 0 then Inl ErrCanonSize else Inr (word_of_nat (be_nat c)))"
proof -
  let ?k = "word_of_nat (length c) :: byte"
  have k: "unat ?k = length c" "1 \<le> ?k \<and> ?k \<le> 8" using assms by (simp_all add: unat_of_nat word_le_nat_alt)
  have "\<not> (word_of_nat (be_nat c) :: u64) < 56" if nz: "c ! 0 \<noteq> 0"
  proof -
    obtain b bs where c: "c = b # bs" "bs \<noteq> []" using assms(1) by (cases c) auto
    have b: "1 \<le> unat b" using nz c by (simp add: unat_gt_0 Suc_le_eq)
    have "256 ^ 1 \<le> (256 :: nat) ^ length bs" using c(2) by (intro power_increasing) (auto simp: Suc_le_eq)
    also have "\<dots> \<le> be_nat c" using b by (simp add: c be_nat_Cons trans_le_add1)
    finally have ge: "256 \<le> be_nat c" by simp
    have "(256 :: nat) ^ length c \<le> 256 ^ 8" using assms(2) by (intro power_increasing) auto
    with be_nat_bound [of c] have "be_nat c < 2 ^ 64" by simp
    with ge show ?thesis by (simp add: word_less_nat_alt unat_of_nat)
  qed
  then show ?thesis using k by (auto simp: readSize_def Let_def sizeBytes_be)
qed

lemma int_bytes_head: "c \<noteq> [] \<Longrightarrow> c ! 0 = 0 \<Longrightarrow> int_bytes (unat (x :: u64)) \<noteq> c"
  using putint_head [of x] by (cases "x = 0") (auto simp: int_bytes_unat)

lemma int_bytes_iff:
  assumes "c \<noteq> []" "length c \<le> 8" "c ! 0 \<noteq> 0"
  shows "word_of_nat (be_nat c) = (x :: u64) \<longleftrightarrow> c = int_bytes (unat x)"
proof
  have "(256 :: nat) ^ length c \<le> 256 ^ 8" using assms(2) by (intro power_increasing) auto
  with be_nat_bound [of c] have "be_nat c < 2 ^ 64" by simp
  moreover assume "word_of_nat (be_nat c) = x"
  ultimately have "unat x = be_nat c" by (auto simp: unat_of_nat)
  with be_nat_minimal [OF assms(1,3)] show "c = int_bytes (unat x)" by simp
next
  assume e: "c = int_bytes (unat x)"
  then have "x \<noteq> 0" using assms(1) by (auto simp: int_bytes_def)
  with e be_nat_putint [of x] show "word_of_nat (be_nat c) = x" by (simp add: int_bytes_unat)
qed

lemma SplitUint64_content:
  assumes "SplitString b = Inr (c, rest)"
  shows "SplitUint64 b = Inr (x, rest) \<longleftrightarrow> c = int_bytes (unat x)"
proof -
  consider (0) "c = []" | (zero) "c \<noteq> []" "length c \<le> 8" "c ! 0 = 0" | (1) "length c = 1" "c ! 0 \<noteq> 0"
    | (m) "1 < length c" "length c \<le> 8" "c ! 0 \<noteq> 0" | (l) "8 < length c"
    by (cases c) fastforce+
  then show ?thesis
  proof cases
    case 0
    have "int_bytes (unat x) = [] \<longleftrightarrow> x = 0"
      using length_putint_bounds(1) [of x] by (cases "x = 0") (auto simp: int_bytes_unat)
    with 0 assms show ?thesis by (auto simp: SplitUint64_def)
  next
    case zero
    moreover have "1 < length c \<or> length c = 1" using zero(1) by (cases c) auto
    ultimately have "SplitUint64 b = Inl ErrCanonInt"
      using assms readSize_int [of c] by (elim disjE) (simp_all add: SplitUint64_def)
    with int_bytes_head [OF zero(1,3), of x] show ?thesis by auto
  next
    case 1
    then obtain a where c: "c = [a]" by (auto simp: length_Suc_conv)
    have "(word_of_nat (be_nat c) :: u64) = ucast a" by (simp add: c be_nat_Cons)
    with int_bytes_iff [of c x] 1 c assms show ?thesis by (auto simp: SplitUint64_def)
  next
    case m
    then show ?thesis using assms readSize_int [of c] int_bytes_iff [of c x] by (auto simp: SplitUint64_def)
  next
    case l
    then have "c \<noteq> int_bytes (unat x)" using length_int_bytes_64 [of x] by auto
    then show ?thesis using assms l by (auto simp: SplitUint64_def)
  qed
qed

text \<open>
  C28: Integers: \<open>SplitUint64\<close> accepts exactly what \<open>AppendUint64\<close> writes, for every 64-bit
  value and every continuation; in particular leading zero bytes and longer forms are refused.
\<close>

theorem SplitUint64_AppendUint64:
  assumes "length b < 2 ^ 64"
  shows "SplitUint64 b = Inr (x, rest) \<longleftrightarrow> b = AppendUint64 [] x @ rest"
proof
  assume s: "SplitUint64 b = Inr (x, rest)"
  then obtain c where "SplitString b = Inr (c, rest)" by (auto simp: SplitUint64_def split: sum.splits if_splits)
  then have "b = encStr c @ rest" "c = int_bytes (unat x)"
    using SplitString_iff [OF assms] SplitUint64_content s by blast+
  then show "b = AppendUint64 [] x @ rest" by (simp add: AppendUint64_enc del: encStr.simps)
next
  assume "b = AppendUint64 [] x @ rest"
  then have "SplitString b = Inr (int_bytes (unat x), rest)"
    using SplitString_iff [OF assms] by (simp add: AppendUint64_enc del: encStr.simps)
  with SplitUint64_content [OF this] show "SplitUint64 b = Inr (x, rest)" by simp
qed

theorem SplitUint64_AppendUint64_witness: "SplitUint64 [0x82, 0x04, 0x00, 0x07] = Inr (1024, [0x07])"
proof -
  have "[0x82, 0x04, 0x00, 0x07] = AppendUint64 [] 1024 @ [0x07]" by code_simp
  then show ?thesis using SplitUint64_AppendUint64 [of "[0x82, 0x04, 0x00, 0x07]" 1024 "[0x07]"] by simp
qed

subsection \<open>Announced sizes\<close>

lemma encStr_length:
  assumes "length b < 2 ^ 63"
  shows "length (encStr b) = (if length b = 1 \<and> b ! 0 < 0x80 then 1 else headsize (word_of_nat (length b)) + length b)"
  by (auto simp: length_puthead)

text \<open>
  C29: The size functions announce the sizes of the encodings: \<open>IntSize\<close> for integers,
  \<open>BytesSize\<close> for strings, \<open>ListSize\<close> for a list whose content has the given length.
\<close>

theorem sizes_exact:
  assumes "length b < 2 ^ 63"
  shows "IntSize x = length (AppendUint64 [] x) \<and> unat (BytesSize b) = length (encStr b) \<and>
    unat (ListSize (word_of_nat (length b))) = length (frame List b)"
proof (intro conjI)
  show "IntSize x = length (AppendUint64 [] x)"
    unfolding AppendUint64_enc encStr_int
    by (auto simp: IntSize_def length_putint intsize_blen word_less_nat_alt)
  have hs: "headsize (word_of_nat (length b)) \<le> 9"
    using length_putint_bounds(2) [of "word_of_nat (length b)"]
    by (simp add: headsize_def intsize_blen length_putint)
  have c: "b ! 0 \<le> 0x7f \<longleftrightarrow> b ! 0 < 0x80" by (auto simp: word_le_nat_alt word_less_nat_alt)
  have "headsize 0 = 1" "headsize 1 = 1" by (simp_all add: headsize_def)
  then show "unat (BytesSize b) = length (encStr b)"
    using assms hs unat_of_nat [where 'a = 64, of "headsize (word_of_nat (length b)) + length b"]
    by (auto simp: BytesSize_def c encStr_length simp del: encStr.simps of_nat_add)
  have "ListSize (word_of_nat (length b)) = word_of_nat (headsize (word_of_nat (length b)) + length b)"
    by (simp add: ListSize_def)
  then show "unat (ListSize (word_of_nat (length b))) = length (frame List b)"
    using assms hs by (simp add: unat_of_nat length_puthead del: of_nat_add)
qed

theorem sizes_exact_witness:
  "IntSize 1024 = length (AppendUint64 [] 1024) \<and> unat (BytesSize [0x90]) = length (encStr [0x90]) \<and>
   unat (ListSize 1) = length (frame List [0x90])"
  using sizes_exact [of "[0x90]" 1024] by (simp del: frame.simps encStr.simps)

subsection \<open>The list iterator\<close>

text \<open>The values an iterator yields, one \<open>Next\<close> after the other.\<close>

fun it_run :: "nat \<Rightarrow> listIterator \<Rightarrow> (byte list \<times> rlp_err option) list" where
  "it_run 0 it = []"
| "it_run (Suc n) it =
     (case it_Next it of (False, it) \<Rightarrow> [] | (True, it) \<Rightarrow> (it_next it, it_err it) # it_run n it)"

lemma it_Next_frame:
  assumes "it_data it = frame k c @ rest" "frame_ok k c" "length (it_data it) < 2 ^ 64"
  shows "it_Next it = (True, it\<lparr> it_next := frame k c, it_data := rest, it_err := None \<rparr>)"
proof -
  from readKind_frame [of k c rest] assms obtain t where
    r: "readKind (it_data it) = Inr (k, word_of_nat t, word_of_nat (length c))" "t + length c = length (frame k c)"
    by auto
  have "(word_of_nat t + word_of_nat (length c) :: u64) = word_of_nat (length (frame k c))"
    by (simp flip: r(2))
  then have "unat (word_of_nat t + word_of_nat (length c) :: u64) = length (frame k c)"
    using assms(1,3) by (simp add: unat_of_nat)
  moreover have "it_data it \<noteq> []" using frame_nonempty [OF assms(2)] assms(1) by simp
  ultimately show ?thesis using r(1) assms(1) by (simp add: it_Next_def)
qed

lemma it_run_frames:
  assumes "\<forall>w\<in>set ws. \<exists>k c. w = frame k c \<and> frame_ok k c" "it_data it = concat ws"
    and "length (it_data it) < 2 ^ 64" "length ws < n"
  shows "it_run n it = map (\<lambda>w. (w, None)) ws"
  using assms
proof (induction ws arbitrary: it n)
  case Nil
  then show ?case by (cases n) (simp_all add: it_Next_def)
next
  case (Cons w ws)
  then obtain k c m where kc: "w = frame k c" "frame_ok k c" and n: "n = Suc m" by (cases n) auto
  have "it_Next it = (True, it\<lparr> it_next := frame k c, it_data := concat ws, it_err := None \<rparr>)"
    using Cons.prems kc by (intro it_Next_frame) auto
  moreover have "it_run m (it\<lparr> it_next := frame k c, it_data := concat ws, it_err := None \<rparr>) = map (\<lambda>w. (w, None)) ws"
    using Cons.prems n by (intro Cons.IH) auto
  ultimately show ?case using n kc by simp
qed

text \<open>
  C30: Iterating over an encoded list yields its elements in order, each with its own header and
  without an error, and then stops.
\<close>

theorem iterator_yields_elements:
  assumes "\<forall>w\<in>set ws. \<exists>k c. w = frame k c \<and> frame_ok k c" and "length (frame List (concat ws) @ rest) < 2 ^ 64"
    and "length ws < n"
  shows "\<exists>it. NewListIterator (frame List (concat ws) @ rest) = Inr it \<and> it_run n it = map (\<lambda>w. (w, None)) ws"
proof -
  from readKind_frame [of List "concat ws" rest] assms(2) obtain t where
    r: "readKind (frame List (concat ws) @ rest) = Inr (List, word_of_nat t, word_of_nat (length (concat ws)))"
    and t: "t + length (concat ws) = length (frame List (concat ws))" "drop t (frame List (concat ws)) = concat ws"
    by auto
  have u: "unat (word_of_nat t :: u64) = t" "unat (word_of_nat (length (concat ws)) :: u64) = length (concat ws)"
    using t(1) assms(2) by (simp_all add: unat_of_nat del: length_concat)
  have z: "t - length (frame List (concat ws)) = 0" "length (frame List (concat ws)) - t = length (concat ws)"
    using t(1) by simp_all
  define it where "it = \<lparr> it_data = concat ws, it_next = [], it_err = None \<rparr>"
  have "NewListIterator (frame List (concat ws) @ rest) = Inr it"
    unfolding NewListIterator_def r using u t(2) z by (simp add: it_def del: frame.simps length_concat)
  moreover have "it_run n it = map (\<lambda>w. (w, None)) ws"
    using assms by (intro it_run_frames) (auto simp: it_def)
  ultimately show ?thesis by blast
qed

theorem iterator_yields_elements_witness:
  "\<exists>it. NewListIterator [0xC3, 0x01, 0x81, 0xFF] = Inr it \<and> it_run 3 it = [([0x01], None), ([0x81, 0xFF], None)]"
proof -
  have e: "frame List (concat [frame Byte [0x01], frame String [0xFF]]) @ [] = [0xC3, 0x01, 0x81, 0xFF]"
    by (simp add: puthead_def)
  have f: "frame Byte [0x01] = [0x01]" "frame String [0xFF] = [0x81, 0xFF]" by (simp_all add: puthead_def)
  have "\<forall>w\<in>set [frame Byte [0x01], frame String [0xFF]]. \<exists>k c. w = frame k c \<and> frame_ok k c"
  proof -
    have "frame_ok k c \<Longrightarrow> \<exists>k' c'. frame k c = frame k' c' \<and> frame_ok k' c'" for k c by blast
    then show ?thesis by (simp del: frame.simps)
  qed
  from iterator_yields_elements [OF this, of "[]" 3] show ?thesis unfolding e f by (simp add: puthead_def)
qed

end
