(* ===== verification/Rlp_Types.thy ===== *)
theory Rlp_Types
  imports Rlp_Raw
begin

text \<open>
  Encoding by Go type: the struct tags of \<open>rlp/internal/rlpstruct\<close>, the type information of
  \<open>rlp/typecache.go\<close> and the writers that \<open>makeWriter\<close> of \<open>rlp/encode.go\<close> selects by reflection.

  A Go type is a \<open>gtype\<close>, a value of it a \<open>gval\<close>.  Types are finite trees: the cache that ties
  the knot for recursive types is replaced by recursion over the value.  Types with their own
  \<open>EncodeRLP\<close> or \<open>DecodeRLP\<close> and \<open>uint256.Int\<close> are left out; \<open>TOther\<close> stands for the kinds the
  package refuses.
\<close>

record sfield =
  sf_name :: string
  sf_exported :: bool
  sf_tag :: string

datatype gtype = TRaw | TBig | TUint nat | TBool | TString | TSlice gtype | TArray nat gtype
  | TStruct "(sfield \<times> gtype) list" | TPtr gtype | TInterface | TOther

text \<open>
  Values.  \<open>VNil\<close> is a nil slice, pointer or interface; \<open>VBytes\<close> the content of a string, byte
  slice or byte array; \<open>VSeq\<close> the elements of a slice or array or the fields of a struct;
  \<open>VIface\<close> an interface holding a value of the given dynamic type.
\<close>

datatype gval = VUint u64 | VBool bool | VBytes "byte list" | VBig int | VNil | VPtr gval | VSeq "gval list"
  | VIface gtype gval

subsection \<open>Struct tags\<close>

datatype NilKind = NilKindString | NilKindList

record Tags =
  nilKind :: "NilKind option"
  NilOK :: bool
  Optional :: bool
  Tail :: bool
  Ignored :: bool

definition noTags :: Tags where
  "noTags = \<lparr> nilKind = None, NilOK = False, Optional = False, Tail = False, Ignored = False \<rparr>"

definition isByte :: "gtype \<Rightarrow> bool" where
  "isByte t = (t = TUint 8)"

definition isByteArray :: "gtype \<Rightarrow> bool" where
  "isByteArray t = (case t of TRaw \<Rightarrow> True | TSlice e \<Rightarrow> isByte e | TArray n e \<Rightarrow> isByte e | _ \<Rightarrow> False)"

definition DefaultNilValue :: "gtype \<Rightarrow> NilKind" where
  "DefaultNilValue t =
     (if (case t of TUint n \<Rightarrow> True | TString \<Rightarrow> True | TBool \<Rightarrow> True | _ \<Rightarrow> isByteArray t)
      then NilKindString else NilKindList)"

text \<open>\<open>strings.Split\<close> and \<open>strings.TrimSpace\<close> on ASCII text.\<close>

fun splitOn :: "char \<Rightarrow> string \<Rightarrow> string list" where
  "splitOn c [] = [[]]"
| "splitOn c (x # xs) =
     (if x = c then [] # splitOn c xs else (case splitOn c xs of [] \<Rightarrow> [[x]] | w # ws \<Rightarrow> (x # w) # ws))"

definition isSpace :: "char \<Rightarrow> bool" where
  "isSpace c = (c \<in> {CHR 0x09, CHR 0x0A, CHR 0x0B, CHR 0x0C, CHR 0x0D, CHR '' ''})"

definition TrimSpace :: "string \<Rightarrow> string" where
  "TrimSpace s = rev (dropWhile isSpace (rev (dropWhile isSpace s)))"

text \<open>\<open>isLast\<close> is \<open>field.Index == lastPublic\<close>.\<close>

fun parseTagList :: "gtype \<Rightarrow> bool \<Rightarrow> string list \<Rightarrow> Tags \<Rightarrow> tag_err + Tags" where
  "parseTagList t isLast [] ts = Inr ts"
| "parseTagList t isLast (w # ws) ts =
     (let w = TrimSpace w in
      if w = '''' then parseTagList t isLast ws ts
      else if w = ''-'' then parseTagList t isLast ws (ts\<lparr> Ignored := True \<rparr>)
      else if w = ''nil'' \<or> w = ''nilString'' \<or> w = ''nilList'' then
        (case t of
           TPtr e \<Rightarrow>
             let k = (if w = ''nil'' then DefaultNilValue e else if w = ''nilString'' then NilKindString else NilKindList)
             in parseTagList t isLast ws (ts\<lparr> NilOK := True, nilKind := Some k \<rparr>)
         | _ \<Rightarrow> Inl TagNotPointer)
      else if w = ''optional'' then
        if Tail ts then Inl TagAlsoTail else parseTagList t isLast ws (ts\<lparr> Optional := True \<rparr>)
      else if w = ''tail'' then
        if \<not> isLast then Inl TagNotLast
        else if Optional ts then Inl TagAlsoOptional
        else if \<not> (case t of TSlice e \<Rightarrow> True | TRaw \<Rightarrow> True | _ \<Rightarrow> False) then Inl TagNotSlice
        else parseTagList t isLast ws (ts\<lparr> Tail := True \<rparr>)
      else Inl TagUnknown)"

definition parseTag :: "sfield \<times> gtype \<Rightarrow> bool \<Rightarrow> tag_err + Tags" where
  "parseTag f isLast = parseTagList (snd f) isLast (splitOn (CHR '','') (sf_tag (fst f))) noTags"

definition lastPublicField :: "(sfield \<times> gtype) list \<Rightarrow> nat" where
  "lastPublicField flds = fold (\<lambda>i lp. if sf_exported (fst (flds ! i)) then i else lp) [0..<length flds] 0"

text \<open>
  \<open>ProcessFields\<close>: the tags of every field, \<open>None\<close> for the fields that are left out.
\<close>

fun gatherTags :: "nat \<Rightarrow> nat \<Rightarrow> (sfield \<times> gtype) list \<Rightarrow> tag_err + Tags option list" where
  "gatherTags lp i [] = Inr []"
| "gatherTags lp i (f # fs) =
     (if \<not> sf_exported (fst f) then map_sum id (\<lambda>tgs. None # tgs) (gatherTags lp (Suc i) fs)
      else
        (case parseTag f (i = lp) of
           Inl e \<Rightarrow> Inl e
         | Inr ts \<Rightarrow>
             map_sum id (\<lambda>tgs. (if Ignored ts then None else Some ts) # tgs) (gatherTags lp (Suc i) fs)))"

fun optionalOk :: "bool \<Rightarrow> Tags list \<Rightarrow> bool" where
  "optionalOk anyOptional [] = True"
| "optionalOk anyOptional (ts # tgs) =
     (if Optional ts \<or> Tail ts then optionalOk True tgs else \<not> anyOptional \<and> optionalOk anyOptional tgs)"

definition ProcessFields :: "(sfield \<times> gtype) list \<Rightarrow> tag_err + Tags option list" where
  "ProcessFields flds =
     (case gatherTags (lastPublicField flds) 0 flds of
        Inl e \<Rightarrow> Inl e
      | Inr tgs \<Rightarrow> if optionalOk False (map the (filter (\<lambda>x. x \<noteq> None) tgs)) then Inr tgs else Inl TagMustBeOptional)"

text \<open>The fields that take part, each with its tags.\<close>

fun selectFields :: "Tags option list \<Rightarrow> 'a list \<Rightarrow> (Tags \<times> 'a) list" where
  "selectFields (None # tgs) (x # xs) = selectFields tgs xs"
| "selectFields (Some ts # tgs) (x # xs) = (ts, x) # selectFields tgs xs"
| "selectFields tgs xs = []"

fun firstOptionalField :: "Tags list \<Rightarrow> nat" where
  "firstOptionalField [] = 0"
| "firstOptionalField (ts # tgs) = (if Optional ts then 0 else Suc (firstOptionalField tgs))"

definition typeNilKind :: "gtype \<Rightarrow> Tags \<Rightarrow> Kind" where
  "typeNilKind t tags =
     (case (if NilOK tags then nilKind tags else Some (DefaultNilValue t)) of
        Some NilKindList \<Rightarrow> List | _ \<Rightarrow> String)"

subsection \<open>Writers\<close>

text \<open>The error of \<open>makeWriter\<close>, recorded in the type information before anything is written.\<close>

fun firstErr :: "rlp_err option list \<Rightarrow> rlp_err option" where
  "firstErr [] = None"
| "firstErr (None # es) = firstErr es"
| "firstErr (Some e # es) = Some e"

fun writerErr :: "gtype \<Rightarrow> Tags \<Rightarrow> rlp_err option" where
  "writerErr TOther tg = Some ErrNotSerializable"
| "writerErr (TPtr e) tg = (if e = TBig then None else writerErr e noTags)"
| "writerErr (TSlice e) tg = (if isByte e then None else writerErr e noTags)"
| "writerErr (TArray n e) tg = (if isByte e then None else writerErr e noTags)"
| "writerErr (TStruct fs) tg =
     (case ProcessFields fs of
        Inl e \<Rightarrow> Some (ErrTag e)
      | Inr tgs \<Rightarrow> firstErr (map (\<lambda>(ts, err). err ts) (selectFields tgs (map (\<lambda>f. writerErr (snd f)) fs))))"
| "writerErr t tg = None"

text \<open>
  \<open>reflect.Value.IsZero\<close>.  A \<open>big.Int\<close> held by value is zero for it when both its fields are,
  so a zero number with an allocated word slice is not; the model has one zero number, the one
  \<open>new(big.Int)\<close> and \<open>SetInt64(0)\<close> on a fresh number give.
\<close>

fun isZero :: "gval \<Rightarrow> gtype \<Rightarrow> bool" where
  "isZero (VUint i) t = (i = 0)"
| "isZero (VBool b) t = (\<not> b)"
| "isZero (VBytes b) t =
     (case t of TString \<Rightarrow> b = [] | TArray n e \<Rightarrow> list_all (\<lambda>x. x = 0) b | _ \<Rightarrow> False)"
| "isZero (VBig i) t = (i = 0)"
| "isZero VNil t = True"
| "isZero (VPtr v) t = False"
| "isZero (VIface e v) t = False"
| "isZero (VSeq vs) t =
     (case t of
        TArray n e \<Rightarrow> list_all (\<lambda>z. z e) (map isZero vs)
      | TStruct fs \<Rightarrow> list_all (\<lambda>(z, t). z t) (zip (map isZero vs) (map snd fs))
      | _ \<Rightarrow> False)"

text \<open>
  How many of the fields the struct writer emits: all of them, or with optional fields up to
  the last one that is not zero.
\<close>

definition fieldCount :: "(Tags \<times> bool) list \<Rightarrow> nat" where
  "fieldCount flds =
     (let first = firstOptionalField (map fst flds) in
      if first = length flds then length flds
      else first + length (dropWhile snd (rev (drop first flds))))"

fun writeAll :: "(encBuffer \<Rightarrow> rlp_err + encBuffer) list \<Rightarrow> encBuffer \<Rightarrow> rlp_err + encBuffer" where
  "writeAll [] buf = Inr buf"
| "writeAll (w # ws) buf = (case w buf of Inl e \<Rightarrow> Inl e | Inr buf \<Rightarrow> writeAll ws buf)"

definition writeList :: "(encBuffer \<Rightarrow> rlp_err + encBuffer) list \<Rightarrow> encBuffer \<Rightarrow> rlp_err + encBuffer" where
  "writeList ws buf =
     (let (buf, listOffset) = list_start buf in
      case writeAll ws buf of Inl e \<Rightarrow> Inl e | Inr buf \<Rightarrow> Inr (listEnd listOffset buf))"

definition writeSlice :: "Tags \<Rightarrow> (encBuffer \<Rightarrow> rlp_err + encBuffer) list \<Rightarrow> encBuffer \<Rightarrow> rlp_err + encBuffer" where
  "writeSlice tg ws buf =
     (if Tail tg then writeAll ws buf
      else if length ws = 0 then Inr (buf_append [0xC0] buf)
      else writeList ws buf)"

text \<open>\<open>makeByteArrayWriter\<close> and \<open>writeString\<close>.\<close>

definition writeByteArray :: "byte list \<Rightarrow> encBuffer \<Rightarrow> encBuffer" where
  "writeByteArray b buf =
     (if length b = 0 then buf_append [0x80] buf
      else if length b = 1 then (if b ! 0 \<le> 0x7f then buf_append [b ! 0] buf else buf_append [0x81, b ! 0] buf)
      else buf_append b (encodeStringHeader (length b) buf))"

definition writeString :: "byte list \<Rightarrow> encBuffer \<Rightarrow> encBuffer" where
  "writeString s buf =
     (if length s = 1 \<and> s ! 0 \<le> 0x7f then buf_append [s ! 0] buf
      else buf_append s (encodeStringHeader (length s) buf))"

definition nilEncoding :: "gtype \<Rightarrow> Tags \<Rightarrow> byte" where
  "nilEncoding t tg = (if typeNilKind t tg = String then 0x80 else 0xC0)"

fun writeVal :: "gval \<Rightarrow> gtype \<Rightarrow> Tags \<Rightarrow> encBuffer \<Rightarrow> rlp_err + encBuffer" where
  "writeVal (VUint i) t tg buf = (case t of TUint n \<Rightarrow> Inr (writeUint64 i buf) | _ \<Rightarrow> Inl ErrIllTyped)"
| "writeVal (VBool b) t tg buf = (case t of TBool \<Rightarrow> Inr (writeBool b buf) | _ \<Rightarrow> Inl ErrIllTyped)"
| "writeVal (VBytes b) t tg buf =
     (case t of
        TRaw \<Rightarrow> Inr (buf_append b buf)
      | TString \<Rightarrow> Inr (writeString b buf)
      | TSlice e \<Rightarrow> if isByte e then Inr (writeBytes b buf) else Inl ErrIllTyped
      | TArray n e \<Rightarrow> if isByte e then Inr (writeByteArray b buf) else Inl ErrIllTyped
      | _ \<Rightarrow> Inl ErrIllTyped)"
| "writeVal (VBig i) t tg buf =
     (case t of TBig \<Rightarrow> if i < 0 then Inl ErrNegativeBigInt else Inr (writeBigInt i buf) | _ \<Rightarrow> Inl ErrIllTyped)"
| "writeVal VNil t tg buf =
     (case t of
        TRaw \<Rightarrow> Inr (buf_append [] buf)
      | TSlice e \<Rightarrow> if isByte e then Inr (writeBytes [] buf) else writeSlice tg [] buf
      | TPtr e \<Rightarrow> Inr (buf_append [if e = TBig then 0x80 else nilEncoding e tg] buf)
      | TInterface \<Rightarrow> Inr (buf_append [0xC0] buf)
      | _ \<Rightarrow> Inl ErrIllTyped)"
| "writeVal (VPtr v) t tg buf = (case t of TPtr e \<Rightarrow> writeVal v e noTags buf | _ \<Rightarrow> Inl ErrIllTyped)"
| "writeVal (VSeq vs) t tg buf =
     (case t of
        TSlice e \<Rightarrow> writeSlice tg (map (\<lambda>v. writeVal v e noTags) vs) buf
      | TArray n e \<Rightarrow> writeSlice tg (map (\<lambda>v. writeVal v e noTags) vs) buf
      | TStruct fs \<Rightarrow>
          (case ProcessFields fs of
             Inl e \<Rightarrow> Inl (ErrTag e)
           | Inr tgs \<Rightarrow>
               let flds = selectFields tgs (zip (map snd fs) (zip vs (map writeVal vs)));
                   n = fieldCount (map (\<lambda>(ts, t, v, w). (ts, isZero v t)) flds)
               in writeList (map (\<lambda>(ts, t, v, w). w t ts) (take n flds)) buf)
      | _ \<Rightarrow> Inl ErrIllTyped)"
| "writeVal (VIface e v) t tg buf =
     (case t of
        TInterface \<Rightarrow> (case writerErr e noTags of Some er \<Rightarrow> Inl er | None \<Rightarrow> writeVal v e noTags buf)
      | _ \<Rightarrow> Inl ErrIllTyped)"

definition encode :: "gtype \<Rightarrow> gval \<Rightarrow> encBuffer \<Rightarrow> rlp_err + encBuffer" where
  "encode t v buf = (case writerErr t noTags of Some e \<Rightarrow> Inl e | None \<Rightarrow> writeVal v t noTags buf)"

text \<open>
  \<open>t\<close> is the dynamic type of the argument, the one \<open>reflect.TypeOf\<close> returns: it is never an
  interface type.  A nil argument has no type, and the source panics on it before it chooses a
  writer; such a call is outside the model.
\<close>

definition EncodeToBytes :: "gtype \<Rightarrow> gval \<Rightarrow> (rlp_err, byte list) outcome" where
  "EncodeToBytes t v =
     (case encode t v enc_reset of
        Inl e \<Rightarrow> Err e
      | Inr buf \<Rightarrow> (case makeBytes buf of None \<Rightarrow> Panic | Some b \<Rightarrow> Ok b))"

definition EncodeToReader :: "gtype \<Rightarrow> gval \<Rightarrow> rlp_err + (int \<times> encBuffer \<times> encReader)" where
  "EncodeToReader t v =
     (case encode t v enc_reset of
        Inl e \<Rightarrow> Inl e
      | Inr buf \<Rightarrow> Inr (buf_size buf, buf, new_encReader))"

subsection \<open>The encoding rules\<close>

text \<open>
  The bytes the encoding rules of the package assign to a value, and the values they cover:
  those whose shape fits the type and that hold no negative big integer and no interface with
  an unsupported dynamic type in a position that is written.
\<close>

fun valBytes :: "gval \<Rightarrow> gtype \<Rightarrow> Tags \<Rightarrow> byte list" where
  "valBytes (VUint i) t tg = encStr (int_bytes (unat i))"
| "valBytes (VBool b) t tg = encStr (int_bytes (if b then 1 else 0))"
| "valBytes (VBytes b) t tg = (if t = TRaw then b else encStr b)"
| "valBytes (VBig i) t tg = encStr (int_bytes (nat i))"
| "valBytes VNil t tg =
     (case t of
        TSlice e \<Rightarrow> if isByte e then encStr [] else if Tail tg then [] else frame List []
      | TPtr e \<Rightarrow> if e = TBig \<or> typeNilKind e tg = String then encStr [] else frame List []
      | TInterface \<Rightarrow> frame List []
      | _ \<Rightarrow> [])"
| "valBytes (VPtr v) t tg = (case t of TPtr e \<Rightarrow> valBytes v e noTags | _ \<Rightarrow> [])"
| "valBytes (VSeq vs) t tg =
     (case t of
        TSlice e \<Rightarrow> (if Tail tg then id else frame List) (concat (map (\<lambda>v. valBytes v e noTags) vs))
      | TArray n e \<Rightarrow> (if Tail tg then id else frame List) (concat (map (\<lambda>v. valBytes v e noTags) vs))
      | TStruct fs \<Rightarrow>
          (case ProcessFields fs of
             Inl e \<Rightarrow> []
           | Inr tgs \<Rightarrow>
               let flds = selectFields tgs (zip (map snd fs) (zip vs (map valBytes vs)));
                   n = fieldCount (map (\<lambda>(ts, t, v, b). (ts, isZero v t)) flds)
               in frame List (concat (map (\<lambda>(ts, t, v, b). b t ts) (take n flds))))
      | _ \<Rightarrow> [])"
| "valBytes (VIface e v) t tg = valBytes v e noTags"

fun encodable :: "gval \<Rightarrow> gtype \<Rightarrow> bool" where
  "encodable (VUint i) t = (case t of TUint n \<Rightarrow> True | _ \<Rightarrow> False)"
| "encodable (VBool b) t = (t = TBool)"
| "encodable (VBytes b) t =
     (case t of TRaw \<Rightarrow> True | TString \<Rightarrow> True | TSlice e \<Rightarrow> isByte e | TArray n e \<Rightarrow> isByte e | _ \<Rightarrow> False)"
| "encodable (VBig i) t = (t = TBig \<and> 0 \<le> i)"
| "encodable VNil t =
     (case t of TRaw \<Rightarrow> True | TSlice e \<Rightarrow> True | TPtr e \<Rightarrow> True | TInterface \<Rightarrow> True | _ \<Rightarrow> False)"
| "encodable (VPtr v) t = (case t of TPtr e \<Rightarrow> encodable v e | _ \<Rightarrow> False)"
| "encodable (VSeq vs) t =
     (case t of
        TSlice e \<Rightarrow> list_all (\<lambda>c. c e) (map encodable vs)
      | TArray n e \<Rightarrow> list_all (\<lambda>c. c e) (map encodable vs)
      | TStruct fs \<Rightarrow>
          (case ProcessFields fs of
             Inl e \<Rightarrow> False
           | Inr tgs \<Rightarrow>
               let flds = selectFields tgs (zip (map snd fs) (zip vs (map encodable vs)));
                   n = fieldCount (map (\<lambda>(ts, t, v, c). (ts, isZero v t)) flds)
               in list_all (\<lambda>(ts, t, v, c). c t) (take n flds))
      | _ \<Rightarrow> False)"
| "encodable (VIface e v) t = (t = TInterface \<and> writerErr e noTags = None \<and> encodable v e)"

text \<open>The fields a struct value contributes, with tags, type and value.\<close>

definition outFields :: "Tags option list \<Rightarrow> gtype list \<Rightarrow> gval list \<Rightarrow> (Tags \<times> gtype \<times> gval) list" where
  "outFields tgs ts vs =
     (let flds = selectFields tgs (zip ts vs)
      in take (fieldCount (map (\<lambda>(tg, t, v). (tg, isZero v t)) flds)) flds)"

subsection \<open>The writers follow the rules\<close>

lemma selectFields_map: "selectFields tgs (map f xs) = map (\<lambda>(ts, x). (ts, f x)) (selectFields tgs xs)"
  by (induction tgs xs rule: selectFields.induct) simp_all

lemma zip_with: "zip ts (zip vs (map w vs)) = map (\<lambda>(t, v). (t, v, w v)) (zip ts vs)"
  by (induction ts vs rule: list_induct2') simp_all

lemma select_out:
  "(let flds = selectFields tgs (zip ts (zip vs (map w vs)));
        n = fieldCount (map (\<lambda>(tg, t, v, x). (tg, isZero v t)) flds)
    in take n flds) = map (\<lambda>(tg, t, v). (tg, t, v, w v)) (outFields tgs ts vs)"
  by (simp add: zip_with selectFields_map outFields_def Let_def take_map comp_def case_prod_beta')

lemma out_apply:
  "(let flds = selectFields tgs (zip ts (zip vs (map w vs)));
        n = fieldCount (map (\<lambda>(tg, t, v, x). (tg, isZero v t)) flds)
    in F (map g (take n flds))) = F (map (\<lambda>(tg, t, v). g (tg, t, v, w v)) (outFields tgs ts vs))"
  using select_out [of tgs ts vs w] by (simp add: Let_def comp_def case_prod_beta')

lemma set_selectFields: "(tg, x) \<in> set (selectFields tgs xs) \<Longrightarrow> x \<in> set xs \<and> Some tg \<in> set tgs"
  by (induction tgs xs rule: selectFields.induct) auto

lemma set_outFields: "(tg, t, v) \<in> set (outFields tgs ts vs) \<Longrightarrow> v \<in> set vs \<and> t \<in> set ts \<and> Some tg \<in> set tgs"
  unfolding outFields_def Let_def
  by (auto dest!: in_set_takeD set_selectFields dest: set_zip_leftD set_zip_rightD)

lemma writeVal_struct:
  "ProcessFields fs = Inr tgs \<Longrightarrow> writeVal (VSeq vs) (TStruct fs) tg buf =
    writeList (map (\<lambda>(tg, t, v). writeVal v t tg) (outFields tgs (map snd fs) vs)) buf"
  using out_apply [where F = "\<lambda>l. writeList l buf" and g = "\<lambda>(ts, t, v, w). w t ts" and w = writeVal]
  by simp

lemma valBytes_struct:
  "ProcessFields fs = Inr tgs \<Longrightarrow> valBytes (VSeq vs) (TStruct fs) tg =
    frame List (concat (map (\<lambda>(tg, t, v). valBytes v t tg) (outFields tgs (map snd fs) vs)))"
  using out_apply [where F = "\<lambda>l. frame List (concat l)" and g = "\<lambda>(ts, t, v, w). w t ts" and w = valBytes]
  by (simp del: frame.simps)

lemma encodable_struct:
  "ProcessFields fs = Inr tgs \<Longrightarrow> encodable (VSeq vs) (TStruct fs) \<longleftrightarrow>
    (\<forall>(tg, t, v)\<in>set (outFields tgs (map snd fs) vs). encodable v t)"
  using out_apply [where F = "list_all id" and g = "\<lambda>(ts, t, v, c). c t" and w = encodable]
  by (simp add: list_all_iff case_prod_beta' Let_def)

text \<open>\<open>writes w ok b\<close>: the writer appends the bytes \<open>b\<close>, or fails when it may not.\<close>

definition writes_ok :: "(encBuffer \<Rightarrow> rlp_err + encBuffer) \<Rightarrow> bool \<Rightarrow> byte list \<Rightarrow> bool" where
  "writes_ok w ok b \<longleftrightarrow>
     (\<forall>buf. if ok then \<exists>buf'. w buf = Inr buf' \<and> renders buf buf' b else \<exists>e. w buf = Inl e)"

lemma writes_okI: "(\<And>buf. renders buf (f buf) b) \<Longrightarrow> writes_ok (\<lambda>buf. Inr (f buf)) True b"
  by (simp add: writes_ok_def)

lemma writes_ok_all:
  assumes "\<forall>x\<in>set xs. writes_ok (w x) (ok x) (b x)"
  shows "writes_ok (writeAll (map w xs)) (\<forall>x\<in>set xs. ok x) (concat (map b xs))"
  using assms
proof (induction xs)
  case Nil
  then show ?case by (simp add: writes_ok_def renders_refl)
next
  case (Cons x xs)
  then have ih: "writes_ok (writeAll (map w xs)) (\<forall>x\<in>set xs. ok x) (concat (map b xs))" by simp
  from Cons.prems have x: "writes_ok (w x) (ok x) (b x)" by simp
  show ?case unfolding writes_ok_def
  proof (intro allI)
    fix buf
    show "if \<forall>x\<in>set (x # xs). ok x
      then \<exists>buf'. writeAll (map w (x # xs)) buf = Inr buf' \<and> renders buf buf' (concat (map b (x # xs)))
      else \<exists>e. writeAll (map w (x # xs)) buf = Inl e"
    proof (cases "ok x")
      case True
      with x obtain buf1 where 1: "w x buf = Inr buf1" "renders buf buf1 (b x)" unfolding writes_ok_def by metis
      show ?thesis
      proof (cases "\<forall>x\<in>set xs. ok x")
        case all: True
        with ih obtain buf2 where "writeAll (map w xs) buf1 = Inr buf2" "renders buf1 buf2 (concat (map b xs))"
          unfolding writes_ok_def by meson
        with 1 all True renders_trans show ?thesis by auto
      next
        case False
        with ih obtain e where "writeAll (map w xs) buf1 = Inl e" unfolding writes_ok_def by meson
        with 1 False show ?thesis by auto
      qed
    next
      case False
      with x show ?thesis unfolding writes_ok_def by (auto dest!: spec [of _ buf])
    qed
  qed
qed

lemma writes_ok_list:
  assumes "writes_ok (writeAll ws) ok b" "length b < 2 ^ 63"
  shows "writes_ok (writeList ws) ok (frame List b)"
  unfolding writes_ok_def
proof (intro allI)
  fix buf
  obtain buf1 index where ls: "list_start buf = (buf1, index)" by fastforce
  show "if ok then \<exists>buf'. writeList ws buf = Inr buf' \<and> renders buf buf' (frame List b)
    else \<exists>e. writeList ws buf = Inl e"
  proof (cases ok)
    case True
    with assms(1) obtain buf2 where "writeAll ws buf1 = Inr buf2" "renders buf1 buf2 b" unfolding writes_ok_def by metis
    with renders_list [OF ls _ assms(2)] ls True show ?thesis by (simp add: writeList_def)
  next
    case False
    with assms(1) ls show ?thesis unfolding writes_ok_def writeList_def by (auto dest!: spec [of _ buf1])
  qed
qed

lemma writes_ok_slice:
  assumes "writes_ok (writeAll (map w xs)) ok (concat (map b xs))" "length (concat (map b xs)) < 2 ^ 63"
    and "xs = [] \<Longrightarrow> ok"
  shows "writes_ok (writeSlice tg (map w xs)) ok ((if Tail tg then id else frame List) (concat (map b xs)))"
proof -
  have e: "frame List [] = [0xC0]" by (simp add: puthead_def)
  consider "Tail tg" | "\<not> Tail tg" "xs = []" | "\<not> Tail tg" "xs \<noteq> []" by blast
  then show ?thesis
  proof cases
    case 2
    then show ?thesis using renders_append [of _ "[0xC0]"] assms(3) by (simp add: writes_ok_def writeSlice_def e del: frame.simps)
  next
    case 3
    then show ?thesis using writes_ok_list [OF assms(1,2)] by (simp add: writes_ok_def writeSlice_def del: frame.simps)
  qed (use assms(1) in \<open>simp add: writes_ok_def writeSlice_def\<close>)
qed

lemma length_le_concat: "x \<in> set xs \<Longrightarrow> length (f x) \<le> length (concat (map f xs))"
  by (induction xs) auto

lemma length_frame_content: "length c \<le> length (frame k c)"
  by (cases k) simp_all

lemma writes_ok_bytes: "length b < 2 ^ 63 \<Longrightarrow> writes_ok (\<lambda>buf. Inr (writeBytes b buf)) True (encStr b)"
  by (rule writes_okI) (rule renders_writeBytes)

lemma writeString_eq: "writeString b buf = writeBytes b buf"
  by (simp add: writeString_def writeBytes_def)

lemma writeByteArray_eq: "writeByteArray b buf = writeBytes b buf"
  by (auto simp: writeByteArray_def writeBytes_def encodeStringHeader_def buf_append_def length_Suc_conv)

lemma length_encStr_ge: "length b \<le> length (encStr b)"
  by simp

lemma nil_enc: "encStr [] = [0x80]" "frame List [] = [0xC0]"
  by (simp_all add: puthead_def)

lemma writes_ok_writeVal:
  "length (valBytes v t tg) < 2 ^ 63 \<Longrightarrow> writes_ok (writeVal v t tg) (encodable v t) (valBytes v t tg)"
proof (induction v arbitrary: t tg)
  case (VUint i)
  then show ?case using renders_append by (cases t) (simp_all add: writes_ok_def writeUint64_enc del: encStr.simps)
next
  case (VBool b)
  have "writeBool b buf = buf_append (encStr (int_bytes (if b then 1 else 0))) buf" for buf
    by (simp add: writeBool_def int_bytes_def blen.simps [of "Suc 0"] puthead_def)
  then show ?case using renders_append by (cases t) (simp_all add: writes_ok_def del: encStr.simps)
next
  case (VBytes b)
  show ?case
  proof (cases "t = TRaw")
    case True
    then show ?thesis using renders_append by (simp add: writes_ok_def)
  next
    case False
    then have "length b < 2 ^ 63" using VBytes length_encStr_ge [of b] by simp
    from writes_ok_bytes [OF this] False show ?thesis
      by (cases t) (simp_all add: writes_ok_def writeString_eq writeByteArray_eq del: encStr.simps)
  qed
next
  case (VBig i)
  have "length (int_bytes (nat i)) < 2 ^ 63"
    using VBig length_encStr_ge [of "int_bytes (nat i)"] by (simp del: encStr.simps)
  then have "blen (nat i) < 2 ^ 63" by (cases "nat i = 0") (simp_all add: int_bytes_def blen.simps [of 0])
  then have "renders buf (writeBigInt i buf) (encStr (int_bytes (nat i)))" if "0 \<le> i" for buf
    using renders_writeBigInt [of i buf] that by simp
  then show ?case by (cases t) (auto simp: writes_ok_def simp del: encStr.simps)
next
  case VNil
  have e: "writeBytes [] buf = buf_append [0x80] buf" for buf
    by (simp add: writeBytes_def encodeStringHeader_def buf_append_def)
  show ?case
    by (cases t) (auto simp: writes_ok_def e nil_enc nilEncoding_def writeSlice_def renders_refl
        intro: renders_append simp del: encStr.simps frame.simps)
next
  case (VPtr v)
  then show ?case by (cases t) (simp_all add: writes_ok_def)
next
  case (VSeq vs)
  have elems: "writes_ok (writeAll (map (\<lambda>v. writeVal v e noTags) vs)) (\<forall>v\<in>set vs. encodable v e)
      (concat (map (\<lambda>v. valBytes v e noTags) vs))"
    if "length (concat (map (\<lambda>v. valBytes v e noTags) vs)) < 2 ^ 63" for e
    using that length_le_concat [of _ vs "\<lambda>v. valBytes v e noTags"]
    by (intro writes_ok_all ballI VSeq.IH) (auto intro: le_less_trans)
  have slice: "writes_ok (writeSlice tg (map (\<lambda>v. writeVal v e noTags) vs)) (\<forall>v\<in>set vs. encodable v e)
      ((if Tail tg then id else frame List) (concat (map (\<lambda>v. valBytes v e noTags) vs)))"
    if "length ((if Tail tg then id else frame List) (concat (map (\<lambda>v. valBytes v e noTags) vs))) < 2 ^ 63" for e
  proof (rule writes_ok_slice)
    show "length (concat (map (\<lambda>v. valBytes v e noTags) vs)) < 2 ^ 63"
      using that length_frame_content [of "concat (map (\<lambda>v. valBytes v e noTags) vs)" List]
      by (auto split: if_splits simp del: frame.simps)
    from elems [OF this] show "writes_ok (writeAll (map (\<lambda>v. writeVal v e noTags) vs)) (\<forall>v\<in>set vs. encodable v e)
      (concat (map (\<lambda>v. valBytes v e noTags) vs))" .
  qed simp
  show ?case
  proof (cases t)
    case (TStruct fs)
    show ?thesis
    proof (cases "ProcessFields fs")
      case (Inl e)
      then show ?thesis using TStruct by (simp add: writes_ok_def)
    next
      case (Inr tgs)
      let ?out = "outFields tgs (map snd fs) vs"
      have l: "length (concat (map (\<lambda>(tg, t, v). valBytes v t tg) ?out)) < 2 ^ 63"
        using VSeq.prems length_frame_content [of _ List]
        unfolding TStruct valBytes_struct [OF Inr] by (meson le_less_trans)
      have "writes_ok (writeAll (map (\<lambda>(tg, t, v). writeVal v t tg) ?out))
          (\<forall>x\<in>set ?out. case x of (tg, t, v) \<Rightarrow> encodable v t)
          (concat (map (\<lambda>(tg, t, v). valBytes v t tg) ?out))"
      proof (intro writes_ok_all ballI)
        fix x assume x: "x \<in> set ?out"
        obtain tg t v where xv: "x = (tg, t, v)" by (metis prod_cases3)
        have "length (valBytes v t tg) \<le> length (concat (map (\<lambda>(tg, t, v). valBytes v t tg) ?out))"
          using length_le_concat [OF x, of "\<lambda>(tg, t, v). valBytes v t tg"] xv by simp
        moreover have "v \<in> set vs" using x xv set_outFields by blast
        ultimately show "writes_ok (case x of (tg, t, v) \<Rightarrow> writeVal v t tg) (case x of (tg, t, v) \<Rightarrow> encodable v t)
          (case x of (tg, t, v) \<Rightarrow> valBytes v t tg)"
          using VSeq.IH [of v t tg] l xv by simp
      qed
      from writes_ok_list [OF this l] show ?thesis
        unfolding TStruct valBytes_struct [OF Inr] encodable_struct [OF Inr]
        by (simp add: writes_ok_def writeVal_struct [OF Inr] del: writeVal.simps frame.simps)
    qed
  next
    case (TSlice e)
    have "writeVal (VSeq vs) t tg = writeSlice tg (map (\<lambda>v. writeVal v e noTags) vs)" by (rule ext) (simp add: TSlice)
    then show ?thesis using VSeq.prems slice [of e] by (simp add: TSlice list_all_iff del: frame.simps)
  next
    case (TArray n e)
    have "writeVal (VSeq vs) t tg = writeSlice tg (map (\<lambda>v. writeVal v e noTags) vs)" by (rule ext) (simp add: TArray)
    then show ?thesis using VSeq.prems slice [of e] by (simp add: TArray list_all_iff del: frame.simps)
  qed (simp_all add: writes_ok_def)
next
  case (VIface e v)
  then show ?case by (cases t) (auto simp: writes_ok_def split: option.split)
qed

lemma encode_renders:
  assumes "length (valBytes v t noTags) < 2 ^ 63"
  shows "writerErr t noTags = None \<and> encodable v t \<Longrightarrow>
      \<exists>buf. encode t v enc_reset = Inr buf \<and> renders enc_reset buf (valBytes v t noTags)"
    and "\<not> (writerErr t noTags = None \<and> encodable v t) \<Longrightarrow> \<exists>e. encode t v enc_reset = Inl e"
  using writes_ok_writeVal [OF assms] unfolding encode_def writes_ok_def
  by (auto split: option.splits if_splits dest: spec [of _ enc_reset])

text \<open>
  C24: The reflective encoder with its deferred list headers computes the encoding rules: for a
  serialisable type and an encodable value \<open>EncodeToBytes\<close> returns exactly the bytes the rules
  give, in every other case it returns an error, and it never panics on its preallocated output.
\<close>

theorem EncodeToBytes_follows_rules:
  assumes "length (valBytes v t noTags) < 2 ^ 63"
  shows "if writerErr t noTags = None \<and> encodable v t
    then EncodeToBytes t v = Ok (valBytes v t noTags) else \<exists>e. EncodeToBytes t v = Err e"
proof (cases "writerErr t noTags = None \<and> encodable v t")
  case True
  with encode_renders(1) [OF assms] obtain buf where
    "encode t v enc_reset = Inr buf" "renders enc_reset buf (valBytes v t noTags)" by blast
  with renders_makeBytes(1) True show ?thesis by (simp add: EncodeToBytes_def)
next
  case False
  with encode_renders(2) [OF assms] obtain e where "encode t v enc_reset = Inl e" by blast
  with False show ?thesis by (auto simp: EncodeToBytes_def)
qed

theorem EncodeToBytes_follows_rules_witness:
  "EncodeToBytes
     (TStruct [(\<lparr> sf_name = ''Size'', sf_exported = True, sf_tag = '''' \<rparr>, TUint 64),
               (\<lparr> sf_name = ''note'', sf_exported = False, sf_tag = '''' \<rparr>, TOther),
               (\<lparr> sf_name = ''Names'', sf_exported = True, sf_tag = ''tail'' \<rparr>, TSlice TString)])
     (VSeq [VUint 1024, VNil, VSeq [VBytes [0x61], VBytes [0x62, 0x63]]])
   = Ok [0xC7, 0x82, 0x04, 0x00, 0x61, 0x82, 0x62, 0x63]"
proof -
  let ?t = "TStruct [(\<lparr> sf_name = ''Size'', sf_exported = True, sf_tag = '''' \<rparr>, TUint 64),
               (\<lparr> sf_name = ''note'', sf_exported = False, sf_tag = '''' \<rparr>, TOther),
               (\<lparr> sf_name = ''Names'', sf_exported = True, sf_tag = ''tail'' \<rparr>, TSlice TString)]"
  let ?v = "VSeq [VUint 1024, VNil, VSeq [VBytes [0x61], VBytes [0x62, 0x63]]]"
  have b: "valBytes ?v ?t noTags = [0xC7, 0x82, 0x04, 0x00, 0x61, 0x82, 0x62, 0x63]" by code_simp
  have "writerErr ?t noTags = None \<and> encodable ?v ?t" by code_simp
  then show ?thesis using EncodeToBytes_follows_rules [of ?v ?t] unfolding b by simp
qed

text \<open>
  C25: The reader returned by \<open>EncodeToReader\<close> announces the exact size and delivers the same
  bytes, however the client sizes its reads: after reads of sizes \<open>ns\<close> the client holds the
  first \<open>sum_list ns\<close> bytes of the encoding.
\<close>

theorem EncodeToReader_delivers:
  assumes "length (valBytes v t noTags) < 2 ^ 63" and "writerErr t noTags = None" and "encodable v t"
  shows "\<exists>buf r outs. EncodeToReader t v = Inr (int (length (valBytes v t noTags)), buf, r) \<and>
    reads (Suc (length (valBytes v t noTags))) buf ns r = Some outs \<and> length outs = length ns \<and>
    concat (map fst outs) = take (sum_list ns) (valBytes v t noTags)"
proof -
  from encode_renders(1) [OF assms(1)] assms(2,3) obtain buf where
    buf: "encode t v enc_reset = Inr buf" "renders enc_reset buf (valBytes v t noTags)" by blast
  have "\<exists>outs. reads (Suc (length (valBytes v t noTags))) buf ns new_encReader = Some outs \<and>
      length outs = length ns \<and> concat (map fst outs) = take (sum_list ns) (valBytes v t noTags)"
    using reads_rest [OF er_start(1) [OF buf(2)], of "Suc (length (valBytes v t noTags))" ns] er_start(2) [OF buf(2)]
    by simp
  with buf renders_makeBytes(3) [OF buf(2)] show ?thesis by (simp add: EncodeToReader_def)
qed

theorem EncodeToReader_delivers_witness:
  "\<exists>buf r outs. EncodeToReader (TSlice (TSlice TBool)) (VSeq [VSeq [VBool True], VNil]) = Inr (4, buf, r) \<and>
     reads 5 buf [1, 2] r = Some outs \<and> length outs = Suc (Suc 0) \<and> concat (map fst outs) = [0xC3, 0xC1, 0x01]"
proof -
  have b: "valBytes (VSeq [VSeq [VBool True], VNil]) (TSlice (TSlice TBool)) noTags = [0xC3, 0xC1, 0x01, 0xC0]"
    by code_simp
  then have l: "length (valBytes (VSeq [VSeq [VBool True], VNil]) (TSlice (TSlice TBool)) noTags) = 4" by simp
  have "writerErr (TSlice (TSlice TBool)) noTags = None" "encodable (VSeq [VSeq [VBool True], VNil]) (TSlice (TSlice TBool))"
    by code_simp+
  with EncodeToReader_delivers [of "VSeq [VSeq [VBool True], VNil]" "TSlice (TSlice TBool)" "[1, 2]"]
  show ?thesis unfolding l unfolding b by (simp del: reads.simps writerErr.simps encodable.simps)
qed

end
