(* ===== verification/Rlp_Stream.thy ===== *)
theory Rlp_Stream
  imports Rlp_Types
begin

text \<open>
  The decoding stream of \<open>rlp/decode.go\<close>: a reader over a byte slice with the limits of the
  enclosing lists and of the input, the cached kind of the value ahead, and the operations that
  read one value.  Every operation returns its result or error together with the stream.
\<close>

text \<open>
  The stack of list limits has the innermost list first (the source appends at the end).
  \<open>skind\<close> is \<open>None\<close> for the source's -1.  \<open>uintbuf\<close> is scratch space and not modelled.
\<close>

record Stream =
  inp :: "byte list"
  remaining :: u64
  ssize :: u64
  kinderr :: "rlp_err option"
  stack :: "u64 list"
  skind :: "Kind option"
  byteval :: byte
  limited :: bool

type_synonym 'a sop = "Stream \<Rightarrow> (rlp_err + 'a) \<times> Stream"

subsection \<open>Reading\<close>

definition listLimit :: "Stream \<Rightarrow> bool \<times> u64" where
  "listLimit s = (case stack s of [] \<Rightarrow> (False, 0) | l # ls \<Rightarrow> (True, l))"

definition willRead :: "u64 \<Rightarrow> Stream \<Rightarrow> rlp_err option \<times> Stream" where
  "willRead n s =
     (let s = s\<lparr> skind := None \<rparr> in
      case stack s of
        l # ls \<Rightarrow>
          if n > l then (Some ErrElemTooLarge, s)
          else
            let s = s\<lparr> stack := (l - n) # ls \<rparr> in
            if limited s then
              if n > remaining s then (Some ErrValueTooLarge, s) else (None, s\<lparr> remaining := remaining s - n \<rparr>)
            else (None, s)
      | [] \<Rightarrow>
          if limited s then
            if n > remaining s then (Some ErrValueTooLarge, s) else (None, s\<lparr> remaining := remaining s - n \<rparr>)
          else (None, s))"

definition readByte :: "byte sop" where
  "readByte s =
     (case willRead 1 s of
        (Some e, s) \<Rightarrow> (Inl e, s)
      | (None, s) \<Rightarrow> (case inp s of [] \<Rightarrow> (Inl ErrUnexpectedEOF, s) | b # bs \<Rightarrow> (Inr b, s\<lparr> inp := bs \<rparr>)))"

definition readFull :: "u64 \<Rightarrow> byte list sop" where
  "readFull n s =
     (case willRead n s of
        (Some e, s) \<Rightarrow> (Inl e, s)
      | (None, s) \<Rightarrow>
          if length (inp s) < unat n then (Inl ErrUnexpectedEOF, s\<lparr> inp := [] \<rparr>)
          else (Inr (take (unat n) (inp s)), s\<lparr> inp := drop (unat n) (inp s) \<rparr>))"

definition readUint :: "byte \<Rightarrow> u64 sop" where
  "readUint sz s =
     (if sz = 0 then (Inr 0, s\<lparr> skind := None \<rparr>)
      else if sz = 1 then (case readByte s of (Inl e, s) \<Rightarrow> (Inl e, s) | (Inr b, s) \<Rightarrow> (Inr (ucast b), s))
      else
        (case readFull (ucast sz) s of
           (Inl e, s) \<Rightarrow> (Inl e, s)
         | (Inr b, s) \<Rightarrow> if b ! 0 = 0 then (Inl ErrCanonSize, s) else (Inr (word_of_nat (be_nat b)), s)))"

text \<open>\<open>readKind\<close> returns kind, size and error at once; on an error of the tag byte the kind is 0.\<close>

definition stream_readKind :: "Stream \<Rightarrow> (Kind \<times> u64 \<times> rlp_err option) \<times> Stream" where
  "stream_readKind s =
     (case readByte s of
        (Inl e, s) \<Rightarrow>
          let e = (if stack s = [] \<and> (e = ErrUnexpectedEOF \<or> e = ErrValueTooLarge) then ErrEOF else e)
          in ((Byte, 0, Some e), s)
      | (Inr b, s) \<Rightarrow>
          let s = s\<lparr> byteval := 0 \<rparr>;
              long = (\<lambda>k n. case readUint n s of
                  (Inl e, s) \<Rightarrow> ((k, 0, Some e), s)
                | (Inr sz, s) \<Rightarrow> ((k, sz, if sz < 56 then Some ErrCanonSize else None), s))
          in if b < 0x80 then ((Byte, 0, None), s\<lparr> byteval := b \<rparr>)
             else if b < 0xB8 then ((String, ucast (b - 0x80), None), s)
             else if b < 0xC0 then long String (b - 0xB7)
             else if b < 0xF8 then ((List, ucast (b - 0xC0), None), s)
             else long List (b - 0xF7))"

definition stream_Kind :: "(Kind \<times> u64) sop" where
  "stream_Kind s =
     (case skind s of
        Some k \<Rightarrow> (case kinderr s of Some e \<Rightarrow> (Inl e, s) | None \<Rightarrow> (Inr (k, ssize s), s))
      | None \<Rightarrow>
          let (inList, limit) = listLimit s in
          if inList \<and> limit = 0 then (Inl EOL, s)
          else
            let ((k, sz, err), s) = stream_readKind s;
                err = (if err = None then
                         if inList \<and> sz > limit then Some ErrElemTooLarge
                         else if limited s \<and> sz > remaining s then Some ErrValueTooLarge
                         else None
                       else err);
                s = s\<lparr> skind := Some k, ssize := sz, kinderr := err \<rparr>
            in case err of Some e \<Rightarrow> (Inl e, s) | None \<Rightarrow> (Inr (k, sz), s))"

subsection \<open>Values\<close>

definition rearm :: "Stream \<Rightarrow> Stream" where
  "rearm s = s\<lparr> skind := None \<rparr>"

definition stream_Bytes :: "byte list sop" where
  "stream_Bytes s =
     (case stream_Kind s of
        (Inl e, s) \<Rightarrow> (Inl e, s)
      | (Inr (Byte, sz), s) \<Rightarrow> (Inr [byteval s], rearm s)
      | (Inr (String, sz), s) \<Rightarrow>
          (case readFull sz s of
             (Inl e, s) \<Rightarrow> (Inl e, s)
           | (Inr b, s) \<Rightarrow> if sz = 1 \<and> b ! 0 < 128 then (Inl ErrCanonSize, s) else (Inr b, s))
      | (Inr (List, sz), s) \<Rightarrow> (Inl ErrExpectedString, s))"

definition ReadBytes :: "nat \<Rightarrow> byte list sop" where
  "ReadBytes n s =
     (case stream_Kind s of
        (Inl e, s) \<Rightarrow> (Inl e, s)
      | (Inr (Byte, sz), s) \<Rightarrow> if n \<noteq> 1 then (Inl (ErrWrongSize 1 n), s) else (Inr [byteval s], rearm s)
      | (Inr (String, sz), s) \<Rightarrow>
          if word_of_nat n \<noteq> sz then (Inl (ErrWrongSize sz n), s)
          else
            (case readFull (word_of_nat n) s of
               (Inl e, s) \<Rightarrow> (Inl e, s)
             | (Inr b, s) \<Rightarrow> if sz = 1 \<and> b ! 0 < 128 then (Inl ErrCanonSize, s) else (Inr b, s))
      | (Inr (List, sz), s) \<Rightarrow> (Inl ErrExpectedString, s))"

definition stream_Raw :: "byte list sop" where
  "stream_Raw s =
     (case stream_Kind s of
        (Inl e, s) \<Rightarrow> (Inl e, s)
      | (Inr (k, sz), s) \<Rightarrow>
          if k = Byte then (Inr [byteval s], rearm s)
          else
            (case readFull sz s of
               (Inl e, s) \<Rightarrow> (Inl e, s)
             | (Inr b, s) \<Rightarrow>
                 (Inr ((if k = String then puthead 0x80 0xB7 sz else puthead 0xC0 0xF7 sz) @ b), s)))"

definition stream_uint :: "nat \<Rightarrow> u64 sop" where
  "stream_uint maxbits s =
     (case stream_Kind s of
        (Inl e, s) \<Rightarrow> (Inl e, s)
      | (Inr (Byte, sz), s) \<Rightarrow> if byteval s = 0 then (Inl ErrCanonInt, s) else (Inr (ucast (byteval s)), rearm s)
      | (Inr (String, sz), s) \<Rightarrow>
          if sz > word_of_nat (maxbits div 8) then (Inl ErrUintOverflow, s)
          else
            (case readUint (ucast sz) s of
               (Inl e, s) \<Rightarrow> (Inl (if e = ErrCanonSize then ErrCanonInt else e), s)
             | (Inr v, s) \<Rightarrow> if sz > 0 \<and> v < 128 then (Inl ErrCanonSize, s) else (Inr v, s))
      | (Inr (List, sz), s) \<Rightarrow> (Inl ErrExpectedString, s))"

definition stream_Bool :: "bool sop" where
  "stream_Bool s =
     (case stream_uint 8 s of
        (Inl e, s) \<Rightarrow> (Inl e, s)
      | (Inr num, s) \<Rightarrow>
          if num = 0 then (Inr False, s) else if num = 1 then (Inr True, s) else (Inl (ErrInvalidBool num), s))"

definition stream_List :: "u64 sop" where
  "stream_List s =
     (case stream_Kind s of
        (Inl e, s) \<Rightarrow> (Inl e, s)
      | (Inr (k, sz), s) \<Rightarrow>
          if k \<noteq> List then (Inl ErrExpectedList, s)
          else
            let st = (case stack s of [] \<Rightarrow> [] | l # ls \<Rightarrow> (l - sz) # ls)
            in (Inr sz, s\<lparr> stack := sz # st, skind := None, ssize := 0 \<rparr>))"

definition ListEnd :: "unit sop" where
  "ListEnd s =
     (case stack s of
        [] \<Rightarrow> (Inl ErrNotInList, s)
      | l # ls \<Rightarrow> if l > 0 then (Inl ErrNotAtEOL, s) else (Inr (), s\<lparr> stack := ls, skind := None, ssize := 0 \<rparr>))"

definition MoreDataInList :: "Stream \<Rightarrow> bool" where
  "MoreDataInList s = (snd (listLimit s) > 0)"

text \<open>The result of \<open>decodeBigInt\<close> is the number \<open>SetBytes\<close> stores.\<close>

definition stream_decodeBigInt :: "nat sop" where
  "stream_decodeBigInt s =
     (case stream_Kind s of
        (Inl e, s) \<Rightarrow> (Inl e, s)
      | (Inr (k, sz), s) \<Rightarrow>
          let (r, s) =
            (if k = List then (Inl ErrExpectedString, s)
             else if k = Byte then (Inr [byteval s], rearm s)
             else if sz = 0 then (Inr [], rearm s)
             else
               (case readFull sz s of
                  (Inl e, s) \<Rightarrow> (Inl e, s)
                | (Inr b, s) \<Rightarrow>
                    if sz \<le> 32 \<and> sz = 1 \<and> b ! 0 < 128 then (Inl ErrCanonSize, s) else (Inr b, s)))
          in case r of
               Inl e \<Rightarrow> (Inl e, s)
             | Inr b \<Rightarrow> if length b > 0 \<and> b ! 0 = 0 then (Inl ErrCanonInt, s) else (Inr (be_nat b), s))"

text \<open>
  \<open>Reset\<close>.  \<open>auto\<close> holds when the reader is one of those whose length the stream discovers
  (\<open>bytes.Reader\<close>, \<open>bytes.Buffer\<close>, \<open>strings.Reader\<close>).
\<close>

definition Reset :: "byte list \<Rightarrow> bool \<Rightarrow> u64 \<Rightarrow> Stream \<Rightarrow> Stream" where
  "Reset r auto inputLimit s =
     (let s = (if inputLimit > 0 then s\<lparr> remaining := inputLimit, limited := True \<rparr>
               else if auto then s\<lparr> remaining := word_of_nat (length r), limited := True \<rparr>
               else s\<lparr> limited := False \<rparr>)
      in s\<lparr> inp := r, stack := [], ssize := 0, skind := None, kinderr := None, byteval := 0 \<rparr>)"

definition newStream :: Stream where
  "newStream = \<lparr> inp = [], remaining = 0, ssize = 0, kinderr = None, stack = [], skind = None, byteval = 0,
     limited = False \<rparr>"

definition NewStream :: "byte list \<Rightarrow> bool \<Rightarrow> u64 \<Rightarrow> Stream" where
  "NewStream r auto inputLimit = Reset r auto inputLimit newStream"

definition NewListStream :: "byte list \<Rightarrow> bool \<Rightarrow> u64 \<Rightarrow> Stream" where
  "NewListStream r auto len = (Reset r auto len newStream)\<lparr> skind := Some List, ssize := len \<rparr>"

subsection \<open>Positions\<close>

text \<open>
  \<open>advance n s\<close> is the stream \<open>n\<close> bytes further, \<open>fits n s\<close> that the limits and the input allow
  it, and \<open>consumed n s s'\<close> that \<open>s'\<close> agrees with it up to the cached kind information.
\<close>

definition advance :: "nat \<Rightarrow> Stream \<Rightarrow> Stream" where
  "advance n s = s\<lparr> skind := None, inp := drop n (inp s),
     stack := (case stack s of [] \<Rightarrow> [] | l # ls \<Rightarrow> (l - word_of_nat n) # ls),
     remaining := (if limited s then remaining s - word_of_nat n else remaining s) \<rparr>"

definition fits :: "nat \<Rightarrow> Stream \<Rightarrow> bool" where
  "fits n s \<longleftrightarrow> n \<le> length (inp s) \<and> length (inp s) < 2 ^ 64 \<and>
     (case stack s of [] \<Rightarrow> True | l # ls \<Rightarrow> n \<le> unat l) \<and> (limited s \<longrightarrow> n \<le> unat (remaining s))"

definition consumed :: "nat \<Rightarrow> Stream \<Rightarrow> Stream \<Rightarrow> bool" where
  "consumed n s s' \<longleftrightarrow> inp s' = inp (advance n s) \<and> stack s' = stack (advance n s) \<and>
     remaining s' = remaining (advance n s) \<and> limited s' = limited s"

lemma consumed_advance [simp]: "consumed n s (advance n s)"
  by (simp add: consumed_def advance_def)

lemma skind_advance [simp]: "skind (advance n s) = None" "byteval (advance n s) = byteval s"
  by (simp_all add: advance_def)

lemma inp_advance [simp]: "inp (advance n s) = drop n (inp s)"
  by (simp add: advance_def)

lemma consumed_upd [simp]:
  "consumed n s (s'\<lparr> skind := k \<rparr>) = consumed n s s'" "consumed n s (s'\<lparr> ssize := z \<rparr>) = consumed n s s'"
  "consumed n s (s'\<lparr> kinderr := e \<rparr>) = consumed n s s'" "consumed n s (s'\<lparr> byteval := b \<rparr>) = consumed n s s'"
  "consumed n s (rearm s') = consumed n s s'"
  by (simp_all add: consumed_def rearm_def)

lemma consumed_trans: "consumed n s s1 \<Longrightarrow> consumed m s1 s2 \<Longrightarrow> consumed (n + m) s s2"
  by (auto simp: consumed_def advance_def add.commute split: list.splits)

lemma consumed_inp: "consumed n s s' \<Longrightarrow> inp s' = drop n (inp s)"
  by (simp add: consumed_def)

lemma unat_u64: "n \<le> unat (l :: u64) \<Longrightarrow> unat (word_of_nat n :: u64) = n"
proof -
  have "unat l < 2 ^ 64" using unsigned_less [of l] by simp
  moreover assume "n \<le> unat l"
  ultimately show ?thesis by (simp add: unat_of_nat)
qed

lemma unat_sub_of_nat: "n \<le> unat (l :: u64) \<Longrightarrow> unat (l - word_of_nat n) = unat l - n"
  using unat_u64 [of n l] by (subst unat_sub) (simp_all add: word_le_nat_alt)

lemma fits_consumed: "fits (n + m) s \<Longrightarrow> consumed n s s' \<Longrightarrow> fits m s'"
  by (auto simp: fits_def consumed_def advance_def unat_sub_of_nat split: list.splits)

lemma fits_mono: "fits n s \<Longrightarrow> m \<le> n \<Longrightarrow> fits m s"
  by (auto simp: fits_def split: list.splits)

lemma fits_upd [simp]:
  "fits n (s\<lparr> skind := k \<rparr>) = fits n s" "fits n (s\<lparr> ssize := z \<rparr>) = fits n s"
  "fits n (s\<lparr> kinderr := e \<rparr>) = fits n s" "fits n (s\<lparr> byteval := b \<rparr>) = fits n s"
  by (simp_all add: fits_def)

lemma fits_unat: "fits n s \<Longrightarrow> unat (word_of_nat n :: u64) = n"
  by (auto simp: fits_def unat_of_nat)

lemma willRead_fits: "fits n s \<Longrightarrow> willRead (word_of_nat n) s = (None, (advance n s)\<lparr> inp := inp s \<rparr>)"
  using fits_unat [of n s]
  by (auto simp: fits_def willRead_def advance_def Let_def word_less_nat_alt not_less split: list.splits)

lemma readFull_fits: "fits n s \<Longrightarrow> readFull (word_of_nat n) s = (Inr (take n (inp s)), advance n s)"
  using fits_unat [of n s] willRead_fits [of n s] by (simp add: readFull_def fits_def not_less advance_def)

lemma readByte_fits: "fits 1 s \<Longrightarrow> readByte s = (Inr (hd (inp s)), advance 1 s)"
  using willRead_fits [of 1 s] by (auto simp: readByte_def fits_def advance_def drop_Suc split: list.splits)

lemma readUint_fits:
  assumes "fits (length p) s" "inp s = p @ rest" "p = putint sz" "56 \<le> sz"
  shows "readUint (word_of_nat (length p)) s = (Inr sz, advance (length p) s)"
proof -
  have l: "0 < length p" "length p \<le> 8" using length_putint_bounds assms(3) by simp_all
  have nz: "p ! 0 \<noteq> 0" using putint_head [of sz] assms(3,4) by (cases "sz = 0") auto
  have v: "word_of_nat (be_nat p) = sz" by (simp add: assms(3) be_nat_putint)
  have u: "unat (word_of_nat (length p) :: byte) = length p" using l by (simp add: unat_of_nat)
  show ?thesis
  proof (cases "length p = 1")
    case True
    then obtain b where p: "p = [b]" by (auto simp: length_Suc_conv)
    then have "readByte s = (Inr b, advance 1 s)" using readByte_fits [of s] assms(1,2) by simp
    moreover have "sz = ucast b" using v p by (simp add: be_nat_Cons)
    ultimately show ?thesis using p by (simp add: readUint_def)
  next
    case False
    then have "word_of_nat (length p) \<noteq> (0 :: byte)" "word_of_nat (length p) \<noteq> (1 :: byte)"
      using u l by (auto simp: word_unat_eq_iff)
    moreover have "(ucast (word_of_nat (length p) :: byte) :: u64) = word_of_nat (length p)"
      using l by (intro ucast_word_of_nat) simp
    ultimately show ?thesis using readFull_fits [OF assms(1)] assms(2) nz v by (simp add: readUint_def)
  qed
qed

subsection \<open>The value ahead\<close>

text \<open>The bytes of a value behind its header.\<close>

definition body_len :: "Kind \<Rightarrow> byte list \<Rightarrow> nat" where
  "body_len k c = (if k = Byte then 0 else length c)"

definition head_len :: "Kind \<Rightarrow> byte list \<Rightarrow> nat" where
  "head_len k c = length (frame k c) - body_len k c"

lemma head_body: "head_len k c + body_len k c = length (frame k c)"
  by (cases k) (simp_all add: head_len_def body_len_def)

lemma stream_readKind_head:
  assumes inp: "inp s = puthead st lt n @ rest" and fits: "fits (length (puthead st lt n)) s"
    and tags: "(st, lt, k) = (0x80, 0xB7, String) \<or> (st, lt, k) = (0xC0, 0xF7, List)"
  shows "\<exists>s'. stream_readKind s = ((k, n, None), s') \<and> consumed (length (puthead st lt n)) s s'"
proof -
  let ?h = "puthead st lt n"
  have "1 \<le> length ?h" by (simp add: length_puthead headsize_def)
  then have "fits 1 s" using fits_mono [OF fits, of 1] by simp
  then have rb: "readByte s = (Inr (hd (inp s)), advance 1 s)" by (rule readByte_fits)
  show ?thesis
  proof (cases "unat n < 56")
    case True
    define b where "b = st + word_of_nat (unat n)"
    have h: "?h = [b]"
      using True ucast_len [of "unat n"] by (simp add: puthead_def word_less_nat_alt b_def)
    have ut: "unat b = unat st + unat n" unfolding b_def using tags True by (intro unat_tag) auto
    have "b - st = word_of_nat (unat n)" by (simp add: b_def)
    then have d: "(ucast (b - st) :: u64) = n"
      using True ucast_word_of_nat [of "unat n"] by simp
    have rb': "readByte s = (Inr b, advance 1 s)" using rb inp h by simp
    from tags show ?thesis
    proof (elim disjE)
      assume t: "(st, lt, k) = (0x80, 0xB7, String)"
      with ut True have "\<not> b < 0x80" "b < 0xB8" by (simp_all add: word_less_nat_alt)
      then show ?thesis using t rb' d h by (simp add: stream_readKind_def Let_def)
    next
      assume t: "(st, lt, k) = (0xC0, 0xF7, List)"
      with ut True have "\<not> b < 0x80" "\<not> b < 0xB8" "\<not> b < 0xC0" "b < 0xF8" by (simp_all add: word_less_nat_alt)
      then show ?thesis using t rb' d h by (simp add: stream_readKind_def Let_def)
    qed
  next
    case False
    define p where "p = putint n"
    define b where "b = lt + word_of_nat (length p)"
    have h: "?h = b # p"
      using False by (simp add: puthead_def word_less_nat_alt p_def b_def Let_def)
    have p: "0 < length p" "length p \<le> 8" unfolding p_def by (rule length_putint_bounds)+
    have ut: "unat b = unat lt + length p" unfolding b_def using tags p by (intro unat_tag) auto
    have d: "b - lt = word_of_nat (length p)" by (simp add: b_def)
    have ge: "56 \<le> n" using False by (simp add: word_le_nat_alt)
    have rb': "readByte s = (Inr b, advance 1 s)" using rb inp h by simp
    define s1 where "s1 = (advance 1 s)\<lparr> byteval := 0 \<rparr>"
    have s1: "consumed 1 s s1" "inp s1 = p @ rest" using inp h by (simp_all add: s1_def)
    have "fits (1 + length p) s" using fits h by simp
    then have "fits (length p) s1" using s1(1) by (rule fits_consumed)
    from readUint_fits [OF this s1(2) p_def ge] have ru: "readUint (b - lt) s1 = (Inr n, advance (length p) s1)"
      by (simp add: d)
    have co: "consumed (length ?h) s (advance (length p) s1)"
      using consumed_trans [OF s1(1) consumed_advance [of "length p" s1]] h by simp
    have ge': "\<not> n < 56" using ge by simp
    from tags show ?thesis
    proof (elim disjE)
      assume t: "(st, lt, k) = (0x80, 0xB7, String)"
      with ut p have "\<not> b < 0x80" "\<not> b < 0xB8" "b < 0xC0" by (simp_all add: word_less_nat_alt)
      then show ?thesis using t rb' ru co ge' unfolding s1_def by (simp add: stream_readKind_def Let_def)
    next
      assume t: "(st, lt, k) = (0xC0, 0xF7, List)"
      with ut p have "\<not> b < 0x80" "\<not> b < 0xB8" "\<not> b < 0xC0" "\<not> b < 0xF8" by (simp_all add: word_less_nat_alt)
      then show ?thesis using t rb' ru co ge' unfolding s1_def by (simp add: stream_readKind_def Let_def)
    qed
  qed
qed

lemma stream_readKind_frame:
  assumes "inp s = frame k c @ rest" "frame_ok k c" "fits (length (frame k c)) s"
  shows "\<exists>s'. stream_readKind s = ((k, word_of_nat (body_len k c), None), s') \<and>
    consumed (head_len k c) s s' \<and> (k = Byte \<longrightarrow> byteval s' = c ! 0)"
proof (cases k)
  case Byte
  with assms(2) obtain b where c: "c = [b]" "b < 0x80" by (auto simp: length_Suc_conv)
  then have "readByte s = (Inr b, advance 1 s)" using readByte_fits [of s] assms Byte by simp
  with c Byte show ?thesis by (simp add: stream_readKind_def head_len_def body_len_def)
next
  case String
  then show ?thesis using stream_readKind_head [of s "0x80" "0xB7" "word_of_nat (length c)" "c @ rest" String] assms
      fits_mono [OF assms(3), of "head_len k c"] by (simp add: head_len_def body_len_def)
next
  case List
  then show ?thesis using stream_readKind_head [of s "0xC0" "0xF7" "word_of_nat (length c)" "c @ rest" List] assms
      fits_mono [OF assms(3), of "head_len k c"] by (simp add: head_len_def body_len_def)
qed

lemma stream_Kind_frame:
  assumes "skind s = None" "inp s = frame k c @ rest" "frame_ok k c" "fits (length (frame k c)) s"
  shows "\<exists>s'. stream_Kind s = (Inr (k, word_of_nat (body_len k c)), s') \<and> consumed (head_len k c) s s' \<and>
    skind s' = Some k \<and> kinderr s' = None \<and> ssize s' = word_of_nat (body_len k c) \<and>
    (k = Byte \<longrightarrow> byteval s' = c ! 0) \<and> fits (body_len k c) s' \<and> drop (head_len k c) (inp s) = inp s'"
proof -
  from stream_readKind_frame [OF assms(2-4)] obtain s1 where
    r: "stream_readKind s = ((k, word_of_nat (body_len k c), None), s1)" "consumed (head_len k c) s s1"
      "k = Byte \<longrightarrow> byteval s1 = c ! 0" by blast
  have f1: "fits (body_len k c) s1"
    by (rule fits_consumed [OF _ r(2)]) (simp only: head_body assms(4))
  have un: "unat (word_of_nat (body_len k c) :: u64) = body_len k c" using f1 by (rule fits_unat)
  have "0 < length (frame k c)" using frame_nonempty [OF assms(3)] by simp
  moreover have "length (frame k c) \<le> unat (snd (listLimit s))" if "fst (listLimit s)"
    using that assms(4) by (cases "stack s") (simp_all add: listLimit_def fits_def)
  ultimately have l: "\<not> (fst (listLimit s) \<and> snd (listLimit s) = 0)"
    "\<not> (fst (listLimit s) \<and> word_of_nat (body_len k c) > snd (listLimit s))"
    unfolding word_less_nat_alt un using head_body [of k c] by fastforce+
  have rem: "\<not> (limited s1 \<and> word_of_nat (body_len k c) > remaining s1)"
    unfolding word_less_nat_alt un using f1 by (simp add: fits_def not_less)
  define s' where "s' = s1\<lparr> skind := Some k, ssize := word_of_nat (body_len k c), kinderr := None \<rparr>"
  obtain il lim where ll: "listLimit s = (il, lim)" by fastforce
  have "stream_Kind s = (Inr (k, word_of_nat (body_len k c)), s')"
    using assms(1) l rem r(1) unfolding s'_def by (simp add: stream_Kind_def ll)
  moreover have "consumed (head_len k c) s s'" "fits (body_len k c) s'" using r(2) f1 by (simp_all add: s'_def)
  moreover from this(1) have "drop (head_len k c) (inp s) = inp s'" by (simp add: consumed_inp)
  ultimately show ?thesis using r(3) by (simp add: s'_def)
qed

text \<open>Inside a list that has been read to its end every operation reports \<open>EOL\<close> and leaves the stream alone.\<close>

lemma stream_Kind_EOL: "skind s = None \<Longrightarrow> stack s = 0 # ls \<Longrightarrow> stream_Kind s = (Inl EOL, s)"
  by (simp add: stream_Kind_def listLimit_def)

lemma stream_Kind_cached:
  "skind s = Some k \<Longrightarrow> kinderr s = None \<Longrightarrow> stream_Kind s = (Inr (k, ssize s), s)"
  by (simp add: stream_Kind_def)

end
