(* ===== verification/Rlp_Decode.thy ===== *)
theory Rlp_Decode
  imports Rlp_Stream
begin

text \<open>
  Decoding by Go type: the decoders that \<open>makeDecoder\<close> of \<open>rlp/decode.go\<close> selects, over the
  stream of \<open>Rlp_Stream\<close>.  A decoder fills a destination that holds the zero value of its type
  and returns the value it leaves there.  Loops over list elements carry fuel, and \<open>None\<close> stands
  for fuel that ran out; \<open>DecodeBytes\<close> supplies one unit per input byte and one more.
\<close>

type_synonym 'a sdec = "Stream \<Rightarrow> ((rlp_err + 'a) \<times> Stream) option"

definition wrapStreamError :: "rlp_err \<Rightarrow> rlp_err" where
  "wrapStreamError e =
     (case e of
        ErrCanonInt \<Rightarrow> DecodeError MsgCanonInt
      | ErrCanonSize \<Rightarrow> DecodeError MsgCanonSize
      | ErrExpectedList \<Rightarrow> DecodeError MsgExpectedList
      | ErrExpectedString \<Rightarrow> DecodeError MsgExpectedString
      | ErrUintOverflow \<Rightarrow> DecodeError MsgTooLong
      | ErrNotAtEOL \<Rightarrow> DecodeError MsgTooManyElements
      | _ \<Rightarrow> e)"

text \<open>An operation of the stream whose error is mapped by \<open>w\<close> and whose result by \<open>f\<close>.\<close>

definition lift_op :: "(rlp_err \<Rightarrow> rlp_err) \<Rightarrow> ('a \<Rightarrow> 'b) \<Rightarrow> 'a sop \<Rightarrow> 'b sdec" where
  "lift_op w f g s = (case g s of (r, s) \<Rightarrow> Some (map_sum w f r, s))"

subsection \<open>Lists\<close>

fun decodeSliceElems :: "nat \<Rightarrow> gval sdec \<Rightarrow> gval list \<Rightarrow> gval list sdec" where
  "decodeSliceElems 0 elemdec vs s = None"
| "decodeSliceElems (Suc fuel) elemdec vs s =
     (case elemdec s of
        None \<Rightarrow> None
      | Some (Inl e, s) \<Rightarrow> if e = EOL then Some (Inr vs, s) else Some (Inl e, s)
      | Some (Inr v, s) \<Rightarrow> decodeSliceElems fuel elemdec (vs @ [v]) s)"

definition endList :: "(rlp_err \<Rightarrow> rlp_err) \<Rightarrow> gval \<Rightarrow> gval sdec" where
  "endList w v = lift_op w (\<lambda>_. v) ListEnd"

definition decodeListSlice :: "nat \<Rightarrow> gval sdec \<Rightarrow> gval sdec" where
  "decodeListSlice fuel elemdec s =
     (case stream_List s of
        (Inl e, s) \<Rightarrow> Some (Inl (wrapStreamError e), s)
      | (Inr sz, s) \<Rightarrow>
          if sz = 0 then endList id (VSeq []) s
          else
            (case decodeSliceElems fuel elemdec [] s of
               None \<Rightarrow> None
             | Some (Inl e, s) \<Rightarrow> Some (Inl e, s)
             | Some (Inr vs, s) \<Rightarrow> endList id (VSeq vs) s))"

fun decodeArrayElems :: "nat \<Rightarrow> gval sdec \<Rightarrow> gval list \<Rightarrow> gval list sdec" where
  "decodeArrayElems 0 elemdec vs s = Some (Inr vs, s)"
| "decodeArrayElems (Suc n) elemdec vs s =
     (case elemdec s of
        None \<Rightarrow> None
      | Some (Inl e, s) \<Rightarrow> Some (Inl (if e = EOL then DecodeError MsgTooFewElements else e), s)
      | Some (Inr v, s) \<Rightarrow> decodeArrayElems n elemdec (vs @ [v]) s)"

definition decodeListArray :: "nat \<Rightarrow> gval sdec \<Rightarrow> gval sdec" where
  "decodeListArray vlen elemdec s =
     (case stream_List s of
        (Inl e, s) \<Rightarrow> Some (Inl (wrapStreamError e), s)
      | (Inr sz, s) \<Rightarrow>
          (case decodeArrayElems vlen elemdec [] s of
             None \<Rightarrow> None
           | Some (Inl e, s) \<Rightarrow> Some (Inl e, s)
           | Some (Inr vs, s) \<Rightarrow> endList wrapStreamError (VSeq vs) s))"

definition decodeByteArray :: "nat \<Rightarrow> byte list sop" where
  "decodeByteArray n s =
     (case stream_Kind s of
        (Inl e, s) \<Rightarrow> (Inl e, s)
      | (Inr (Byte, sz), s) \<Rightarrow>
          if n = 0 then (Inl (DecodeError MsgTooLong), s)
          else if n > 1 then (Inl (DecodeError MsgTooShort), s)
          else (Inr [byteval s], rearm s)
      | (Inr (String, sz), s) \<Rightarrow>
          if word_of_nat n < sz then (Inl (DecodeError MsgTooLong), s)
          else if word_of_nat n > sz then (Inl (DecodeError MsgTooShort), s)
          else
            (case readFull (word_of_nat n) s of
               (Inl e, s) \<Rightarrow> (Inl e, s)
             | (Inr b, s) \<Rightarrow>
                 if sz = 1 \<and> b ! 0 < 128 then (Inl (wrapStreamError ErrCanonSize), s) else (Inr b, s))
      | (Inr (List, sz), s) \<Rightarrow> (Inl (wrapStreamError ErrExpectedString), s))"

subsection \<open>Structs and pointers\<close>

fun zeroVal :: "gtype \<Rightarrow> gval" where
  "zeroVal (TUint n) = VUint 0"
| "zeroVal TBool = VBool False"
| "zeroVal TString = VBytes []"
| "zeroVal TBig = VBig 0"
| "zeroVal (TArray n e) = (if isByte e then VBytes (replicate n 0) else VSeq (replicate n (zeroVal e)))"
| "zeroVal (TStruct fs) = VSeq (map (\<lambda>f. zeroVal (snd f)) fs)"
| "zeroVal t = VNil"

text \<open>The values of the fields that take part; from the first missing optional field on they are zero.\<close>

fun decodeFields :: "(Tags \<times> gtype \<times> (Tags \<Rightarrow> gval sdec)) list \<Rightarrow> gval list sdec" where
  "decodeFields [] s = Some (Inr [], s)"
| "decodeFields ((ts, t, dec) # fs) s =
     (case dec ts s of
        None \<Rightarrow> None
      | Some (Inl e, s) \<Rightarrow>
          if e = EOL then
            if Optional ts then Some (Inr (zeroVal t # map (\<lambda>(ts, t, dec). zeroVal t) fs), s)
            else Some (Inl (DecodeError MsgTooFewElements), s)
          else Some (Inl e, s)
      | Some (Inr v, s) \<Rightarrow>
          (case decodeFields fs s of
             None \<Rightarrow> None
           | Some (Inl e, s) \<Rightarrow> Some (Inl e, s)
           | Some (Inr vs, s) \<Rightarrow> Some (Inr (v # vs), s)))"

text \<open>The struct: decoded values in the fields that take part, zero values in the others.\<close>

fun fillFields :: "Tags option list \<Rightarrow> gtype list \<Rightarrow> gval list \<Rightarrow> gval list" where
  "fillFields (Some ts # tgs) (t # tys) (v # vs) = v # fillFields tgs tys vs"
| "fillFields (None # tgs) (t # tys) vs = zeroVal t # fillFields tgs tys vs"
| "fillFields tgs tys vs = []"

definition decodeStruct :: "Tags option list \<Rightarrow> (gtype \<times> (Tags \<Rightarrow> gval sdec)) list \<Rightarrow> gval sdec" where
  "decodeStruct tgs decs s =
     (case stream_List s of
        (Inl e, s) \<Rightarrow> Some (Inl (wrapStreamError e), s)
      | (Inr sz, s) \<Rightarrow>
          (case decodeFields (selectFields tgs decs) s of
             None \<Rightarrow> None
           | Some (Inl e, s) \<Rightarrow> Some (Inl e, s)
           | Some (Inr vs, s) \<Rightarrow> endList wrapStreamError (VSeq (fillFields tgs (map fst decs) vs)) s))"

definition simplePtrDecoder :: "gval sdec \<Rightarrow> gval sdec" where
  "simplePtrDecoder dec s =
     (case dec s of
        None \<Rightarrow> None
      | Some (Inl e, s) \<Rightarrow> Some (Inl e, s)
      | Some (Inr v, s) \<Rightarrow> Some (Inr (VPtr v), s))"

definition nilPtrDecoder :: "Kind \<Rightarrow> gval sdec \<Rightarrow> gval sdec" where
  "nilPtrDecoder nk dec s =
     (case stream_Kind s of
        (Inl e, s) \<Rightarrow> Some (Inl (wrapStreamError e), s)
      | (Inr (k, sz), s) \<Rightarrow>
          if k \<noteq> Byte \<and> sz = 0 then
            if k \<noteq> nk then Some (Inl (DecodeError (MsgWrongEmptyKind k nk)), s)
            else Some (Inr VNil, rearm s)
          else simplePtrDecoder dec s)"

fun decodeInterface :: "nat \<Rightarrow> nat \<Rightarrow> gval sdec" where
  "decodeInterface fuel 0 s = None"
| "decodeInterface fuel (Suc depth) s =
     (case stream_Kind s of
        (Inl e, s) \<Rightarrow> Some (Inl e, s)
      | (Inr (k, sz), s) \<Rightarrow>
          if k = List then
            (case decodeListSlice fuel (decodeInterface fuel depth) s of
               None \<Rightarrow> None
             | Some (Inl e, s) \<Rightarrow> Some (Inl e, s)
             | Some (Inr v, s) \<Rightarrow> Some (Inr (VIface (TSlice TInterface) v), s))
          else lift_op id (\<lambda>b. VIface (TSlice (TUint 8)) (VBytes b)) stream_Bytes s)"

subsection \<open>Types\<close>

fun decoderErr :: "gtype \<Rightarrow> Tags \<Rightarrow> rlp_err option" where
  "decoderErr TOther tg = Some ErrNotSerializable"
| "decoderErr (TPtr e) tg = (if e = TBig then None else decoderErr e noTags)"
| "decoderErr (TSlice e) tg = (if isByte e then None else decoderErr e noTags)"
| "decoderErr (TArray n e) tg = (if isByte e then None else decoderErr e noTags)"
| "decoderErr (TStruct fs) tg =
     (case ProcessFields fs of
        Inl e \<Rightarrow> Some (ErrTag e)
      | Inr tgs \<Rightarrow> firstErr (map (\<lambda>(ts, err). err ts) (selectFields tgs (map (\<lambda>f. decoderErr (snd f)) fs))))"
| "decoderErr t tg = None"

fun decodeVal :: "nat \<Rightarrow> gtype \<Rightarrow> Tags \<Rightarrow> gval sdec" where
  "decodeVal fuel TRaw tg s = lift_op id VBytes stream_Raw s"
| "decodeVal fuel TBig tg s = lift_op wrapStreamError (\<lambda>n. VBig (int n)) stream_decodeBigInt s"
| "decodeVal fuel (TUint n) tg s = lift_op wrapStreamError VUint (stream_uint n) s"
| "decodeVal fuel TBool tg s = lift_op wrapStreamError VBool stream_Bool s"
| "decodeVal fuel TString tg s = lift_op wrapStreamError VBytes stream_Bytes s"
| "decodeVal fuel (TSlice e) tg s =
     (if isByte e then lift_op wrapStreamError VBytes stream_Bytes s
      else if Tail tg then
        (case decodeSliceElems fuel (decodeVal fuel e noTags) [] s of
           None \<Rightarrow> None
         | Some (r, s) \<Rightarrow> Some (map_sum id VSeq r, s))
      else decodeListSlice fuel (decodeVal fuel e noTags) s)"
| "decodeVal fuel (TArray n e) tg s =
     (if isByte e then lift_op id VBytes (decodeByteArray n) s
      else decodeListArray n (decodeVal fuel e noTags) s)"
| "decodeVal fuel (TStruct fs) tg s =
     (case ProcessFields fs of
        Inl e \<Rightarrow> Some (Inl (ErrTag e), s)
      | Inr tgs \<Rightarrow> decodeStruct tgs (map (\<lambda>f. (snd f, decodeVal fuel (snd f))) fs) s)"
| "decodeVal fuel (TPtr e) tg s =
     (if e = TBig then lift_op wrapStreamError (\<lambda>n. VPtr (VBig (int n))) stream_decodeBigInt s
      else if NilOK tg then nilPtrDecoder (typeNilKind e tg) (decodeVal fuel e noTags) s
      else simplePtrDecoder (decodeVal fuel e noTags) s)"
| "decodeVal fuel TInterface tg s = decodeInterface fuel fuel s"
| "decodeVal fuel TOther tg s = Some (Inl ErrNotSerializable, s)"

definition stream_Decode :: "nat \<Rightarrow> gtype \<Rightarrow> gval sdec" where
  "stream_Decode fuel t s =
     (case decoderErr t noTags of Some e \<Rightarrow> Some (Inl e, s) | None \<Rightarrow> decodeVal fuel t noTags s)"

definition DecodeBytes :: "byte list \<Rightarrow> gtype \<Rightarrow> (rlp_err + gval) option" where
  "DecodeBytes b t =
     (case stream_Decode (Suc (length b)) t (Reset b False (word_of_nat (length b)) newStream) of
        None \<Rightarrow> None
      | Some (Inl e, s) \<Rightarrow> Some (Inl e)
      | Some (Inr v, s) \<Rightarrow> if length (inp s) > 0 then Some (Inl ErrMoreThanOneValue) else Some (Inr v))"

end
