(* ===== verification/Rlp_Roundtrip.thy ===== *)
theory Rlp_Roundtrip
  imports Rlp_Decode
begin

text \<open>
  Decoding what was encoded: a value in canonical form is returned unchanged by
  \<open>DecodeBytes\<close> from the bytes \<open>EncodeToBytes\<close> produced for it.
\<close>

text \<open>
  Canonical values: integers within the width of their type, no nil slices, nil pointers in fields
  tagged for them only, no pointer in such a field to a value that encodes as an empty string or
  list (it reads back as nil), raw values that hold one canonically framed value, interfaces with
  the two dynamic types the decoder creates, structs whose left-out fields are zero, and no arrays
  under a tail tag, which \<open>parseTag\<close> refuses.  Two kinds of values that decoding can produce are
  not canonical: a raw value such as \<open>81 05\<close>, whose header \<open>Stream.Raw\<close> does not check, and a
  non-nil pointer in a field tagged \<open>nil\<close> to a struct all of whose fields are optional and zero.
\<close>

fun canon :: "gval \<Rightarrow> gtype \<Rightarrow> Tags \<Rightarrow> bool" where
  "canon (VUint i) t tg = (case t of TUint n \<Rightarrow> n \<in> {8, 16, 32, 64} \<and> uint i < 2 ^ n | _ \<Rightarrow> False)"
| "canon (VBool b) t tg = (t = TBool)"
| "canon (VBytes b) t tg =
     (case t of
        TRaw \<Rightarrow> (case Split b of Inl e \<Rightarrow> False | Inr (k, c, rest) \<Rightarrow> rest = [])
      | TString \<Rightarrow> True
      | TSlice e \<Rightarrow> isByte e
      | TArray n e \<Rightarrow> isByte e \<and> length b = n
      | _ \<Rightarrow> False)"
| "canon (VBig i) t tg = (t = TBig \<and> 0 \<le> i)"
| "canon VNil t tg = (case t of TPtr e \<Rightarrow> e \<noteq> TBig \<and> NilOK tg | _ \<Rightarrow> False)"
| "canon (VPtr v) t tg =
     (case t of
        TPtr e \<Rightarrow> canon v e noTags \<and> (NilOK tg \<and> e \<noteq> TBig \<longrightarrow> valBytes v e noTags \<notin> {[0x80], [0xC0]})
      | _ \<Rightarrow> False)"
| "canon (VSeq vs) t tg =
     (case t of
        TSlice e \<Rightarrow> \<not> isByte e \<and> list_all (\<lambda>c. c e noTags) (map canon vs)
      | TArray n e \<Rightarrow> \<not> isByte e \<and> \<not> Tail tg \<and> length vs = n \<and> list_all (\<lambda>c. c e noTags) (map canon vs)
      | TStruct fs \<Rightarrow>
          (case ProcessFields fs of
             Inl e \<Rightarrow> False
           | Inr tgs \<Rightarrow>
               let flds = selectFields tgs (zip (map snd fs) (zip vs (map canon vs)));
                   n = fieldCount (map (\<lambda>(ts, t, v, c). (ts, isZero v t)) flds)
               in length vs = length fs \<and> list_all (\<lambda>(ts, t, v, c). c t ts) (take n flds) \<and>
                  (case drop n flds of [] \<Rightarrow> True | (ts, x) # xs \<Rightarrow> Optional ts) \<and>
                  vs = fillFields tgs (map snd fs)
                    (map (\<lambda>(ts, t, v, c). v) (take n flds) @ map (\<lambda>(ts, t, v, c). zeroVal t) (drop n flds)))
      | _ \<Rightarrow> False)"
| "canon (VIface e v) t tg =
     (t = TInterface \<and> (e = TSlice (TUint 8) \<or> e = TSlice TInterface) \<and> canon v e noTags)"

subsection \<open>Reading one value\<close>

text \<open>\<open>ready w s\<close>: the bytes \<open>w\<close> are next and fit; \<open>done w s s'\<close>: they have been read.\<close>

definition ready :: "byte list \<Rightarrow> Stream \<Rightarrow> bool" where
  "ready w s \<longleftrightarrow> skind s = None \<and> (\<exists>rest. inp s = w @ rest) \<and> fits (length w) s"

definition past :: "byte list \<Rightarrow> Stream \<Rightarrow> Stream \<Rightarrow> bool" where
  "past w s s' \<longleftrightarrow> consumed (length w) s s' \<and> skind s' = None"

definition sreads :: "'a sop \<Rightarrow> byte list \<Rightarrow> 'a \<Rightarrow> bool" where
  "sreads op w x \<longleftrightarrow> (\<forall>s. ready w s \<longrightarrow> (\<exists>s'. op s = (Inr x, s') \<and> past w s s'))"

definition decodes :: "'a sdec \<Rightarrow> byte list \<Rightarrow> 'a \<Rightarrow> bool" where
  "decodes d w x \<longleftrightarrow> (\<forall>s. ready w s \<longrightarrow> (\<exists>s'. d s = Some (Inr x, s') \<and> past w s s'))"

lemma ready_append: "ready (w @ w') s \<Longrightarrow> ready w s"
  by (auto simp: ready_def intro: fits_mono)

lemma ready_past: "ready (w @ w') s \<Longrightarrow> past w s s' \<Longrightarrow> ready w' s'"
  by (auto simp: ready_def past_def consumed_inp intro: fits_consumed)

lemma past_trans: "past w s s1 \<Longrightarrow> past w' s1 s2 \<Longrightarrow> past (w @ w') s s2"
  by (auto simp: past_def intro: consumed_trans)

lemma decodes_lift: "sreads op w x \<Longrightarrow> decodes (lift_op e f op) w (f x)"
  unfolding sreads_def decodes_def lift_op_def by fastforce

text \<open>After the kind of a framed value has been read, its body is next.\<close>

lemma ready_Kind:
  assumes "ready (frame k c) s" "frame_ok k c"
  obtains s1 where "stream_Kind s = (Inr (k, word_of_nat (body_len k c)), s1)" "consumed (head_len k c) s s1"
    "skind s1 = Some k" "kinderr s1 = None" "ssize s1 = word_of_nat (body_len k c)"
    "k = Byte \<Longrightarrow> byteval s1 = c ! 0" "fits (body_len k c) s1"
    "k \<noteq> Byte \<Longrightarrow> \<exists>rest. inp s1 = c @ rest"
proof -
  from assms(1) obtain rest where r: "skind s = None" "inp s = frame k c @ rest" "fits (length (frame k c)) s"
    by (auto simp: ready_def)
  from stream_Kind_frame [OF r(1,2) assms(2) r(3)] obtain s1 where
    s1: "stream_Kind s = (Inr (k, word_of_nat (body_len k c)), s1)" "consumed (head_len k c) s s1"
      "skind s1 = Some k" "kinderr s1 = None" "ssize s1 = word_of_nat (body_len k c)"
      "k = Byte \<longrightarrow> byteval s1 = c ! 0" "fits (body_len k c) s1" "drop (head_len k c) (inp s) = inp s1" by blast
  have "inp s1 = c @ rest" if "k \<noteq> Byte"
    using s1(8) r(2) that by (cases k) (simp_all add: head_len_def body_len_def)
  then show thesis using s1 by (intro that [of s1]) auto
qed

lemma ready_head:
  assumes "ready (frame k c) s" "frame_ok k c" "k \<noteq> Byte"
  shows "\<exists>s1. stream_Kind s = (Inr (k, word_of_nat (length c)), s1) \<and> consumed (head_len k c) s s1 \<and>
    skind s1 = Some k \<and> kinderr s1 = None \<and> ssize s1 = word_of_nat (length c) \<and> fits (length c) s1 \<and>
    (\<exists>rest. inp s1 = c @ rest)"
proof (rule ready_Kind [OF assms(1,2)])
  fix s1
  have b: "body_len k c = length c" using assms(3) by (simp add: body_len_def)
  assume s1: "stream_Kind s = (Inr (k, word_of_nat (body_len k c)), s1)" "consumed (head_len k c) s s1"
    "skind s1 = Some k" "kinderr s1 = None" "ssize s1 = word_of_nat (body_len k c)" "fits (body_len k c) s1"
    and "k \<noteq> Byte \<Longrightarrow> \<exists>rest. inp s1 = c @ rest"
  then have "\<exists>rest. inp s1 = c @ rest" using assms(3) by blast
  with s1 show ?thesis unfolding b by blast
qed

lemma ready_body:
  assumes "ready (frame k c) s" "frame_ok k c" "k \<noteq> Byte"
  obtains s1 s2 where "stream_Kind s = (Inr (k, word_of_nat (length c)), s1)"
    "readFull (word_of_nat (length c)) s1 = (Inr c, s2)" "past (frame k c) s s2"
    "unat (word_of_nat (length c) :: u64) = length c"
proof -
  from ready_Kind [OF assms(1,2)] obtain s1 where
    s1: "stream_Kind s = (Inr (k, word_of_nat (body_len k c)), s1)" "consumed (head_len k c) s s1"
      "fits (body_len k c) s1" "k \<noteq> Byte \<Longrightarrow> \<exists>rest. inp s1 = c @ rest" by metis
  have b: "body_len k c = length c" using assms(3) by (simp add: body_len_def)
  obtain rest where "inp s1 = c @ rest" using s1(4) assms(3) by blast
  then have rf: "readFull (word_of_nat (length c)) s1 = (Inr c, advance (length c) s1)"
    using readFull_fits [of "length c" s1] s1(3) b by simp
  have "consumed (head_len k c + length c) s (advance (length c) s1)"
    using consumed_trans [OF s1(2) consumed_advance] .
  then have "past (frame k c) s (advance (length c) s1)" using head_body [of k c] b by (simp add: past_def)
  with s1(1) rf fits_unat [OF s1(3)] b show thesis by (intro that [of s1 "advance (length c) s1"]) simp_all
qed

lemma ready_single:
  assumes "ready c s" "length c = 1" "c ! 0 < 0x80"
  obtains s1 where "stream_Kind s = (Inr (Byte, 0), s1)" "byteval s1 = c ! 0" "past c s (rearm s1)"
proof -
  have f: "frame Byte c = c" "frame_ok Byte c" using assms by simp_all
  from ready_Kind [of Byte c s] assms(1) f obtain s1 where
    s1: "stream_Kind s = (Inr (Byte, word_of_nat (body_len Byte c)), s1)" "consumed (head_len Byte c) s s1"
      "byteval s1 = c ! 0" by metis
  then show thesis by (intro that [of s1]) (simp_all add: body_len_def head_len_def past_def rearm_def)
qed

text \<open>Strings: a small single byte or a header with a body.\<close>

lemma encStr_cases:
  obtains (single) "length c = 1" "c ! 0 < 0x80" "encStr c = c"
  | (framed) "\<not> (length c = 1 \<and> c ! 0 < 0x80)" "encStr c = frame String c" "frame_ok String c"
  by (cases "length c = 1 \<and> c ! 0 < 0x80") auto

lemma short_body:
  assumes "\<not> (length c = 1 \<and> c ! 0 < 0x80)" "unat (word_of_nat (length c) :: u64) = length c"
  shows "\<not> (word_of_nat (length c) = (1 :: u64) \<and> c ! 0 < 0x80)"
  using assms by (auto simp: word_unat_eq_iff)

lemma sreads_Bytes: "sreads stream_Bytes (encStr c) c"
  unfolding sreads_def
proof (intro allI impI)
  fix s assume r: "ready (encStr c) s"
  show "\<exists>s'. stream_Bytes s = (Inr c, s') \<and> past (encStr c) s s'"
  proof (cases rule: encStr_cases [of c])
    case single
    with r obtain s1 where "stream_Kind s = (Inr (Byte, 0), s1)" "byteval s1 = c ! 0" "past c s (rearm s1)"
      using ready_single by metis
    moreover have "[c ! 0] = c" using single(1) by (cases c) auto
    ultimately show ?thesis using single(3) by (simp add: stream_Bytes_def del: encStr.simps)
  next
    case framed
    with r obtain s1 s2 where "stream_Kind s = (Inr (String, word_of_nat (length c)), s1)"
      "readFull (word_of_nat (length c)) s1 = (Inr c, s2)" "past (frame String c) s s2"
      "unat (word_of_nat (length c) :: u64) = length c" using ready_body [of String c s] by (metis Kind.distinct(1))
    with framed short_body [OF framed(1)] show ?thesis
      by (simp add: stream_Bytes_def del: encStr.simps frame.simps)
  qed
qed

lemma sreads_ByteArray: "sreads (decodeByteArray (length c)) (encStr c) c"
  unfolding sreads_def
proof (intro allI impI)
  fix s assume r: "ready (encStr c) s"
  show "\<exists>s'. decodeByteArray (length c) s = (Inr c, s') \<and> past (encStr c) s s'"
  proof (cases rule: encStr_cases [of c])
    case single
    with r obtain s1 where "stream_Kind s = (Inr (Byte, 0), s1)" "byteval s1 = c ! 0" "past c s (rearm s1)"
      using ready_single by metis
    moreover have "[c ! 0] = c" using single(1) by (cases c) auto
    ultimately show ?thesis using single by (simp add: decodeByteArray_def del: encStr.simps)
  next
    case framed
    with r obtain s1 s2 where "stream_Kind s = (Inr (String, word_of_nat (length c)), s1)"
      "readFull (word_of_nat (length c)) s1 = (Inr c, s2)" "past (frame String c) s s2"
      "unat (word_of_nat (length c) :: u64) = length c" using ready_body [of String c s] by (metis Kind.distinct(1))
    with framed short_body [OF framed(1)] show ?thesis
      by (simp add: decodeByteArray_def del: encStr.simps frame.simps)
  qed
qed

lemma sreads_Raw: "frame_ok k c \<Longrightarrow> sreads stream_Raw (frame k c) (frame k c)"
  unfolding sreads_def
proof (intro allI impI)
  fix s assume k: "frame_ok k c" and r: "ready (frame k c) s"
  show "\<exists>s'. stream_Raw s = (Inr (frame k c), s') \<and> past (frame k c) s s'"
  proof (cases "k = Byte")
    case True
    with k r obtain s1 where "stream_Kind s = (Inr (Byte, 0), s1)" "byteval s1 = c ! 0" "past c s (rearm s1)"
      using ready_single [of c s] by auto
    moreover have "[c ! 0] = c" using True k by (cases c) auto
    ultimately show ?thesis using True by (simp add: stream_Raw_def)
  next
    case False
    with r k obtain s1 s2 where "stream_Kind s = (Inr (k, word_of_nat (length c)), s1)"
      "readFull (word_of_nat (length c)) s1 = (Inr c, s2)" "past (frame k c) s s2" using ready_body by metis
    with False show ?thesis by (cases k) (simp_all add: stream_Raw_def)
  qed
qed

lemma int_bytes_nz: "n \<noteq> 0 \<Longrightarrow> int_bytes n \<noteq> [] \<and> int_bytes n ! 0 \<noteq> 0"
proof -
  assume n: "n \<noteq> 0"
  have ne: "int_bytes n \<noteq> []" using n blen_pos [of n] by (metis int_bytes_def length_0_conv length_be_bytes less_irrefl)
  obtain b bs where c: "int_bytes n = b # bs" using ne by (cases "int_bytes n") auto
  have v: "be_nat (int_bytes n) = n" using n blen_upper [of n] by (simp add: int_bytes_def be_nat_be_bytes)
  have "b \<noteq> 0"
  proof
    assume "b = 0"
    then have "n = be_nat bs" using v c by (simp add: be_nat_Cons)
    moreover have "length bs = blen n - 1" using c n by (metis diff_Suc_1 int_bytes_def length_Cons length_be_bytes)
    ultimately have lt: "n < 256 ^ (blen n - 1)" using be_nat_bound [of bs] by simp
    show False
    proof (cases "n < 256")
      case True
      then have "blen n = 1" by (simp add: blen.simps [of n])
      with lt n show False by simp
    next
      case False
      with blen_lower [of n] lt show False by simp
    qed
  qed
  with ne c show ?thesis by simp
qed

lemma be_nat_int_bytes: "be_nat (int_bytes n) = n"
  using blen_upper [of n] by (cases "n = 0") (simp_all add: int_bytes_def be_nat_be_bytes)

lemma sreads_decodeBigInt: "sreads stream_decodeBigInt (encStr (int_bytes n)) n"
  unfolding sreads_def
proof (intro allI impI)
  let ?c = "int_bytes n"
  fix s assume r: "ready (encStr ?c) s"
  have z: "\<not> (length ?c > 0 \<and> ?c ! 0 = 0)" using int_bytes_nz [of n] by (cases "n = 0") auto
  show "\<exists>s'. stream_decodeBigInt s = (Inr n, s') \<and> past (encStr ?c) s s'"
  proof (cases rule: encStr_cases [of ?c])
    case single
    with r obtain s1 where "stream_Kind s = (Inr (Byte, 0), s1)" "byteval s1 = ?c ! 0" "past ?c s (rearm s1)"
      using ready_single by metis
    moreover have "[?c ! 0] = ?c" using single(1) by (cases ?c) auto
    ultimately show ?thesis using single z be_nat_int_bytes [of n] by (simp add: stream_decodeBigInt_def del: encStr.simps)
  next
    case framed
    show ?thesis
    proof (cases "?c = []")
      case True
      then have r': "ready (frame String []) s" using r framed(2) by simp
      from ready_Kind [OF r'] obtain s1 where "stream_Kind s = (Inr (String, 0), s1)" "consumed (head_len String []) s s1"
        by (auto simp: body_len_def)
      moreover have "n = 0" using True int_bytes_nz by blast
      ultimately show ?thesis using True framed(2)
        by (simp add: stream_decodeBigInt_def past_def rearm_def head_len_def body_len_def)
    next
      case False
      from framed r obtain s1 s2 where "stream_Kind s = (Inr (String, word_of_nat (length ?c)), s1)"
        "readFull (word_of_nat (length ?c)) s1 = (Inr ?c, s2)" "past (frame String ?c) s s2"
        "unat (word_of_nat (length ?c) :: u64) = length ?c" using ready_body [of String ?c s] by (metis Kind.distinct(1))
      moreover from this(4) False have "(word_of_nat (length ?c) :: u64) \<noteq> 0" by (auto simp: word_unat_eq_iff)
      ultimately show ?thesis using framed short_body [OF framed(1)] z be_nat_int_bytes [of n]
        by (simp add: stream_decodeBigInt_def del: encStr.simps frame.simps)
    qed
  qed
qed

lemma blen_le: "m < 256 ^ k \<Longrightarrow> 0 < k \<Longrightarrow> blen m \<le> k"
proof (rule ccontr)
  assume m: "m < 256 ^ k" "0 < k" and "\<not> blen m \<le> k"
  then have b: "k \<le> blen m - 1" "blen m \<noteq> 1" by auto
  then have "256 \<le> m" using blen.simps [of m] by (cases "m < 256") simp_all
  note lo = blen_lower [OF this]
  have "(256 :: nat) ^ k \<le> 256 ^ (blen m - 1)" using b(1) by (intro power_increasing) simp_all
  with lo m show False by linarith
qed

lemma sreads_uint:
  assumes "n \<in> {8, 16, 32, 64}" "unat i < 2 ^ n"
  shows "sreads (stream_uint n) (encStr (int_bytes (unat i))) i"
  unfolding sreads_def
proof (intro allI impI)
  let ?c = "int_bytes (unat i)"
  fix s assume r: "ready (encStr ?c) s"
  have n: "n = 8 * (n div 8)" "0 < n div 8" "n div 8 \<le> 8" using assms(1) by auto
  show "\<exists>s'. stream_uint n s = (Inr i, s') \<and> past (encStr ?c) s s'"
  proof (cases rule: encStr_cases [of ?c])
    case single
    with r obtain s1 where k: "stream_Kind s = (Inr (Byte, 0), s1)" "byteval s1 = ?c ! 0" "past ?c s (rearm s1)"
      using ready_single by metis
    have nz: "i \<noteq> 0" using single(1) by auto
    obtain b where b: "?c = [b]" using single(1) by (auto simp: length_Suc_conv)
    have "b \<noteq> 0" using int_bytes_nz [of "unat i"] nz b by (simp add: unat_eq_0)
    moreover have "unat i = unat b" using be_nat_int_bytes [of "unat i"] b by (simp add: be_nat_Cons)
    then have "i = ucast b" by (simp add: word_unat_eq_iff)
    ultimately have "b \<noteq> 0" "i = ucast b" by blast+
    with k b single(3) show ?thesis by (simp add: stream_uint_def del: encStr.simps)
  next
    case framed
    show ?thesis
    proof (cases "i = 0")
      case True
      then have r': "ready (frame String []) s" using r framed(2) by simp
      from ready_head [OF r'] obtain s1 where "stream_Kind s = (Inr (String, 0), s1)" "consumed (head_len String []) s s1"
        by auto
      then show ?thesis using True framed(2)
        by (simp add: stream_uint_def readUint_def past_def head_len_def body_len_def)
    next
      case False
      then have c: "?c = putint i" by (rule int_bytes_unat)
      have ge: "\<not> i < 128"
      proof
        assume i: "i < 128"
        then have "i < 256" by (simp add: word_less_nat_alt)
        then have "?c = [ucast i]" "unat (ucast i :: byte) = unat i" using c by (simp_all add: putint_small unat_ucast_small)
        with framed(1) i show False by (simp add: word_less_nat_alt)
      qed
      have len: "length ?c \<le> n div 8"
      proof -
        have "unat i < 256 ^ (n div 8)" using assms by auto
        with blen_le n(2) show ?thesis by (simp add: c length_putint)
      qed
      have "ready (frame String ?c) s" using r framed(2) by (simp only:)
      from ready_head [OF this framed(3)] obtain s1 where
        s1: "stream_Kind s = (Inr (String, word_of_nat (length ?c)), s1)" "consumed (head_len String ?c) s s1"
          "fits (length ?c) s1" "\<exists>rest. inp s1 = ?c @ rest" by auto
      obtain rest where "inp s1 = ?c @ rest" using s1(4) by blast
      moreover have "56 \<le> i" using ge by (simp add: word_less_nat_alt word_le_nat_alt)
      ultimately have ru: "readUint (word_of_nat (length ?c)) s1 = (Inr i, advance (length ?c) s1)"
        using readUint_fits [of ?c s1 rest i] s1(3) c by simp
      have u: "(ucast (word_of_nat (length ?c) :: u64) :: byte) = word_of_nat (length ?c)"
        using ucast_len [of "length ?c"] len n(3) by simp
      have "\<not> (word_of_nat (length ?c) :: u64) > word_of_nat (n div 8)"
        using len n(3) by (simp add: word_less_nat_alt unat_of_nat not_less)
      then have "stream_uint n s = (Inr i, advance (length ?c) s1)"
        unfolding stream_uint_def s1(1) using ru u ge by simp
      moreover have "consumed (length (frame String ?c)) s (advance (length ?c) s1)"
        using consumed_trans [OF s1(2) consumed_advance [of "length ?c" s1]] head_body [of String ?c]
        by (simp add: body_len_def del: frame.simps)
      then have "past (encStr ?c) s (advance (length ?c) s1)"
        unfolding framed(2) past_def by (simp only: skind_advance simp_thms)
      ultimately show ?thesis by blast
    qed
  qed
qed

lemma sreads_Bool: "sreads stream_Bool (encStr (int_bytes (if b then 1 else 0))) b"
proof -
  have "sreads (stream_uint 8) (encStr (int_bytes (unat (if b then 1 else 0 :: u64)))) (if b then 1 else 0)"
    by (rule sreads_uint) simp_all
  moreover have "unat (if b then 1 else 0 :: u64) = (if b then 1 else 0)" by simp
  ultimately have u: "sreads (stream_uint 8) (encStr (int_bytes (if b then 1 else 0))) (if b then 1 else 0)"
    by (simp only:)
  show ?thesis unfolding sreads_def
  proof (intro allI impI)
    fix s assume "ready (encStr (int_bytes (if b then 1 else 0))) s"
    with u obtain s' where "stream_uint 8 s = (Inr (if b then 1 else 0), s')"
      "past (encStr (int_bytes (if b then 1 else 0))) s s'" unfolding sreads_def by blast
    then show "\<exists>s'. stream_Bool s = (Inr b, s') \<and> past (encStr (int_bytes (if b then 1 else 0))) s s'"
      by (cases b) (simp_all add: stream_Bool_def del: encStr.simps)
  qed
qed

subsection \<open>Lists\<close>

text \<open>At the end of the innermost list.\<close>

definition at_end :: "Stream \<Rightarrow> bool" where
  "at_end s \<longleftrightarrow> skind s = None \<and> (\<exists>ls. stack s = 0 # ls)"

definition ends_with :: "byte list \<Rightarrow> Stream \<Rightarrow> bool" where
  "ends_with w s \<longleftrightarrow> (\<exists>ls. stack s = word_of_nat (length w) # ls)"

lemma ends_past: "ends_with (w @ w') s \<Longrightarrow> past w s s' \<Longrightarrow> ends_with w' s'"
  by (auto simp: ends_with_def past_def consumed_def advance_def)

lemma at_end_iff: "skind s = None \<Longrightarrow> ends_with [] s \<Longrightarrow> at_end s"
  by (simp add: ends_with_def at_end_def)

lemma Kind_at_end: "at_end s \<Longrightarrow> stream_Kind s = (Inl EOL, s)"
  by (auto simp: at_end_def stream_Kind_EOL)

lemma list_enter:
  assumes "ready (frame List c) s"
  shows "\<exists>s1. stream_List s = (Inr (word_of_nat (length c)), s1) \<and> ready c s1 \<and> ends_with c s1 \<and>
    (\<forall>s2. past c s1 s2 \<longrightarrow> (\<exists>s3. ListEnd s2 = (Inr (), s3) \<and> past (frame List c) s s3)) \<and>
    unat (word_of_nat (length c) :: u64) = length c"
proof -
  from ready_head [OF assms] obtain s0 where
    s0: "stream_Kind s = (Inr (List, word_of_nat (length c)), s0)" "consumed (head_len List c) s s0"
      "fits (length c) s0" "\<exists>rest. inp s0 = c @ rest" by auto
  define st where "st = (case stack s0 of [] \<Rightarrow> [] | l # ls \<Rightarrow> (l - word_of_nat (length c)) # ls)"
  define s1 where "s1 = s0\<lparr> stack := word_of_nat (length c) # st, skind := None, ssize := 0 \<rparr>"
  have "fits (length c) s1" using s0(3) fits_unat [OF s0(3)] by (simp add: s1_def fits_def)
  moreover have "stream_List s = (Inr (word_of_nat (length c)), s1)"
    using s0(1) by (simp add: stream_List_def s1_def st_def)
  moreover have "\<exists>s3. ListEnd s2 = (Inr (), s3) \<and> past (frame List c) s s3" if p: "past c s1 s2" for s2
  proof -
    have s2: "stack s2 = 0 # st" "inp s2 = drop (length c) (inp s0)" "limited s2 = limited s0"
      "remaining s2 = remaining (advance (length c) s0)"
      using p by (simp_all add: past_def consumed_def advance_def s1_def)
    define s3 where "s3 = s2\<lparr> stack := st, skind := None, ssize := 0 \<rparr>"
    have "consumed (length c) s0 s3" using s2 by (simp add: consumed_def advance_def s3_def st_def)
    from consumed_trans [OF s0(2) this] have "past (frame List c) s s3"
      using head_body [of List c] by (simp add: past_def body_len_def s3_def del: frame.simps)
    moreover have "ListEnd s2 = (Inr (), s3)" using s2(1) by (simp add: ListEnd_def s3_def)
    ultimately show ?thesis by blast
  qed
  moreover have "\<exists>rest. inp s1 = c @ rest" "skind s1 = None" "ends_with c s1"
    using s0(4) by (simp_all add: s1_def ends_with_def)
  ultimately show ?thesis using fits_unat [OF s0(3)] unfolding ready_def by blast
qed

text \<open>Elements in sequence, up to the end of the list.\<close>

lemma decodeSliceElems_reads:
  assumes "list_all2 (decodes d) ws vs" "\<And>s. at_end s \<Longrightarrow> d s = Some (Inl EOL, s)"
    and "ready (concat ws) s" "ends_with (concat ws) s" "length ws < fuel"
  shows "\<exists>s'. decodeSliceElems fuel d acc s = Some (Inr (acc @ vs), s') \<and> past (concat ws) s s'"
  using assms(1,3-)
proof (induction ws vs arbitrary: s acc fuel rule: list_all2_induct)
  case Nil
  then obtain n where n: "fuel = Suc n" by (cases fuel) auto
  have "at_end s" using Nil by (intro at_end_iff) (simp_all add: ready_def)
  moreover have "past [] s s" using Nil by (auto simp: past_def ready_def consumed_def advance_def split: list.splits)
  ultimately show ?case using assms(2) n by simp
next
  case (Cons w ws v vs)
  then obtain n where n: "fuel = Suc n" by (cases fuel) auto
  have r: "ready (w @ concat ws) s" and e: "ends_with (w @ concat ws) s" using Cons.prems by simp_all
  from Cons.hyps(1) ready_append [OF r] obtain s1 where
    s1: "d s = Some (Inr v, s1)" "past w s s1" unfolding decodes_def by blast
  from Cons.IH [OF ready_past [OF r s1(2)] ends_past [OF e s1(2)], of n "acc @ [v]"] Cons.prems(3) n obtain s2 where
    "decodeSliceElems n d (acc @ [v]) s1 = Some (Inr (acc @ v # vs), s2)" "past (concat ws) s1 s2" by auto
  with s1 n past_trans show ?case by auto
qed

lemma decodeArrayElems_reads:
  assumes "list_all2 (decodes d) ws vs" "ready (concat ws) s"
  shows "\<exists>s'. decodeArrayElems (length vs) d acc s = Some (Inr (acc @ vs), s') \<and> past (concat ws) s s'"
  using assms
proof (induction ws vs arbitrary: s acc rule: list_all2_induct)
  case Nil
  have "past [] s s" using Nil by (auto simp: past_def ready_def consumed_def advance_def split: list.splits)
  then show ?case by simp
next
  case (Cons w ws v vs)
  have r: "ready (w @ concat ws) s" using Cons.prems by simp
  from Cons.hyps(1) ready_append [OF r] obtain s1 where
    s1: "d s = Some (Inr v, s1)" "past w s s1" unfolding decodes_def by blast
  from Cons.IH [OF ready_past [OF r s1(2)], of "acc @ [v]"] obtain s2 where
    "decodeArrayElems (length vs) d (acc @ [v]) s1 = Some (Inr (acc @ v # vs), s2)" "past (concat ws) s1 s2" by auto
  with s1 past_trans show ?case by auto
qed

lemma endList_past:
  "ListEnd s = (Inr (), s') \<Longrightarrow> endList w v s = Some (Inr v, s')"
  by (simp add: endList_def lift_op_def)

lemma decodes_ListSlice:
  assumes "list_all2 (decodes d) ws vs" "\<And>s. at_end s \<Longrightarrow> d s = Some (Inl EOL, s)"
    and "length ws < fuel" "\<forall>w\<in>set ws. w \<noteq> []"
  shows "decodes (decodeListSlice fuel d) (frame List (concat ws)) (VSeq vs)"
  unfolding decodes_def
proof (intro allI impI)
  fix s assume "ready (frame List (concat ws)) s"
  from list_enter [OF this] obtain s1 where
    s1: "stream_List s = (Inr (word_of_nat (length (concat ws))), s1)" "ready (concat ws) s1" "ends_with (concat ws) s1"
      "\<And>s2. past (concat ws) s1 s2 \<Longrightarrow> \<exists>s3. ListEnd s2 = (Inr (), s3) \<and> past (frame List (concat ws)) s s3"
      "unat (word_of_nat (length (concat ws)) :: u64) = length (concat ws)" by blast
  from decodeSliceElems_reads [OF assms(1,2) s1(2,3) assms(3), of "[]"] obtain s2 where
    s2: "decodeSliceElems fuel d [] s1 = Some (Inr vs, s2)" "past (concat ws) s1 s2" by auto
  from s1(4) [OF s2(2)] obtain s3 where s3: "ListEnd s2 = (Inr (), s3)" "past (frame List (concat ws)) s s3" by blast
  show "\<exists>s'. decodeListSlice fuel d s = Some (Inr (VSeq vs), s') \<and> past (frame List (concat ws)) s s'"
  proof (cases "ws = []")
    case True
    then have "vs = []" using assms(1) by simp
    have "past [] s1 s1" using s1(2) True by (auto simp: past_def ready_def consumed_def advance_def split: list.splits)
    with s1(4) [of s1] True obtain s3 where "ListEnd s1 = (Inr (), s3)" "past (frame List []) s s3" by auto
    then show ?thesis using s1(1) True \<open>vs = []\<close> endList_past
      by (auto simp: decodeListSlice_def simp del: frame.simps)
  next
    case False
    then have "concat ws \<noteq> []" using assms(4) by (cases ws) auto
    then have "(word_of_nat (length (concat ws)) :: u64) \<noteq> 0" using s1(5) by (metis length_0_conv unat_0)
    then show ?thesis using s1(1) s2(1) s3 endList_past
      by (auto simp: decodeListSlice_def simp del: frame.simps length_concat)
  qed
qed

lemma decodes_ListArray:
  assumes "list_all2 (decodes d) ws vs"
  shows "decodes (decodeListArray (length vs) d) (frame List (concat ws)) (VSeq vs)"
  unfolding decodes_def
proof (intro allI impI)
  fix s assume "ready (frame List (concat ws)) s"
  from list_enter [OF this] obtain s1 where
    s1: "stream_List s = (Inr (word_of_nat (length (concat ws))), s1)" "ready (concat ws) s1"
      "\<And>s2. past (concat ws) s1 s2 \<Longrightarrow> \<exists>s3. ListEnd s2 = (Inr (), s3) \<and> past (frame List (concat ws)) s s3" by blast
  from decodeArrayElems_reads [OF assms s1(2), of "[]"] obtain s2 where
    s2: "decodeArrayElems (length vs) d [] s1 = Some (Inr vs, s2)" "past (concat ws) s1 s2" by auto
  from s1(3) [OF s2(2)] obtain s3 where "ListEnd s2 = (Inr (), s3)" "past (frame List (concat ws)) s s3" by blast
  then show "\<exists>s'. decodeListArray (length vs) d s = Some (Inr (VSeq vs), s') \<and> past (frame List (concat ws)) s s'"
    using s1(1) s2(1) endList_past by (auto simp: decodeListArray_def simp del: frame.simps length_concat)
qed

subsection \<open>Decoders look at the kind first\<close>

lemma Kind_idem: "stream_Kind s = (Inr x, s1) \<Longrightarrow> stream_Kind s1 = (Inr x, s1)"
proof (cases "skind s")
  case (Some k)
  moreover assume "stream_Kind s = (Inr x, s1)"
  ultimately show ?thesis by (cases "kinderr s") (auto simp: stream_Kind_def)
next
  case None
  obtain inList limit where l: "listLimit s = (inList, limit)" by fastforce
  obtain k sz err s0 where r: "stream_readKind s = ((k, sz, err), s0)" by (metis prod_cases3 surj_pair)
  assume "stream_Kind s = (Inr x, s1)"
  then have "x = (k, sz) \<and> s1 = s0\<lparr> skind := Some k, ssize := sz, kinderr := None \<rparr>"
    unfolding stream_Kind_def None l r by (simp add: Let_def split: if_splits option.splits)
  then show ?thesis by (simp add: stream_Kind_def)
qed

definition kind_first :: "(Stream \<Rightarrow> 'a) \<Rightarrow> bool" where
  "kind_first d \<longleftrightarrow> (\<forall>s x s1. stream_Kind s = (Inr x, s1) \<longrightarrow> d s1 = d s)"

lemma kind_firstI: "(\<And>s s'. stream_Kind s = stream_Kind s' \<Longrightarrow> d s = d s') \<Longrightarrow> kind_first d"
  unfolding kind_first_def by (metis Kind_idem)

lemma kind_first_ops:
  "kind_first stream_Bytes" "kind_first stream_Raw" "kind_first (stream_uint n)" "kind_first stream_Bool"
  "kind_first stream_List" "kind_first stream_decodeBigInt" "kind_first (decodeByteArray n)"
  by (rule kind_firstI, simp only: stream_Bytes_def stream_Raw_def stream_uint_def stream_Bool_def stream_List_def
      stream_decodeBigInt_def decodeByteArray_def)+

lemma kind_first_lift: "kind_first op \<Longrightarrow> kind_first (lift_op w f op)"
  by (auto simp: kind_first_def lift_op_def)

lemma kind_first_List:
  "kind_first (decodeListSlice fuel d)" "kind_first (decodeListArray n d)" "kind_first (decodeStruct tgs ds)"
  by (rule kind_firstI, simp only: decodeListSlice_def decodeListArray_def decodeStruct_def stream_List_def)+

lemma kind_first_ptr: "kind_first d \<Longrightarrow> kind_first (simplePtrDecoder d)" "kind_first (nilPtrDecoder k d)"
  by (simp add: kind_first_def simplePtrDecoder_def) (rule kind_firstI, simp only: nilPtrDecoder_def)

lemma kind_first_interface: "kind_first (decodeInterface fuel n)"
  by (rule kind_firstI, cases n) (simp_all only: decodeInterface.simps)

lemma kind_first_decodeVal: "decoderErr t tg = None \<Longrightarrow> \<not> Tail tg \<Longrightarrow> kind_first (decodeVal fuel t tg)"
proof (induction t arbitrary: tg)
  case (TPtr e)
  then have "e \<noteq> TBig \<Longrightarrow> kind_first (decodeVal fuel e noTags)" by (simp add: noTags_def)
  moreover have "decodeVal fuel (TPtr e) tg =
      (if e = TBig then lift_op wrapStreamError (\<lambda>n. VPtr (VBig (int n))) stream_decodeBigInt
       else if NilOK tg then nilPtrDecoder (typeNilKind e tg) (decodeVal fuel e noTags)
       else simplePtrDecoder (decodeVal fuel e noTags))" by (rule ext) simp
  ultimately show ?case by (simp add: kind_first_ptr kind_first_lift kind_first_ops)
next
  case (TStruct fs)
  then obtain tgs where "ProcessFields fs = Inr tgs" by (cases "ProcessFields fs") simp_all
  then have "decodeVal fuel (TStruct fs) tg = decodeStruct tgs (map (\<lambda>f. (snd f, decodeVal fuel (snd f))) fs)"
    by (intro ext) simp
  then show ?case by (simp add: kind_first_List)
next
  case (TSlice e)
  then have "decodeVal fuel (TSlice e) tg =
      (if isByte e then lift_op wrapStreamError VBytes stream_Bytes else decodeListSlice fuel (decodeVal fuel e noTags))"
    by (intro ext) simp
  then show ?case by (simp add: kind_first_List kind_first_lift kind_first_ops)
next
  case (TArray n e)
  have "decodeVal fuel (TArray n e) tg =
      (if isByte e then lift_op id VBytes (decodeByteArray n) else decodeListArray n (decodeVal fuel e noTags))"
    by (intro ext) simp
  then show ?case by (simp add: kind_first_List kind_first_lift kind_first_ops)
qed (simp_all add: kind_first_def kind_first_lift [unfolded kind_first_def, rule_format]
    kind_first_ops [unfolded kind_first_def, rule_format] kind_first_interface [unfolded kind_first_def, rule_format])

text \<open>At the end of a list they all report \<open>EOL\<close>.\<close>

lemma wrap_EOL [simp]: "wrapStreamError EOL = EOL"
  by (simp add: wrapStreamError_def)

lemma EOL_ops:
  assumes "at_end s"
  shows "stream_Bytes s = (Inl EOL, s)" "stream_Raw s = (Inl EOL, s)" "stream_uint n s = (Inl EOL, s)"
    "stream_Bool s = (Inl EOL, s)" "stream_List s = (Inl EOL, s)" "stream_decodeBigInt s = (Inl EOL, s)"
    "decodeByteArray n s = (Inl EOL, s)"
  using Kind_at_end [OF assms]
  by (simp_all add: stream_Bytes_def stream_Raw_def stream_uint_def stream_Bool_def stream_List_def
      stream_decodeBigInt_def decodeByteArray_def)

lemma decodeVal_EOL:
  assumes "at_end s" "decoderErr t tg = None" "\<not> Tail tg" "0 < fuel"
  shows "decodeVal fuel t tg s = Some (Inl EOL, s)"
  using assms(2,3)
proof (induction t arbitrary: tg)
  case (TPtr e)
  have "decodeVal fuel e noTags s = Some (Inl EOL, s)" if "e \<noteq> TBig"
    using TPtr that by (intro TPtr.IH) (simp_all add: noTags_def)
  then show ?case using EOL_ops [OF assms(1)] Kind_at_end [OF assms(1)]
    by (auto simp: lift_op_def simplePtrDecoder_def nilPtrDecoder_def)
next
  case TInterface
  then show ?case using Kind_at_end [OF assms(1)] assms(4) by (cases fuel) simp_all
next
  case (TStruct fs)
  then obtain tgs where "ProcessFields fs = Inr tgs" by (cases "ProcessFields fs") simp_all
  then show ?case by (simp only: decodeVal.simps sum.case decodeStruct_def EOL_ops(5) [OF assms(1)] prod.case wrap_EOL)
qed (simp_all add: lift_op_def decodeListSlice_def decodeListArray_def EOL_ops [OF assms(1)])

subsection \<open>Tags of the fields that take part\<close>

lemma parseTagList_inv:
  assumes "parseTagList t isLast ws ts = Inr ts'" "\<not> (Optional ts \<and> Tail ts)" "Tail ts \<longrightarrow> isLast"
  shows "\<not> (Optional ts' \<and> Tail ts') \<and> (Tail ts' \<longrightarrow> isLast)"
  using assms
proof (induction t isLast ws ts rule: parseTagList.induct)
  case (2 t isLast w ws ts)
  define w' where "w' = TrimSpace w"
  note ih = 2(1-5) [unfolded w'_def [symmetric], OF refl]
  note res = 2(6) [simplified, unfolded Let_def w'_def [symmetric]]
  consider (empty) "w' = ''''" | (dash) "w' = ''-''" | (nil) "w' = ''nil'' \<or> w' = ''nilString'' \<or> w' = ''nilList''"
    | (opt) "w' = ''optional''" | (tail) "w' = ''tail''" | (other) "w' \<notin> {'''', ''-'', ''nil'', ''nilString'', ''nilList'', ''optional'', ''tail''}"
    by blast
  then show ?case
  proof cases
    case empty
    then show ?thesis using ih(1) res 2(7,8) by simp
  next
    case dash
    then show ?thesis using ih(2) res 2(7,8) by simp
  next
    case nil
    then have ne: "w' \<noteq> ''''" "w' \<noteq> ''-''" by auto
    with nil res obtain e where e: "t = TPtr e" by (cases t) auto
    show ?thesis using ih(3) [OF ne nil e refl] res 2(7,8) nil ne e by simp
  next
    case opt
    then show ?thesis using ih(4) res 2(7,8) by (simp split: if_splits)
  next
    case tail
    then show ?thesis using ih(5) res 2(7,8) by (simp split: if_splits)
  next
    case other
    then show ?thesis using res by simp
  qed
qed simp

lemma parseTag_inv:
  "parseTag f isLast = Inr ts \<Longrightarrow> \<not> (Optional ts \<and> Tail ts) \<and> (Tail ts \<longrightarrow> isLast)"
  unfolding parseTag_def by (erule parseTagList_inv) (simp_all add: noTags_def)

lemma gatherTags_props:
  assumes "gatherTags lp i fs = Inr tgs"
  shows "length tgs = length fs \<and> (\<forall>k<length fs. \<forall>ts. tgs ! k = Some ts \<longrightarrow>
    sf_exported (fst (fs ! k)) \<and> \<not> (Optional ts \<and> Tail ts) \<and> (Tail ts \<longrightarrow> i + k = lp))"
  using assms
proof (induction lp i fs arbitrary: tgs rule: gatherTags.induct)
  case (2 lp i f fs)
  show ?case
  proof (cases "sf_exported (fst f)")
    case False
    with 2 obtain tgs' where "tgs = None # tgs'" "gatherTags lp (Suc i) fs = Inr tgs'"
      by (cases "gatherTags lp (Suc i) fs") auto
    note tgs = this
    have ih: "length tgs' = length fs \<and> (\<forall>k<length fs. \<forall>ts. tgs' ! k = Some ts \<longrightarrow>
      sf_exported (fst (fs ! k)) \<and> \<not> (Optional ts \<and> Tail ts) \<and> (Tail ts \<longrightarrow> Suc i + k = lp))"
      by (rule 2(1) [OF False tgs(2)])
    show ?thesis
    proof (intro conjI allI impI)
      fix k ts' assume k: "k < length (f # fs)" and nth: "tgs ! k = Some ts'"
      show "sf_exported (fst ((f # fs) ! k))" "\<not> (Optional ts' \<and> Tail ts')" "Tail ts' \<Longrightarrow> i + k = lp"
        using ih tgs(1) k nth by (cases k; force)+
    qed (simp add: tgs(1) ih)
  next
    case True
    with 2(3) obtain ts where ts: "parseTag f (i = lp) = Inr ts" by (auto split: sum.splits)
    with 2(3) True obtain tgs' where tgs: "tgs = (if Ignored ts then None else Some ts) # tgs'" "gatherTags lp (Suc i) fs = Inr tgs'"
      by (cases "gatherTags lp (Suc i) fs") auto
    have ih: "length tgs' = length fs \<and> (\<forall>k<length fs. \<forall>ts. tgs' ! k = Some ts \<longrightarrow>
      sf_exported (fst (fs ! k)) \<and> \<not> (Optional ts \<and> Tail ts) \<and> (Tail ts \<longrightarrow> Suc i + k = lp))"
      by (rule 2(2) [OF _ ts tgs(2)]) (simp add: True)
    show ?thesis
    proof (intro conjI allI impI)
      fix k ts' assume k: "k < length (f # fs)" and nth: "tgs ! k = Some ts'"
      show "sf_exported (fst ((f # fs) ! k))" "\<not> (Optional ts' \<and> Tail ts')" "Tail ts' \<Longrightarrow> i + k = lp"
        using ih tgs(1) parseTag_inv [OF ts] True k nth by (cases k; force split: if_splits)+
    qed (simp add: tgs(1) ih)
  qed
qed simp

lemma lastPublicField_ge:
  assumes "k < length fs" "sf_exported (fst (fs ! k))"
  shows "k \<le> lastPublicField fs"
proof -
  have "j \<le> length fs \<Longrightarrow> k < j \<Longrightarrow>
      k \<le> fold (\<lambda>i lp. if sf_exported (fst (fs ! i)) then i else lp) [0..<j] 0" for j
  proof (induction j)
    case (Suc j)
    then show ?case using assms(2) by (cases "k = j") auto
  qed simp
  from this [of "length fs"] assms show ?thesis by (simp add: lastPublicField_def)
qed

lemma ProcessFields_props:
  assumes "ProcessFields fs = Inr tgs"
  shows "length tgs = length fs"
    and "Some ts \<in> set tgs \<Longrightarrow> \<not> (Optional ts \<and> Tail ts)"
    and "k < j \<Longrightarrow> j < length fs \<Longrightarrow> tgs ! k = Some ts \<Longrightarrow> tgs ! j = Some ts' \<Longrightarrow> \<not> Tail ts"
proof -
  have g: "gatherTags (lastPublicField fs) 0 fs = Inr tgs"
    using assms by (auto simp: ProcessFields_def split: sum.splits if_splits)
  note p = gatherTags_props [OF g]
  from p show l: "length tgs = length fs" by simp
  show "Some ts \<in> set tgs \<Longrightarrow> \<not> (Optional ts \<and> Tail ts)" using p l by (metis in_set_conv_nth)
  show "\<not> Tail ts" if "k < j" "j < length fs" "tgs ! k = Some ts" "tgs ! j = Some ts'"
  proof
    assume "Tail ts"
    with p that have "k = lastPublicField fs" by auto
    moreover have "sf_exported (fst (fs ! j))" using p that by blast
    ultimately show False using lastPublicField_ge [OF that(2)] that(1) by simp
  qed
qed

text \<open>Among the selected fields only the last can be a tail.\<close>

lemma selectFields_butlast:
  assumes "length tgs = length xs" "\<And>k j ts ts'. k < j \<Longrightarrow> j < length xs \<Longrightarrow> tgs ! k = Some ts \<Longrightarrow> tgs ! j = Some ts' \<Longrightarrow> P ts"
    and "selectFields tgs xs = ps @ (ts, x) # q # qs"
  shows "P ts"
  using assms
proof (induction tgs xs arbitrary: ps rule: list_induct2)
  case (Cons tg tgs y ys)
  note ih = Cons.IH and sel = Cons.prems(2)
  have later: "\<And>k j ts ts'. k < j \<Longrightarrow> j < length ys \<Longrightarrow> tgs ! k = Some ts \<Longrightarrow> tgs ! j = Some ts' \<Longrightarrow> P ts"
    using Cons.prems(1) by (metis Suc_less_eq length_Cons nth_Cons_Suc)
  show ?case
  proof (cases tg)
    case None
    then show ?thesis using ih [OF later, where ps = ps] sel by simp
  next
    case (Some ts0)
    show ?thesis
    proof (cases ps)
      case Nil
      then have "ts0 = ts" "q \<in> set (selectFields tgs ys)" using Cons.prems(2) Some by auto
      then obtain ts' where "Some ts' \<in> set tgs" using set_selectFields by (metis surj_pair)
      then obtain j where "j < length tgs" "tgs ! j = Some ts'" by (metis in_set_conv_nth)
      then show ?thesis using Cons.prems(1) [of 0 "Suc j" ts ts'] Cons.hyps Some \<open>ts0 = ts\<close> by simp
    next
      case (Cons p ps')
      then show ?thesis using ih [OF later, where ps = ps'] sel Some by simp
    qed
  qed
qed simp

subsection \<open>Structs\<close>

definition reads_last :: "'a sdec \<Rightarrow> byte list \<Rightarrow> 'a \<Rightarrow> bool" where
  "reads_last d w x \<longleftrightarrow> (\<forall>s. ready w s \<longrightarrow> ends_with w s \<longrightarrow> (\<exists>s'. d s = Some (Inr x, s') \<and> past w s s'))"

lemma decodes_last: "decodes d w x \<Longrightarrow> reads_last d w x"
  by (simp add: decodes_def reads_last_def)

inductive fields_read :: "(Tags \<times> gtype \<times> (Tags \<Rightarrow> gval sdec)) list \<Rightarrow> byte list list \<Rightarrow> gval list \<Rightarrow> bool" where
  fr_nil: "fields_read [] [] []"
| fr_cons: "decodes (dec tg) w v \<Longrightarrow> fields_read fs ws vs \<Longrightarrow> fields_read ((tg, t, dec) # fs) (w # ws) (v # vs)"
| fr_last: "reads_last (dec tg) w v \<Longrightarrow> fields_read [(tg, t, dec)] [w] [v]"
| fr_rest: "Optional tg \<Longrightarrow> (\<And>s. at_end s \<Longrightarrow> dec tg s = Some (Inl EOL, s)) \<Longrightarrow>
    fields_read ((tg, t, dec) # fs) [] (zeroVal t # map (\<lambda>(tg, t, dec). zeroVal t) fs)"

lemma past_refl: "skind s = None \<Longrightarrow> past [] s s"
  by (auto simp: past_def consumed_def advance_def split: list.splits)

lemma decodeFields_reads:
  assumes "fields_read fs ws vs" "ready (concat ws) s" "ends_with (concat ws) s"
  shows "\<exists>s'. decodeFields fs s = Some (Inr vs, s') \<and> past (concat ws) s s'"
  using assms
proof (induction arbitrary: s rule: fields_read.induct)
  case fr_nil
  then show ?case by (auto simp: ready_def past_refl)
next
  case (fr_cons dec tg w v fs ws vs t)
  have r: "ready (w @ concat ws) s" and e: "ends_with (w @ concat ws) s" using fr_cons.prems by simp_all
  from fr_cons.hyps(1) ready_append [OF r] obtain s1 where
    s1: "dec tg s = Some (Inr v, s1)" "past w s s1" unfolding decodes_def by blast
  from fr_cons.IH [OF ready_past [OF r s1(2)] ends_past [OF e s1(2)]] obtain s2 where
    "decodeFields fs s1 = Some (Inr vs, s2)" "past (concat ws) s1 s2" by blast
  with s1 past_trans show ?case by auto
next
  case (fr_last dec tg w v t)
  then show ?case unfolding reads_last_def by fastforce
next
  case (fr_rest tg dec t fs)
  then have "at_end s" by (intro at_end_iff) (simp_all add: ready_def)
  with fr_rest show ?case by (auto simp: past_refl at_end_def)
qed

lemma decodes_Struct:
  assumes "fields_read (selectFields tgs decs) ws vs"
  shows "decodes (decodeStruct tgs decs) (frame List (concat ws)) (VSeq (fillFields tgs (map fst decs) vs))"
  unfolding decodes_def
proof (intro allI impI)
  fix s assume "ready (frame List (concat ws)) s"
  from list_enter [OF this] obtain s1 where
    s1: "stream_List s = (Inr (word_of_nat (length (concat ws))), s1)" "ready (concat ws) s1" "ends_with (concat ws) s1"
      "\<And>s2. past (concat ws) s1 s2 \<Longrightarrow> \<exists>s3. ListEnd s2 = (Inr (), s3) \<and> past (frame List (concat ws)) s s3" by blast
  from decodeFields_reads [OF assms s1(2,3)] obtain s2 where
    s2: "decodeFields (selectFields tgs decs) s1 = Some (Inr vs, s2)" "past (concat ws) s1 s2" by blast
  from s1(4) [OF s2(2)] obtain s3 where "ListEnd s2 = (Inr (), s3)" "past (frame List (concat ws)) s s3" by blast
  then show "\<exists>s'. decodeStruct tgs decs s = Some (Inr (VSeq (fillFields tgs (map fst decs) vs)), s') \<and>
      past (frame List (concat ws)) s s'"
    using s1(1) s2(1) endList_past by (auto simp: decodeStruct_def simp del: frame.simps length_concat)
qed

subsection \<open>Pointers and interfaces\<close>

lemma decodes_simplePtr: "decodes d w v \<Longrightarrow> decodes (simplePtrDecoder d) w (VPtr v)"
  unfolding decodes_def simplePtrDecoder_def by fastforce

lemma decodes_nilPtr_nil: "nk \<noteq> Byte \<Longrightarrow> decodes (nilPtrDecoder nk d) (frame nk []) VNil"
  unfolding decodes_def
proof (intro allI impI)
  fix s assume "nk \<noteq> Byte" "ready (frame nk []) s"
  moreover from this(1) have "frame_ok nk []" by (cases nk) simp_all
  ultimately obtain s1 where s1: "stream_Kind s = (Inr (nk, 0), s1)" "consumed (head_len nk []) s s1"
    using ready_head [of nk "[]" s] by auto
  then have "past (frame nk []) s (rearm s1)"
    using head_body [of nk "[]"] \<open>nk \<noteq> Byte\<close> by (simp add: past_def rearm_def body_len_def)
  with s1(1) \<open>nk \<noteq> Byte\<close> show "\<exists>s'. nilPtrDecoder nk d s = Some (Inr VNil, s') \<and> past (frame nk []) s s'"
    by (simp add: nilPtrDecoder_def)
qed

lemma decodes_nilPtr:
  assumes "decodes d (frame k c) v" "kind_first d" "frame_ok k c" "k = Byte \<or> c \<noteq> []"
  shows "decodes (nilPtrDecoder nk d) (frame k c) (VPtr v)"
  unfolding decodes_def
proof (intro allI impI)
  fix s assume r: "ready (frame k c) s"
  have z: "\<not> (k \<noteq> Byte \<and> (word_of_nat (body_len k c) :: u64) = 0)" if "fits (body_len k c) s1" for s1
    using assms(4) fits_unat [OF that] by (auto simp: body_len_def word_unat_eq_iff)
  obtain s1 where s1: "stream_Kind s = (Inr (k, word_of_nat (body_len k c)), s1)" "fits (body_len k c) s1"
    by (rule ready_Kind [OF r assms(3)]) blast
  then have "d s1 = d s" using assms(2) unfolding kind_first_def by blast
  then have "simplePtrDecoder d s1 = simplePtrDecoder d s" by (simp add: simplePtrDecoder_def)
  with s1 z [OF s1(2)] have "nilPtrDecoder nk d s = simplePtrDecoder d s" by (auto simp: nilPtrDecoder_def)
  with decodes_simplePtr [OF assms(1)] r show "\<exists>s'. nilPtrDecoder nk d s = Some (Inr (VPtr v), s') \<and> past (frame k c) s s'"
    unfolding decodes_def by simp
qed

lemma decodes_interface_bytes:
  "decodes (decodeInterface fuel (Suc n)) (encStr b) (VIface (TSlice (TUint 8)) (VBytes b))"
  unfolding decodes_def
proof (intro allI impI)
  fix s assume r: "ready (encStr b) s"
  obtain k where k: "encStr b = frame k b" "frame_ok k b" "k \<noteq> List"
    by (cases rule: encStr_cases [of b]) (metis frame.simps(1) frame_ok.simps(1) Kind.distinct(3), metis Kind.distinct(5))
  obtain s1 where s1: "stream_Kind s = (Inr (k, word_of_nat (body_len k b)), s1)"
    by (rule ready_Kind [OF r [unfolded k(1)] k(2)]) blast
  then have "stream_Bytes s1 = stream_Bytes s" using kind_first_ops(1) unfolding kind_first_def by blast
  moreover from sreads_Bytes r obtain s2 where "stream_Bytes s = (Inr b, s2)" "past (encStr b) s s2"
    unfolding sreads_def by blast
  ultimately show "\<exists>s'. decodeInterface fuel (Suc n) s = Some (Inr (VIface (TSlice (TUint 8)) (VBytes b)), s') \<and>
      past (encStr b) s s'" using s1 k(3) by (simp add: lift_op_def del: encStr.simps)
qed

lemma decodes_interface_list:
  assumes "list_all2 (decodes (decodeInterface fuel n)) ws vs" "length ws < fuel" "\<forall>w\<in>set ws. w \<noteq> []" "0 < n"
  shows "decodes (decodeInterface fuel (Suc n)) (frame List (concat ws)) (VIface (TSlice TInterface) (VSeq vs))"
  unfolding decodes_def
proof (intro allI impI)
  fix s assume r: "ready (frame List (concat ws)) s"
  have eol: "at_end s \<Longrightarrow> decodeInterface fuel n s = Some (Inl EOL, s)" for s
    using assms(4) Kind_at_end by (cases n) simp_all
  obtain s1 where s1: "stream_Kind s = (Inr (List, word_of_nat (body_len List (concat ws))), s1)"
    by (rule ready_Kind [OF r]) auto
  then have "decodeListSlice fuel (decodeInterface fuel n) s1 = decodeListSlice fuel (decodeInterface fuel n) s"
    using kind_first_List(1) unfolding kind_first_def by blast
  moreover from decodes_ListSlice [OF assms(1) eol assms(2,3)] r obtain s2 where
    "decodeListSlice fuel (decodeInterface fuel n) s = Some (Inr (VSeq vs), s2)" "past (frame List (concat ws)) s s2"
    unfolding decodes_def by blast
  ultimately show "\<exists>s'. decodeInterface fuel (Suc n) s = Some (Inr (VIface (TSlice TInterface) (VSeq vs)), s') \<and>
      past (frame List (concat ws)) s s'" using s1 by (simp del: frame.simps)
qed

subsection \<open>Round trip\<close>

lemma encStr_frame: "\<exists>k. encStr c = frame k c \<and> frame_ok k c \<and> k \<noteq> List"
proof (cases rule: encStr_cases [of c])
  case single
  then show ?thesis by (intro exI [of _ Byte]) simp
next
  case framed
  then show ?thesis by (intro exI [of _ String]) simp
qed

lemma frame_List_ex: "\<exists>k c'. frame List c = frame k c' \<and> frame_ok k c'"
  by (intro exI [of _ List] exI [of _ c]) simp

lemma canon_frame:
  "canon v t tg \<Longrightarrow> \<not> Tail tg \<Longrightarrow> length (valBytes v t tg) < 2 ^ 64 \<Longrightarrow>
    \<exists>k c. valBytes v t tg = frame k c \<and> frame_ok k c"
proof (induction v arbitrary: t tg)
  case (VBytes b)
  show ?case
  proof (cases "t = TRaw")
    case True
    with VBytes obtain k c where "Split b = Inr (k, c, [])" by (auto split: sum.splits)
    with Split_canon [OF this] VBytes.prems True show ?thesis by auto
  next
    case False
    then show ?thesis using encStr_frame [of b] by (auto simp del: encStr.simps)
  qed
next
  case VNil
  then obtain e where "t = TPtr e" by (cases t) simp_all
  then show ?case using encStr_frame [of "[]"] frame_List_ex by (auto simp del: encStr.simps frame.simps)
next
  case (VPtr v)
  then obtain e where "t = TPtr e" "canon v e noTags" by (cases t) simp_all
  with VPtr show ?case by (simp add: noTags_def)
next
  case (VSeq vs)
  then show ?case
  proof (cases t)
    case (TStruct fs)
    with VSeq obtain tgs where "ProcessFields fs = Inr tgs" by (auto split: sum.splits)
    then show ?thesis unfolding TStruct by (simp only: valBytes_struct frame_List_ex)
  qed (simp_all add: frame_List_ex del: frame.simps)
next
  case (VIface e v)
  then show ?case by (simp add: noTags_def)
qed (simp_all only: valBytes.simps, (use encStr_frame in blast)+)

lemma canon_nonempty: "canon v t tg \<Longrightarrow> \<not> Tail tg \<Longrightarrow> length (valBytes v t tg) < 2 ^ 64 \<Longrightarrow> valBytes v t tg \<noteq> []"
  using canon_frame frame_nonempty by metis

lemma length_le_concat_count: "\<forall>w\<in>set ws. w \<noteq> [] \<Longrightarrow> length ws \<le> length (concat ws)"
proof (induction ws)
  case (Cons w ws)
  then show ?case by (cases w) auto
qed simp

lemma length_frame_List: "length c < length (frame List c)"
  by (simp add: length_puthead headsize_def)

lemma noTags_simps [simp]: "\<not> Tail noTags" "\<not> NilOK noTags" "\<not> Optional noTags"
  by (simp_all add: noTags_def)

lemma decodes_interface:
  assumes "canon v TInterface noTags" "length (valBytes v TInterface noTags) < n"
    "length (valBytes v TInterface noTags) < fuel" "length (valBytes v TInterface noTags) < 2 ^ 64"
  shows "decodes (decodeInterface fuel n) (valBytes v TInterface noTags) v"
  using assms
proof (induction v arbitrary: n rule: measure_induct_rule [where f = size])
  case (less v)
  from less.prems(1) obtain e u where v: "v = VIface e u" "e = TSlice (TUint 8) \<or> e = TSlice TInterface" "canon u e noTags"
    by (cases v) simp_all
  obtain m where n: "n = Suc m" using less.prems(2) by (cases n) auto
  from v(2) show ?case
  proof
    assume e: "e = TSlice (TUint 8)"
    with v(3) obtain b where "u = VBytes b" by (cases u) (simp_all add: isByte_def)
    then show ?thesis using decodes_interface_bytes [of fuel m b] v e n by (simp del: encStr.simps decodeInterface.simps)
  next
    assume e: "e = TSlice TInterface"
    with v(3) obtain vs where u: "u = VSeq vs" and c: "\<forall>x\<in>set vs. canon x TInterface noTags"
      by (cases u) (simp_all add: isByte_def list_all_iff)
    let ?ws = "map (\<lambda>x. valBytes x TInterface noTags) vs"
    have w: "valBytes v TInterface noTags = frame List (concat ?ws)" using v e u by (simp del: frame.simps)
    have lt: "length (concat ?ws) < length (valBytes v TInterface noTags)" unfolding w by (rule length_frame_List)
    have le: "length (valBytes x TInterface noTags) \<le> length (concat ?ws)" if "x \<in> set vs" for x
      using length_le_concat [OF that] .
    have ne: "\<forall>w\<in>set ?ws. w \<noteq> []"
    proof
      fix w assume "w \<in> set ?ws"
      then obtain x where "x \<in> set vs" "w = valBytes x TInterface noTags" by auto
      then show "w \<noteq> []" using canon_nonempty [of x TInterface noTags] c le [of x] lt less.prems(4) by simp
    qed
    have "list_all2 (decodes (decodeInterface fuel m)) ?ws vs"
    proof (simp add: list_all2_map1 list_all2_same, intro ballI)
      fix x assume x: "x \<in> set vs"
      have "size x < size v" using size_list_estimation' [OF x, of "size x" size] by (simp add: v u)
      then show "decodes (decodeInterface fuel m) (valBytes x TInterface noTags) x"
        using less.IH [of x m] c x le [OF x] lt less.prems n by simp
    qed
    moreover have "length ?ws < fuel" using length_le_concat_count [OF ne] lt less.prems(3) by simp
    moreover have "0 < m" using lt less.prems(2) n by simp
    ultimately show ?thesis using decodes_interface_list [of fuel m ?ws vs] ne w v e u n
      by (simp del: decodeInterface.simps frame.simps length_concat)
  qed
qed

text \<open>The selected fields of a struct value: those that are written, then those that are left out.\<close>

definition restFields :: "Tags option list \<Rightarrow> gtype list \<Rightarrow> gval list \<Rightarrow> (Tags \<times> gtype \<times> gval) list" where
  "restFields tgs ts vs =
     (let flds = selectFields tgs (zip ts vs)
      in drop (fieldCount (map (\<lambda>(tg, t, v). (tg, isZero v t)) flds)) flds)"

lemma out_rest: "selectFields tgs (zip ts vs) = outFields tgs ts vs @ restFields tgs ts vs"
  by (simp add: outFields_def restFields_def Let_def)

lemma select_rest:
  "(let flds = selectFields tgs (zip ts (zip vs (map w vs)));
        n = fieldCount (map (\<lambda>(tg, t, v, x). (tg, isZero v t)) flds)
    in drop n flds) = map (\<lambda>(tg, t, v). (tg, t, v, w v)) (restFields tgs ts vs)"
  by (simp add: zip_with selectFields_map restFields_def Let_def drop_map comp_def case_prod_beta')

lemma canon_struct:
  assumes "ProcessFields fs = Inr tgs" "canon (VSeq vs) (TStruct fs) tg"
  shows "length vs = length fs" "\<forall>(tg, t, v)\<in>set (outFields tgs (map snd fs) vs). canon v t tg"
    "\<And>ts x xs. restFields tgs (map snd fs) vs = (ts, x) # xs \<Longrightarrow> Optional ts"
    "vs = fillFields tgs (map snd fs) (map (\<lambda>(tg, t, v). v) (outFields tgs (map snd fs) vs) @
       map (\<lambda>(tg, t, v). zeroVal t) (restFields tgs (map snd fs) vs))"
proof -
  define flds where "flds = selectFields tgs (zip (map snd fs) (zip vs (map canon vs)))"
  define n where "n = fieldCount (map (\<lambda>(ts, t, v, c). (ts, isZero v t)) flds)"
  have o: "take n flds = map (\<lambda>(tg, t, v). (tg, t, v, canon v)) (outFields tgs (map snd fs) vs)"
    using select_out [of tgs "map snd fs" vs canon] by (simp add: Let_def flds_def n_def)
  have r: "drop n flds = map (\<lambda>(tg, t, v). (tg, t, v, canon v)) (restFields tgs (map snd fs) vs)"
    using select_rest [of tgs "map snd fs" vs canon] by (simp add: Let_def flds_def n_def)
  have c: "length vs = length fs" "list_all (\<lambda>(ts, t, v, c). c t ts) (take n flds)"
    "case drop n flds of [] \<Rightarrow> True | (ts, x) # xs \<Rightarrow> Optional ts"
    "vs = fillFields tgs (map snd fs) (map (\<lambda>(ts, t, v, c). v) (take n flds) @ map (\<lambda>(ts, t, v, c). zeroVal t) (drop n flds))"
    using assms by (simp_all add: Let_def flds_def n_def)
  show "length vs = length fs" by (rule c)
  show "\<forall>(tg, t, v)\<in>set (outFields tgs (map snd fs) vs). canon v t tg"
    using c(2) unfolding o by (fastforce simp: list_all_iff)
  show "Optional ts" if "restFields tgs (map snd fs) vs = (ts, x) # xs" for ts x xs
    using c(3) that unfolding r by (simp split: prod.splits)
  show "vs = fillFields tgs (map snd fs) (map (\<lambda>(tg, t, v). v) (outFields tgs (map snd fs) vs) @
       map (\<lambda>(tg, t, v). zeroVal t) (restFields tgs (map snd fs) vs))"
    using c(4) unfolding o r by (simp add: comp_def case_prod_beta')
qed

lemma firstErr_None: "firstErr es = None \<longleftrightarrow> (\<forall>e\<in>set es. e = None)"
  by (induction es rule: firstErr.induct) auto

lemma select_types:
  assumes "length vs = length fs"
  shows "selectFields tgs (map (\<lambda>f. g (snd f)) fs) = map (\<lambda>(tg, t, v). (tg, g t)) (selectFields tgs (zip (map snd fs) vs))"
proof -
  have "map (\<lambda>f. g (snd f)) fs = map (\<lambda>(t, v). g t) (zip (map snd fs) vs)"
    using assms by (simp add: list_eq_iff_nth_eq)
  then show ?thesis by (simp add: selectFields_map comp_def case_prod_beta')
qed

text \<open>From the fields that are written and those that are left out to what the struct decoder reads.\<close>

lemma fields_readI:
  assumes "\<And>ps tg t v qs. outs = ps @ (tg, t, v) # qs \<Longrightarrow> qs @ rest \<noteq> [] \<Longrightarrow> decodes (D t tg) (B (tg, t, v)) v"
    and "\<And>ps tg t v. outs = ps @ [(tg, t, v)] \<Longrightarrow> rest = [] \<Longrightarrow> reads_last (D t tg) (B (tg, t, v)) v"
    and "\<And>tg t v xs s. rest = (tg, t, v) # xs \<Longrightarrow> Optional tg \<and> (at_end s \<longrightarrow> D t tg s = Some (Inl EOL, s))"
  shows "fields_read (map (\<lambda>(tg, t, v). (tg, t, D t)) (outs @ rest)) (map B outs)
    (map (\<lambda>(tg, t, v). v) outs @ map (\<lambda>(tg, t, v). zeroVal t) rest)"
  using assms
proof (induction outs)
  case Nil
  show ?case
  proof (cases rest)
    case (Cons x xs)
    obtain tg t v where x: "x = (tg, t, v)" by (metis prod_cases3)
    have "map (\<lambda>(tg, t, v). zeroVal t) xs = map (\<lambda>(tg, t, dec). zeroVal t) (map (\<lambda>(tg, t, v). (tg, t, D t)) xs)"
      by (simp add: comp_def case_prod_beta')
    moreover have "fields_read ((tg, t, D t) # map (\<lambda>(tg, t, v). (tg, t, D t)) xs) []
        (zeroVal t # map (\<lambda>(tg, t, dec). zeroVal t) (map (\<lambda>(tg, t, v). (tg, t, D t)) xs))"
      using Nil(3) [of tg t v xs] Cons x by (intro fr_rest) simp_all
    ultimately show ?thesis using Cons x by (simp only: map_append append_Nil list.map prod.case)
  qed (simp add: fr_nil)
next
  case (Cons x outs)
  obtain tg t v where x: "x = (tg, t, v)" by (metis prod_cases3)
  show ?case
  proof (cases "outs @ rest = []")
    case True
    then show ?thesis using Cons.prems(2) [of "[]" tg t v] x fr_last by simp
  next
    case False
    then have "decodes (D t tg) (B (tg, t, v)) v" using Cons.prems(1) [of "[]" tg t v outs] x by simp
    moreover have "fields_read (map (\<lambda>(tg, t, v). (tg, t, D t)) (outs @ rest)) (map B outs)
        (map (\<lambda>(tg, t, v). v) outs @ map (\<lambda>(tg, t, v). zeroVal t) rest)"
    proof (rule Cons.IH)
      show "decodes (D t tg) (B (tg, t, v)) v" if "outs = ps @ (tg, t, v) # qs" "qs @ rest \<noteq> []" for ps tg t v qs
        using Cons.prems(1) [of "x # ps" tg t v qs] that by simp
      show "reads_last (D t tg) (B (tg, t, v)) v" if "outs = ps @ [(tg, t, v)]" "rest = []" for ps tg t v
        using Cons.prems(2) [of "x # ps" tg t v] that by simp
    qed (use Cons.prems(3) in blast)
    ultimately show ?thesis using x by (simp add: fr_cons)
  qed
qed

text \<open>What \<open>decodeVal\<close> does on the encoding of a canonical value, by the kind of the field it fills.\<close>

definition decodes_field :: "nat \<Rightarrow> gtype \<Rightarrow> Tags \<Rightarrow> gval \<Rightarrow> bool" where
  "decodes_field fuel t tg v =
     (if Tail tg then reads_last (decodeVal fuel t tg) (valBytes v t tg) v
      else decodes (decodeVal fuel t tg) (valBytes v t tg) v)"

lemma decodes_field_any: "decodes (decodeVal fuel t tg) (valBytes v t tg) v \<Longrightarrow> decodes_field fuel t tg v"
  by (simp add: decodes_field_def decodes_last)

lemma decodes_eqI: "(\<And>s. d s = d' s) \<Longrightarrow> decodes d' w v \<Longrightarrow> decodes d w v"
  by (simp add: decodes_def)

lemma decodes_elems:
  assumes "\<And>v. v \<in> set vs \<Longrightarrow> canon v e noTags \<Longrightarrow> length (valBytes v e noTags) < fuel \<Longrightarrow> decodes_field fuel e noTags v"
    and "\<forall>v\<in>set vs. canon v e noTags" "length (concat (map (\<lambda>v. valBytes v e noTags) vs)) < fuel" "fuel \<le> 2 ^ 64"
  shows "list_all2 (decodes (decodeVal fuel e noTags)) (map (\<lambda>v. valBytes v e noTags) vs) vs"
    "\<forall>w\<in>set (map (\<lambda>v. valBytes v e noTags) vs). w \<noteq> []"
    "length (map (\<lambda>v. valBytes v e noTags) vs) < fuel"
proof -
  have le: "length (valBytes v e noTags) < fuel" if "v \<in> set vs" for v
    using length_le_concat [OF that, of "\<lambda>v. valBytes v e noTags"] assms(3) by simp
  have "decodes (decodeVal fuel e noTags) (valBytes v e noTags) v" if "v \<in> set vs" for v
    using assms(1) [OF that _ le [OF that]] assms(2) that by (simp add: decodes_field_def)
  then show "list_all2 (decodes (decodeVal fuel e noTags)) (map (\<lambda>v. valBytes v e noTags) vs) vs"
    by (simp add: list_all2_map1 list_all2_same)
  show ne: "\<forall>w\<in>set (map (\<lambda>v. valBytes v e noTags) vs). w \<noteq> []"
    using assms(2,4) le canon_nonempty [of _ e noTags] by fastforce
  show "length (map (\<lambda>v. valBytes v e noTags) vs) < fuel" using length_le_concat_count [OF ne] assms(3) by linarith
qed

lemma decodes_struct:
  assumes ih: "\<And>v t tg. v \<in> set vs \<Longrightarrow> canon v t tg \<Longrightarrow> decoderErr t tg = None \<Longrightarrow> length (valBytes v t tg) < fuel \<Longrightarrow>
      decodes_field fuel t tg v"
    and c: "canon (VSeq vs) (TStruct fs) tg" "decoderErr (TStruct fs) tg = None"
      "length (valBytes (VSeq vs) (TStruct fs) tg) < fuel"
  shows "decodes (decodeVal fuel (TStruct fs) tg) (valBytes (VSeq vs) (TStruct fs) tg) (VSeq vs)"
proof -
  from c(1) obtain tgs where p: "ProcessFields fs = Inr tgs" by (cases "ProcessFields fs") auto
  note cs = canon_struct [OF p c(1)]
  let ?tys = "map snd fs" and ?outs = "outFields tgs (map snd fs) vs" and ?rest = "restFields tgs (map snd fs) vs"
  let ?B = "\<lambda>(tg, t, v). valBytes v t tg" and ?decs = "map (\<lambda>f. (snd f, decodeVal fuel (snd f))) fs"
  note sel = out_rest [of tgs ?tys vs]
  have err: "decoderErr t ts = None" if "(ts, t, v) \<in> set (?outs @ ?rest)" for ts t v
    using c(2) that unfolding sel [symmetric] by (auto simp: p select_types [OF cs(1)] firstErr_None)
  have notail: "\<not> Tail ts" if "?outs @ ?rest = ps @ (ts, x) # q # qs" for ps ts x q qs
    using selectFields_butlast [of tgs "zip ?tys vs" "\<lambda>ts. \<not> Tail ts" ps ts x q qs] ProcessFields_props(1,3) [OF p]
      that sel cs(1) by simp
  have w: "valBytes (VSeq vs) (TStruct fs) tg = frame List (concat (map ?B ?outs))" by (rule valBytes_struct [OF p])
  have lt: "length (concat (map ?B ?outs)) < fuel" using length_frame_List [of "concat (map ?B ?outs)"] c(3) w by simp
  have field: "decodes_field fuel t ts v" if "(ts, t, v) \<in> set ?outs" for ts t v
  proof (rule ih)
    show "v \<in> set vs" using set_outFields that by blast
    show "canon v t ts" using cs(2) that by blast
    show "decoderErr t ts = None" using err [of ts t v] that by simp
    show "length (valBytes v t ts) < fuel" using length_le_concat [OF that, of ?B] lt by simp
  qed
  have "fields_read (map (\<lambda>(tg, t, v). (tg, t, decodeVal fuel t)) (?outs @ ?rest)) (map ?B ?outs)
      (map (\<lambda>(tg, t, v). v) ?outs @ map (\<lambda>(tg, t, v). zeroVal t) ?rest)"
  proof (rule fields_readI)
    fix ps ts t v qs
    assume o: "?outs = ps @ (ts, t, v) # qs" and ne: "qs @ ?rest \<noteq> []"
    then have "\<not> Tail ts" using notail [of ps ts "(t, v)"] by (cases "qs @ ?rest") auto
    with field [of ts t v] o show "decodes (decodeVal fuel t ts) (?B (ts, t, v)) v" by (simp add: decodes_field_def)
  next
    fix ps ts t v
    assume "?outs = ps @ [(ts, t, v)]"
    with field [of ts t v] show "reads_last (decodeVal fuel t ts) (?B (ts, t, v)) v"
      by (auto simp: decodes_field_def decodes_last split: if_splits)
  next
    fix ts t v xs s
    assume r: "?rest = (ts, t, v) # xs"
    then have o: "Optional ts" using cs(3) [of ts "(t, v)" xs] by simp
    have "(ts, t, v) \<in> set (selectFields tgs (zip ?tys vs))" using r sel by simp
    from set_selectFields [OF this] have "Some ts \<in> set tgs" by blast
    then have "\<not> Tail ts" using ProcessFields_props(2) [OF p] o by blast
    then show "Optional ts \<and> (at_end s \<longrightarrow> decodeVal fuel t ts s = Some (Inl EOL, s))"
      using o decodeVal_EOL [of s t ts fuel] err [of ts t v] r c(3) by auto
  qed
  moreover have "selectFields tgs ?decs = map (\<lambda>(tg, t, v). (tg, t, decodeVal fuel t)) (?outs @ ?rest)"
    unfolding sel [symmetric] using select_types [OF cs(1), of tgs "\<lambda>t. (t, decodeVal fuel t)"] by simp
  ultimately have "decodes (decodeStruct tgs ?decs) (frame List (concat (map ?B ?outs)))
      (VSeq (fillFields tgs (map fst ?decs) (map (\<lambda>(tg, t, v). v) ?outs @ map (\<lambda>(tg, t, v). zeroVal t) ?rest)))"
    by (intro decodes_Struct) simp
  moreover have "map fst ?decs = ?tys" by simp
  ultimately have "decodes (decodeStruct tgs ?decs) (valBytes (VSeq vs) (TStruct fs) tg) (VSeq vs)"
    unfolding w using cs(4) by metis
  then show ?thesis by (rule decodes_eqI [rotated]) (simp add: p)
qed

lemma decodes_canon_bytes:
  assumes "canon (VBytes b) t tg" "length (valBytes (VBytes b) t tg) < 2 ^ 64"
  shows "decodes_field fuel t tg (VBytes b)"
proof -
  note lb = decodes_lift [OF sreads_Bytes, where f = VBytes]
  consider (raw) "t = TRaw" | (str) "t = TString" | (slice) e where "t = TSlice e" "isByte e"
    | (arr) e where "t = TArray (length b) e" "isByte e"
    using assms(1) by (cases t) auto
  then show ?thesis
  proof cases
    case raw
    with assms(1) obtain k c where "Split b = Inr (k, c, [])" by (auto split: sum.splits)
    with Split_canon [OF this] assms(2) raw have "b = frame k c" "frame_ok k c" by auto
    then have "decodes (lift_op id VBytes stream_Raw) b (VBytes b)" using decodes_lift [OF sreads_Raw] by metis
    then show ?thesis unfolding raw by (intro decodes_field_any decodes_eqI [OF decodeVal.simps(1)]) simp
  next
    case str
    have "decodes (decodeVal fuel t tg) (encStr b) (VBytes b)" using str by (intro decodes_eqI [OF _ lb]) simp
    then show ?thesis using str by (intro decodes_field_any) (simp del: encStr.simps decodeVal.simps)
  next
    case slice
    then have "decodes (decodeVal fuel t tg) (encStr b) (VBytes b)" by (intro decodes_eqI [OF _ lb]) simp
    then show ?thesis using slice by (intro decodes_field_any) (simp del: encStr.simps decodeVal.simps)
  next
    case arr
    then have "decodes (decodeVal fuel t tg) (encStr b) (VBytes b)"
      by (intro decodes_eqI [OF _ decodes_lift [OF sreads_ByteArray]]) simp
    then show ?thesis using arr by (intro decodes_field_any) (simp del: encStr.simps decodeVal.simps)
  qed
qed

lemma decodes_canon_nil:
  assumes "canon VNil t tg"
  shows "decodes_field fuel t tg VNil"
proof -
  from assms obtain e where e: "t = TPtr e" "e \<noteq> TBig" "NilOK tg" by (cases t) simp_all
  have nk: "typeNilKind e tg \<noteq> Byte" by (simp add: typeNilKind_def split: option.split NilKind.split)
  have w: "valBytes VNil t tg = frame (typeNilKind e tg) []"
    using nk e(1,2) by (cases "typeNilKind e tg") auto
  have "decodes (decodeVal fuel t tg) (frame (typeNilKind e tg) []) VNil"
    by (rule decodes_eqI [OF _ decodes_nilPtr_nil [OF nk]]) (simp add: e)
  then show ?thesis by (intro decodes_field_any) (simp only: w)
qed

lemma decodes_canon_bigptr:
  assumes "canon v TBig noTags"
  shows "decodes_field fuel (TPtr TBig) tg (VPtr v)"
proof -
  from assms obtain i where v: "v = VBig i" "0 \<le> i" by (cases v) simp_all
  have "decodes (decodeVal fuel (TPtr TBig) tg) (encStr (int_bytes (nat i))) (VPtr (VBig (int (nat i))))"
    by (rule decodes_eqI [OF _ decodes_lift [OF sreads_decodeBigInt]]) simp
  then show ?thesis using v by (intro decodes_field_any) (simp del: encStr.simps decodeVal.simps)
qed

lemma decodes_canon_ptr:
  assumes "canon (VPtr v) (TPtr e) tg" "e \<noteq> TBig" "decoderErr e noTags = None" "length (valBytes v e noTags) < 2 ^ 64"
    and "decodes_field fuel e noTags v"
  shows "decodes_field fuel (TPtr e) tg (VPtr v)"
proof -
  have d: "decodes (decodeVal fuel e noTags) (valBytes v e noTags) v" using assms(5) by (simp add: decodes_field_def)
  have "decodes (decodeVal fuel (TPtr e) tg) (valBytes v e noTags) (VPtr v)"
  proof (cases "NilOK tg")
    case True
    from canon_frame [of v e noTags] assms(1,4) obtain k c where kc: "valBytes v e noTags = frame k c" "frame_ok k c" by auto
    have "valBytes v e noTags \<noteq> [0x80]" "valBytes v e noTags \<noteq> [0xC0]" using assms(1,2) True by simp_all
    then have "k = Byte \<or> c \<noteq> []" using kc(1) nil_enc by (cases k) (auto simp: puthead_def)
    from decodes_nilPtr [OF d [unfolded kc(1)] kind_first_decodeVal [OF assms(3)] kc(2) this]
    have "decodes (nilPtrDecoder (typeNilKind e tg) (decodeVal fuel e noTags)) (valBytes v e noTags) (VPtr v)"
      unfolding kc(1) by simp
    then show ?thesis by (rule decodes_eqI [rotated]) (simp add: assms(2) True)
  next
    case False
    show ?thesis by (rule decodes_eqI [OF _ decodes_simplePtr [OF d]]) (simp add: assms(2) False)
  qed
  then show ?thesis by (intro decodes_field_any) simp
qed

lemma decodes_canon_slice:
  assumes "\<And>v. v \<in> set vs \<Longrightarrow> canon v e noTags \<Longrightarrow> length (valBytes v e noTags) < fuel \<Longrightarrow> decodes_field fuel e noTags v"
    and "canon (VSeq vs) (TSlice e) tg" "decoderErr (TSlice e) tg = None"
    and "length (valBytes (VSeq vs) (TSlice e) tg) < fuel" "fuel \<le> 2 ^ 64"
  shows "decodes_field fuel (TSlice e) tg (VSeq vs)"
proof -
  let ?ws = "map (\<lambda>v. valBytes v e noTags) vs"
  have b: "\<not> isByte e" and c: "\<forall>v\<in>set vs. canon v e noTags" and err: "decoderErr e noTags = None"
    using assms(2,3) by (simp_all add: list_all_iff)
  have lt: "length (concat ?ws) < fuel"
    using assms(4) length_frame_List [of "concat ?ws"] by (auto simp del: frame.simps split: if_splits)
  note el = decodes_elems [OF assms(1) c lt assms(5)]
  have eol: "at_end s \<Longrightarrow> decodeVal fuel e noTags s = Some (Inl EOL, s)" for s
    using decodeVal_EOL [OF _ err] lt by simp
  show ?thesis
  proof (cases "Tail tg")
    case True
    have "reads_last (decodeVal fuel (TSlice e) tg) (concat ?ws) (VSeq vs)" unfolding reads_last_def
    proof (intro allI impI)
      fix s assume "ready (concat ?ws) s" "ends_with (concat ?ws) s"
      from decodeSliceElems_reads [OF el(1) eol this el(3), of "[]"]
      show "\<exists>s'. decodeVal fuel (TSlice e) tg s = Some (Inr (VSeq vs), s') \<and> past (concat ?ws) s s'"
        using b True by auto
    qed
    then show ?thesis using True by (simp add: decodes_field_def)
  next
    case False
    from decodes_ListSlice [OF el(1) eol el(3,2)]
    have "decodes (decodeVal fuel (TSlice e) tg) (frame List (concat ?ws)) (VSeq vs)"
      by (rule decodes_eqI [rotated]) (simp_all add: b False)
    then show ?thesis using False by (intro decodes_field_any) (simp del: frame.simps decodeVal.simps)
  qed
qed

lemma decodes_canon_array:
  assumes "\<And>v. v \<in> set vs \<Longrightarrow> canon v e noTags \<Longrightarrow> length (valBytes v e noTags) < fuel \<Longrightarrow> decodes_field fuel e noTags v"
    and "canon (VSeq vs) (TArray n e) tg" "length (valBytes (VSeq vs) (TArray n e) tg) < fuel" "fuel \<le> 2 ^ 64"
  shows "decodes_field fuel (TArray n e) tg (VSeq vs)"
proof -
  let ?ws = "map (\<lambda>v. valBytes v e noTags) vs"
  have b: "\<not> isByte e" "\<not> Tail tg" "n = length vs" and c: "\<forall>v\<in>set vs. canon v e noTags"
    using assms(2) by (simp_all add: list_all_iff)
  have lt: "length (concat ?ws) < fuel"
    using assms(3) b(2) length_frame_List [of "concat ?ws"] by (simp del: frame.simps)
  from decodes_ListArray [OF decodes_elems(1) [OF assms(1) c lt assms(4)]]
  have "decodes (decodeVal fuel (TArray n e) tg) (frame List (concat ?ws)) (VSeq vs)"
    by (rule decodes_eqI [rotated]) (simp_all add: b)
  then show ?thesis using b by (intro decodes_field_any) (simp del: frame.simps decodeVal.simps)
qed

lemma decodes_canon:
  assumes "canon v t tg" "decoderErr t tg = None" "length (valBytes v t tg) < fuel" "fuel \<le> 2 ^ 64"
  shows "decodes_field fuel t tg v"
  using assms(1-3)
proof (induction v arbitrary: t tg)
  case (VUint i)
  then obtain n where t: "t = TUint n" "n \<in> {8, 16, 32, 64}" and "uint i < 2 ^ n" by (cases t) simp_all
  then have "int (unat i) < int (2 ^ n)" by simp
  then have i: "unat i < 2 ^ n" unfolding of_nat_less_iff .
  show ?case unfolding t(1)
    by (rule decodes_field_any, rule decodes_eqI [OF decodeVal.simps(3)])
      (simp only: valBytes.simps, rule decodes_lift, rule sreads_uint [OF t(2) i])
next
  case (VBool b)
  then have t: "t = TBool" by simp
  show ?case unfolding t
    by (rule decodes_field_any, rule decodes_eqI [OF decodeVal.simps(4)])
      (simp only: valBytes.simps, rule decodes_lift, rule sreads_Bool)
next
  case (VBytes b)
  then show ?case using assms(4) by (intro decodes_canon_bytes) simp_all
next
  case (VBig i)
  then have t: "t = TBig" "0 \<le> i" by simp_all
  have "decodes (decodeVal fuel TBig tg) (encStr (int_bytes (nat i))) (VBig (int (nat i)))"
    by (rule decodes_eqI [OF decodeVal.simps(2)], rule decodes_lift, rule sreads_decodeBigInt)
  then show ?case using t by (intro decodes_field_any) (simp del: encStr.simps decodeVal.simps)
next
  case VNil
  then show ?case by (intro decodes_canon_nil)
next
  case (VPtr v)
  then obtain e where e: "t = TPtr e" "canon v e noTags" by (cases t) simp_all
  show ?case
  proof (cases "e = TBig")
    case True
    then show ?thesis using e decodes_canon_bigptr by blast
  next
    case False
    then show ?thesis unfolding e(1) using VPtr e assms(4) by (intro decodes_canon_ptr) simp_all
  qed
next
  case (VSeq vs)
  then show ?case
  proof (cases t)
    case (TSlice e)
    then have "isByte e \<or> decoderErr e noTags = None" using VSeq.prems by simp
    moreover have "\<not> isByte e" using VSeq.prems(1) TSlice by simp
    ultimately show ?thesis unfolding TSlice using VSeq TSlice assms(4) by (intro decodes_canon_slice) blast+
  next
    case (TArray n e)
    then have "isByte e \<or> decoderErr e noTags = None" using VSeq.prems by simp
    moreover have "\<not> isByte e" using VSeq.prems(1) TArray by simp
    ultimately show ?thesis unfolding TArray using VSeq TArray assms(4) by (intro decodes_canon_array) blast+
  next
    case (TStruct fs)
    then show ?thesis using VSeq by (intro decodes_field_any) (blast intro: decodes_struct)
  qed simp_all
next
  case (VIface e v)
  then have t: "t = TInterface" by simp
  have "decodes (decodeInterface fuel fuel) (valBytes (VIface e v) TInterface noTags) (VIface e v)"
    using VIface.prems assms(4) by (intro decodes_interface) (simp_all add: t)
  then have "decodes (decodeVal fuel t tg) (valBytes (VIface e v) t tg) (VIface e v)"
    using t by (simp add: decodes_def)
  then show ?case by (rule decodes_field_any)
qed

subsection \<open>The round trip\<close>

lemma EncodeToBytes_valBytes:
  assumes "writerErr t noTags = None" "encodable v t" "length (valBytes v t noTags) < 2 ^ 63"
  shows "EncodeToBytes t v = Ok (valBytes v t noTags)"
proof -
  obtain buf where "encode t v enc_reset = Inr buf" "renders enc_reset buf (valBytes v t noTags)"
    using encode_renders(1) [OF assms(3)] assms(1,2) by blast
  with renders_makeBytes(1) show ?thesis by (simp add: EncodeToBytes_def)
qed

lemma ready_Reset: "length b < 2 ^ 64 \<Longrightarrow> ready b (Reset b False (word_of_nat (length b)) newStream)"
  by (simp add: ready_def fits_def Reset_def newStream_def unat_of_nat)

text \<open>
  C22: Decoding inverts encoding on canonical values.  For every type both sides accept and every
  value of it that is \<open>canon\<close> (see above) and encodes to less than 2 to the 63 bytes,
  \<open>DecodeBytes\<close> applied to the bytes of \<open>EncodeToBytes\<close> consumes all of them and returns the value
  itself, for all nestings of lists, arrays, structs with tagged fields, pointers, big integers,
  raw values and interfaces.
\<close>

theorem DecodeBytes_EncodeToBytes:
  assumes "writerErr t noTags = None" and "encodable v t" and "decoderErr t noTags = None"
    and "canon v t noTags" and "length (valBytes v t noTags) < 2 ^ 63"
  shows "\<exists>b. EncodeToBytes t v = Ok b \<and> DecodeBytes b t = Some (Inr v)"
proof -
  define b where b: "b = valBytes v t noTags"
  have "Suc (length b) \<le> 2 ^ 64" using assms(5) by (simp add: b)
  moreover have "length (valBytes v t noTags) < Suc (length b)" by (simp add: b)
  ultimately have "decodes (decodeVal (Suc (length b)) t noTags) b v"
    using decodes_canon [OF assms(4,3), of "Suc (length b)"] by (simp add: decodes_field_def b)
  moreover have "ready b (Reset b False (word_of_nat (length b)) newStream)"
    using assms(5) by (intro ready_Reset) (simp add: b)
  ultimately obtain s' where
    s: "decodeVal (Suc (length b)) t noTags (Reset b False (word_of_nat (length b)) newStream) = Some (Inr v, s')"
       "past b (Reset b False (word_of_nat (length b)) newStream) s'"
    unfolding decodes_def by blast
  then have "inp s' = []" by (simp add: past_def consumed_def advance_def Reset_def)
  with s(1) assms(3) have "DecodeBytes b t = Some (Inr v)" by (simp add: DecodeBytes_def stream_Decode_def)
  moreover have "EncodeToBytes t v = Ok b" unfolding b by (rule EncodeToBytes_valBytes [OF assms(1,2,5)])
  ultimately show ?thesis by blast
qed

theorem DecodeBytes_EncodeToBytes_witness:
  "\<exists>b. EncodeToBytes
     (TStruct [(\<lparr> sf_name = ''Size'', sf_exported = True, sf_tag = '''' \<rparr>, TUint 64),
               (\<lparr> sf_name = ''Next'', sf_exported = True, sf_tag = ''nil'' \<rparr>, TPtr TString),
               (\<lparr> sf_name = ''Names'', sf_exported = True, sf_tag = ''tail'' \<rparr>, TSlice TString)])
     (VSeq [VUint 1024, VNil, VSeq [VBytes [0x62, 0x63]]]) = Ok b \<and>
   DecodeBytes b
     (TStruct [(\<lparr> sf_name = ''Size'', sf_exported = True, sf_tag = '''' \<rparr>, TUint 64),
               (\<lparr> sf_name = ''Next'', sf_exported = True, sf_tag = ''nil'' \<rparr>, TPtr TString),
               (\<lparr> sf_name = ''Names'', sf_exported = True, sf_tag = ''tail'' \<rparr>, TSlice TString)])
   = Some (Inr (VSeq [VUint 1024, VNil, VSeq [VBytes [0x62, 0x63]]]))"
proof -
  let ?t = "TStruct [(\<lparr> sf_name = ''Size'', sf_exported = True, sf_tag = '''' \<rparr>, TUint 64),
               (\<lparr> sf_name = ''Next'', sf_exported = True, sf_tag = ''nil'' \<rparr>, TPtr TString),
               (\<lparr> sf_name = ''Names'', sf_exported = True, sf_tag = ''tail'' \<rparr>, TSlice TString)]"
  let ?v = "VSeq [VUint 1024, VNil, VSeq [VBytes [0x62, 0x63]]]"
  have b: "valBytes ?v ?t noTags = [0xC7, 0x82, 0x04, 0x00, 0x80, 0x82, 0x62, 0x63]" by code_simp
  have "writerErr ?t noTags = None" "encodable ?v ?t" by code_simp+
  moreover have "decoderErr ?t noTags = None" by code_simp
  moreover have "canon ?v ?t noTags" by code_simp
  ultimately show ?thesis by (rule DecodeBytes_EncodeToBytes) (simp only: b, simp)
qed

end
