(* ===== verification/Rlp_Total.thy ===== *)
theory Rlp_Total
  imports Rlp_Decode
begin

text \<open>
  Decoding always returns.  The bytes not yet taken by a value bound the number of elements that
  any list loop can still decode and the depth to which interfaces can still nest, so the one
  unit of fuel per input byte that \<open>DecodeBytes\<close> supplies is never used up.
\<close>

subsection \<open>What is left to decode\<close>

text \<open>The bytes ahead, and the header of a value whose kind is already known.\<close>

definition left :: "Stream \<Rightarrow> nat" where
  "left s = length (inp s) + (if skind s = None then 0 else 1)"

text \<open>
  \<open>uses k s r s'\<close>: a successful result has used up at least \<open>k\<close> units, and the end of a list
  is reported without having used any.
\<close>

definition uses :: "nat \<Rightarrow> Stream \<Rightarrow> rlp_err + 'a \<Rightarrow> Stream \<Rightarrow> bool" where
  "uses k s r s' = (case r of Inl e \<Rightarrow> e = EOL \<longrightarrow> left s' \<le> left s | Inr x \<Rightarrow> left s' + k \<le> left s)"

definition op_uses :: "nat \<Rightarrow> 'a sop \<Rightarrow> bool" where
  "op_uses k g \<longleftrightarrow> (\<forall>s. case g s of (r, s') \<Rightarrow> uses k s r s')"

definition returns :: "nat \<Rightarrow> nat \<Rightarrow> 'a sdec \<Rightarrow> bool" where
  "returns k n d \<longleftrightarrow> (\<forall>s. left s < n \<longrightarrow> (\<exists>r s'. d s = Some (r, s') \<and> uses k s r s'))"

lemma uses_simps [simp]:
  "uses k s (Inl e) s' = (e = EOL \<longrightarrow> left s' \<le> left s)"
  "uses k s (Inr x) s' = (left s' + k \<le> left s)"
  by (simp_all add: uses_def)

lemma left_rearm: "left (rearm s) = length (inp s)"
  by (simp add: left_def rearm_def)

lemma willRead_left: "willRead n s = (e, s') \<Longrightarrow> inp s' = inp s \<and> skind s' = None \<and> e \<noteq> Some EOL"
  by (auto simp: willRead_def Let_def split: list.splits if_splits)

lemma readByte_left:
  "readByte s = (r, s') \<Longrightarrow> case r of Inl e \<Rightarrow> e \<noteq> EOL | Inr b \<Rightarrow> length (inp s) = Suc (length (inp s')) \<and> skind s' = None"
  by (auto simp: readByte_def split: prod.splits option.splits list.splits dest!: willRead_left)

lemma readFull_left:
  "readFull n s = (r, s') \<Longrightarrow> case r of Inl e \<Rightarrow> e \<noteq> EOL | Inr b \<Rightarrow> left s' \<le> length (inp s)"
  by (auto simp: readFull_def left_def split: prod.splits option.splits if_splits dest!: willRead_left)

lemma readUint_left:
  "readUint n s = (r, s') \<Longrightarrow> case r of Inl e \<Rightarrow> e \<noteq> EOL | Inr b \<Rightarrow> left s' \<le> length (inp s)"
  by (auto simp: readUint_def left_def split: prod.splits sum.splits if_splits
      dest!: readByte_left readFull_left [unfolded left_def])

lemma readKind_left:
  assumes "stream_readKind s = ((k, sz, e), s')"
  shows "e \<noteq> Some EOL \<and> (e = None \<longrightarrow> Suc (length (inp s')) \<le> length (inp s))"
proof (cases "readByte s")
  case (Pair r s1)
  show ?thesis
  proof (cases r)
    case (Inl e')
    then show ?thesis using assms Pair readByte_left [OF Pair] by (auto simp: stream_readKind_def split: if_splits)
  next
    case (Inr b)
    have long: "(case readUint n (s1\<lparr> byteval := 0 \<rparr>) of
        (Inl e, s) \<Rightarrow> ((k', 0, Some e), s)
      | (Inr sz, s) \<Rightarrow> ((k', sz, if sz < 56 then Some ErrCanonSize else None), s)) = ((k, sz, e), s') \<Longrightarrow>
      e \<noteq> Some EOL \<and> (e = None \<longrightarrow> length (inp s') \<le> length (inp s1))" for n k'
      using readUint_left [of n "s1\<lparr> byteval := 0 \<rparr>"]
      by (force simp: left_def split: prod.splits sum.splits if_splits)
    show ?thesis using assms Pair Inr readByte_left [OF Pair] long
      by (auto simp: stream_readKind_def Let_def split: if_splits)
  qed
qed

lemma Kind_left:
  assumes "stream_Kind s = (r, s')"
  shows "case r of Inl e \<Rightarrow> e = EOL \<longrightarrow> left s' \<le> left s | Inr x \<Rightarrow> Suc (length (inp s')) \<le> left s \<and> skind s' \<noteq> None"
proof (cases "skind s")
  case (Some k)
  then show ?thesis using assms by (auto simp: stream_Kind_def left_def split: option.splits)
next
  case None
  obtain inList limit where l: "listLimit s = (inList, limit)" by fastforce
  obtain k sz e s1 where k: "stream_readKind s = ((k, sz, e), s1)" by (metis prod.exhaust)
  show ?thesis using assms None l k readKind_left [OF k]
    by (auto simp: stream_Kind_def left_def split: option.splits if_splits)
qed

subsection \<open>The operations of the stream\<close>

lemma op_uses_Kind:
  assumes "\<And>s. g s = (case stream_Kind s of (Inl e, s) \<Rightarrow> (Inl e, s) | (Inr (k, sz), s) \<Rightarrow> f k sz s)"
    and "\<And>k sz s. case f k sz s of (Inl e, s') \<Rightarrow> e \<noteq> EOL | (Inr x, s') \<Rightarrow> left s' \<le> length (inp s)"
  shows "op_uses 1 g"
  unfolding op_uses_def
proof (intro allI)
  fix s
  obtain r s1 where K: "stream_Kind s = (r, s1)" by fastforce
  show "case g s of (r, s') \<Rightarrow> uses 1 s r s'"
  proof (cases r)
    case (Inl e)
    then show ?thesis using K Kind_left [OF K] by (simp add: assms(1))
  next
    case (Inr x)
    obtain k sz where x: "x = (k, sz)" by fastforce
    show ?thesis using K Inr x Kind_left [OF K] assms(2) [of s1 k sz]
      by (auto simp: assms(1) split: prod.splits sum.splits)
  qed
qed

lemma op_usesD: "op_uses k g \<Longrightarrow> g s = (r, s') \<Longrightarrow> uses k s r s'"
  unfolding op_uses_def by (metis case_prod_conv)

lemmas op_splits = Kind.split sum.split prod.split

lemma stream_Bytes_uses: "op_uses 1 stream_Bytes"
  by (rule op_uses_Kind [OF stream_Bytes_def]) (auto simp: left_rearm split: op_splits dest: readFull_left)

lemma stream_Raw_uses: "op_uses 1 stream_Raw"
  by (rule op_uses_Kind [OF stream_Raw_def]) (auto simp: left_rearm split: op_splits dest: readFull_left)

lemma stream_uint_uses: "op_uses 1 (stream_uint n)"
  by (rule op_uses_Kind [OF stream_uint_def]) (auto simp: left_rearm split: op_splits dest: readUint_left)

lemma stream_decodeBigInt_uses: "op_uses 1 stream_decodeBigInt"
  by (rule op_uses_Kind [OF stream_decodeBigInt_def])
    (auto simp: left_rearm split: op_splits if_splits dest: readFull_left)

lemma decodeByteArray_uses: "op_uses 1 (decodeByteArray n)"
  by (rule op_uses_Kind [OF decodeByteArray_def])
    (auto simp: left_rearm wrapStreamError_def split: op_splits dest: readFull_left)

lemma stream_List_uses: "op_uses 1 stream_List"
  by (rule op_uses_Kind [OF stream_List_def]) (auto simp: left_def)

lemma stream_Bool_uses: "op_uses 1 stream_Bool"
  unfolding op_uses_def
proof (intro allI)
  fix s
  obtain r s' where u: "stream_uint 8 s = (r, s')" by fastforce
  show "case stream_Bool s of (r, s') \<Rightarrow> uses 1 s r s'"
    using op_usesD [OF stream_uint_uses u] u by (cases r) (simp_all add: stream_Bool_def)
qed

lemma ListEnd_uses: "op_uses 0 ListEnd"
  by (auto simp: op_uses_def ListEnd_def left_def split: list.splits)

subsection \<open>The decoders\<close>

lemma wrapStreamError_EOL [simp]: "wrapStreamError e = EOL \<longleftrightarrow> e = EOL"
  by (cases e) (simp_all add: wrapStreamError_def)

lemma returns_lift:
  assumes "op_uses k g" "\<And>e. w e = EOL \<Longrightarrow> e = EOL"
  shows "returns k n (lift_op w f g)"
  unfolding returns_def
proof (intro allI impI)
  fix s
  obtain r s' where g: "g s = (r, s')" by fastforce
  have "uses k s r s'" by (rule op_usesD [OF assms(1) g])
  then have "uses k s (map_sum w f r) s'" using assms(2) by (cases r) auto
  then show "\<exists>r s'. lift_op w f g s = Some (r, s') \<and> uses k s r s'" by (simp add: lift_op_def g)
qed

lemma uses_mono: "uses k s r s' \<Longrightarrow> k' \<le> k \<Longrightarrow> uses k' s r s'"
  by (cases r) simp_all

lemma returns_mono: "returns k n d \<Longrightarrow> k' \<le> k \<Longrightarrow> n' \<le> n \<Longrightarrow> returns k' n' d"
  unfolding returns_def by (meson less_le_trans uses_mono)

lemma uses_trans: "left s' + k \<le> left s \<Longrightarrow> uses j s' r t \<Longrightarrow> uses (k + j) s r t"
  by (cases r) auto

lemma returnsE:
  assumes "returns k n d" "left s < n"
  obtains e s' where "d s = Some (Inl e, s')" "e = EOL \<longrightarrow> left s' \<le> left s"
    | x s' where "d s = Some (Inr x, s')" "left s' + k \<le> left s"
  using assms unfolding returns_def by (metis sum.exhaust uses_simps)

lemma decodeSliceElems_returns:
  "returns 1 n d \<Longrightarrow> left s < n \<Longrightarrow> left s < fuel \<Longrightarrow>
    \<exists>r s'. decodeSliceElems fuel d vs s = Some (r, s') \<and> uses 0 s r s' \<and> r \<noteq> Inl EOL"
proof (induction fuel arbitrary: s vs)
  case (Suc fuel)
  from Suc.prems(1,2) show ?case
  proof (cases rule: returnsE)
    case (1 e s')
    then show ?thesis by auto
  next
    case (2 x s')
    then have "left s' < n" "left s' < fuel" using Suc.prems(2,3) by simp_all
    then obtain r t where rt: "decodeSliceElems fuel d (vs @ [x]) s' = Some (r, t)" "uses 0 s' r t" "r \<noteq> Inl EOL"
      using Suc.IH [OF Suc.prems(1), of s' "vs @ [x]"] by blast
    from uses_mono [OF uses_trans [OF 2(2) rt(2)]] have "uses 0 s r t" by simp
    then show ?thesis using 2(1) rt by simp
  qed
qed simp

text \<open>A list: the header is used, and the body works on less.\<close>

lemma returns_List:
  assumes "\<And>s. d s = (case stream_List s of (Inl e, s) \<Rightarrow> Some (Inl (wrapStreamError e), s) | (Inr sz, s) \<Rightarrow> body sz s)"
    and "\<And>sz. returns 0 n (body sz)"
  shows "returns 1 (Suc n) d"
  unfolding returns_def
proof (intro allI impI)
  fix s
  assume l: "left s < Suc n"
  obtain r s1 where L: "stream_List s = (r, s1)" by fastforce
  show "\<exists>r s'. d s = Some (r, s') \<and> uses 1 s r s'"
  proof (cases r)
    case (Inl e)
    then show ?thesis using L op_usesD [OF stream_List_uses L] by (simp add: assms(1))
  next
    case (Inr sz)
    then have s1: "left s1 + 1 \<le> left s" using op_usesD [OF stream_List_uses L] by simp
    then have "left s1 < n" using l by simp
    then obtain r' s' where b: "body sz s1 = Some (r', s')" "uses 0 s1 r' s'"
      using assms(2) [of sz] unfolding returns_def by blast
    from uses_trans [OF s1 b(2)] b(1) show ?thesis using L Inr by (simp add: assms(1))
  qed
qed

lemma endList_returns: "w \<in> {id, wrapStreamError} \<Longrightarrow> returns 0 n (endList w v)"
  unfolding endList_def by (rule returns_lift [OF ListEnd_uses]) auto

text \<open>A decoder followed by the end of its list.\<close>

lemma returns_then:
  assumes "returns 0 n d" "\<And>x. returns 0 n (h x)"
  shows "returns 0 n (\<lambda>s. case d s of None \<Rightarrow> None | Some (Inl e, s) \<Rightarrow> Some (Inl e, s) | Some (Inr x, s) \<Rightarrow> h x s)"
  unfolding returns_def
proof (intro allI impI)
  fix s
  assume l: "left s < n"
  from assms(1) l show "\<exists>r s'. (case d s of None \<Rightarrow> None | Some (Inl e, s) \<Rightarrow> Some (Inl e, s) | Some (Inr x, s) \<Rightarrow> h x s)
      = Some (r, s') \<and> uses 0 s r s'"
  proof (cases rule: returnsE)
    case (1 e s')
    then show ?thesis by simp
  next
    case (2 x s')
    then have "left s' < n" using l by simp
    then obtain r t where "h x s' = Some (r, t)" "uses 0 s' r t"
      using assms(2) [of x] unfolding returns_def by blast
    then show ?thesis using 2 uses_trans [OF 2(2)] by fastforce
  qed
qed

lemma decodeSliceElems_returns0: "returns 1 n d \<Longrightarrow> n \<le> fuel \<Longrightarrow> returns 0 n (decodeSliceElems fuel d vs)"
  using decodeSliceElems_returns [of n d _ fuel vs] unfolding returns_def [of 0] by fastforce

lemma decodeListSlice_returns:
  assumes "returns 1 n d" "n \<le> fuel"
  shows "returns 1 (Suc n) (decodeListSlice fuel d)"
proof (rule returns_List [OF decodeListSlice_def])
  fix sz :: u64
  show "returns 0 n (\<lambda>s. if sz = 0 then endList id (VSeq []) s
      else case decodeSliceElems fuel d [] s of None \<Rightarrow> None | Some (Inl e, s) \<Rightarrow> Some (Inl e, s)
        | Some (Inr vs, s) \<Rightarrow> endList id (VSeq vs) s)"
    using returns_then [OF decodeSliceElems_returns0 [OF assms, of "[]"] endList_returns]
      endList_returns [of id n "VSeq []"] by (cases "sz = 0") simp_all
qed

lemma decodeArrayElems_returns: "returns 1 n d \<Longrightarrow> returns 0 n (decodeArrayElems m d vs)"
proof (induction m arbitrary: vs)
  case 0
  then show ?case by (simp add: returns_def)
next
  case (Suc m)
  show ?case unfolding returns_def
  proof (intro allI impI)
    fix s
    assume l: "left s < n"
    from Suc.prems l show "\<exists>r s'. decodeArrayElems (Suc m) d vs s = Some (r, s') \<and> uses 0 s r s'"
    proof (cases rule: returnsE)
      case (1 e s')
      then show ?thesis by simp
    next
      case (2 x s')
      then have "left s' < n" using l by simp
      then obtain r t where "decodeArrayElems m d (vs @ [x]) s' = Some (r, t)" "uses 0 s' r t"
        using Suc.IH [OF Suc.prems] unfolding returns_def by blast
      then show ?thesis using 2 uses_mono [OF uses_trans [OF 2(2)]] by fastforce
    qed
  qed
qed

lemma decodeListArray_returns: "returns 1 n d \<Longrightarrow> returns 1 (Suc n) (decodeListArray m d)"
  by (rule returns_List [OF decodeListArray_def])
    (rule returns_then [OF decodeArrayElems_returns endList_returns], simp_all)

lemma decodeFields_returns:
  "(\<And>ts t dec. (ts, t, dec) \<in> set fs \<Longrightarrow> returns 0 n (dec ts)) \<Longrightarrow> returns 0 n (decodeFields fs)"
proof (induction fs)
  case Nil
  then show ?case by (simp add: returns_def)
next
  case (Cons f fs)
  obtain ts t dec where f: "f = (ts, t, dec)" by (metis prod.exhaust)
  have d: "returns 0 n (dec ts)" and IH: "returns 0 n (decodeFields fs)" using Cons f by auto
  show ?case unfolding returns_def f
  proof (intro allI impI)
    fix s
    assume l: "left s < n"
    from d l show "\<exists>r s'. decodeFields ((ts, t, dec) # fs) s = Some (r, s') \<and> uses 0 s r s'"
    proof (cases rule: returnsE)
      case (1 e s')
      then show ?thesis by simp
    next
      case (2 x s')
      then have "left s' < n" using l by simp
      from IH this show ?thesis using 2 by (cases rule: returnsE) auto
    qed
  qed
qed

lemma decodeStruct_returns:
  "(\<And>t dec ts. (t, dec) \<in> set decs \<Longrightarrow> returns 0 n (dec ts)) \<Longrightarrow> returns 1 (Suc n) (decodeStruct tgs decs)"
  by (rule returns_List [OF decodeStruct_def], rule returns_then [OF decodeFields_returns endList_returns])
    (auto dest: set_selectFields)

lemma simplePtrDecoder_returns: "returns k n d \<Longrightarrow> returns k n (simplePtrDecoder d)"
  unfolding returns_def simplePtrDecoder_def by (fastforce simp: uses_def split: sum.splits)

lemma Kind_keeps: "stream_Kind s = (Inr x, s') \<Longrightarrow> left s' \<le> left s"
  using Kind_left [of s "Inr x" s'] by (auto simp: left_def)

lemma returns_Kind:
  assumes "\<And>s. d s = (case stream_Kind s of (Inl e, s) \<Rightarrow> Some (Inl (w e), s) | (Inr (k, sz), s) \<Rightarrow> body k sz s)"
    and "\<And>e. w e = EOL \<Longrightarrow> e = EOL"
    and "\<And>s k sz s1. stream_Kind s = (Inr (k, sz), s1) \<Longrightarrow> left s1 < n \<Longrightarrow>
      \<exists>r s'. body k sz s1 = Some (r, s') \<and> uses 1 s r s'"
  shows "returns 1 n d"
  unfolding returns_def
proof (intro allI impI)
  fix s
  assume l: "left s < n"
  obtain r s1 where K: "stream_Kind s = (r, s1)" by fastforce
  show "\<exists>r s'. d s = Some (r, s') \<and> uses 1 s r s'"
  proof (cases r)
    case (Inl e)
    then show ?thesis using K Kind_left [OF K] assms(2) [of e] by (auto simp: assms(1))
  next
    case (Inr x)
    obtain k sz where x: "x = (k, sz)" by fastforce
    have "left s1 < n" using Kind_keeps K Inr l by fastforce
    then show ?thesis using assms(3) [of s k sz s1] K Inr x by (simp add: assms(1))
  qed
qed

lemma uses_Kind: "stream_Kind s = (Inr x, s1) \<Longrightarrow> uses k s1 r s' \<Longrightarrow> uses k s r s'"
  using Kind_keeps [of s x s1] by (cases r) auto

lemma returns_after_Kind:
  "returns k n d \<Longrightarrow> stream_Kind s = (Inr x, s1) \<Longrightarrow> left s1 < n \<Longrightarrow> \<exists>r s'. d s1 = Some (r, s') \<and> uses k s r s'"
  unfolding returns_def by (metis uses_Kind)

lemma nilPtrDecoder_returns:
  assumes "returns 1 n d"
  shows "returns 1 n (nilPtrDecoder nk d)"
proof (rule returns_Kind [OF nilPtrDecoder_def wrapStreamError_EOL [THEN iffD1]])
  fix s k sz s1
  assume K: "stream_Kind s = (Inr (k, sz), s1)" "left s1 < n"
  have "left (rearm s1) + 1 \<le> left s" using Kind_left [OF K(1)] by (simp add: left_rearm)
  then show "\<exists>r s'. (if k \<noteq> Byte \<and> sz = 0 then
        if k \<noteq> nk then Some (Inl (DecodeError (MsgWrongEmptyKind k nk)), s1) else Some (Inr VNil, rearm s1)
      else simplePtrDecoder d s1) = Some (r, s') \<and> uses 1 s r s'"
    using returns_after_Kind [OF simplePtrDecoder_returns [OF assms] K] by auto
qed

lemma returns_map:
  "returns k n d \<Longrightarrow> returns k n (\<lambda>s. case d s of None \<Rightarrow> None | Some (Inl e, s) \<Rightarrow> Some (Inl e, s) | Some (Inr x, s) \<Rightarrow> Some (Inr (f x), s))"
  unfolding returns_def by (fastforce simp: uses_def split: sum.splits)

lemma decodeInterface_returns: "depth \<le> fuel \<Longrightarrow> returns 1 depth (decodeInterface fuel depth)"
proof (induction depth)
  case 0
  then show ?case by (simp add: returns_def)
next
  case (Suc depth)
  have l: "returns 1 (Suc depth) (decodeListSlice fuel (decodeInterface fuel depth))"
    using Suc by (intro decodeListSlice_returns) simp_all
  have b: "returns 1 (Suc depth) (lift_op id (\<lambda>b. VIface (TSlice (TUint 8)) (VBytes b)) stream_Bytes)"
    by (rule returns_lift [OF stream_Bytes_uses]) simp
  show ?case
    by (rule returns_Kind [where w = "\<lambda>e. e", OF decodeInterface.simps(2) [where fuel = fuel and depth = depth]])
      (auto dest: returns_after_Kind [OF returns_map [OF l, of "VIface (TSlice TInterface)"]] returns_after_Kind [OF b])
qed

lemma returns_eq: "returns k n d \<Longrightarrow> (\<And>s. d' s = d s) \<Longrightarrow> returns k n d'"
  by (simp add: returns_def)

lemma returns_tag: "returns 1 n d \<Longrightarrow> returns (if Tail tg then 0 else 1) n d"
  by (erule returns_mono) simp_all

lemma returns_Suc: "returns k (Suc n) d \<Longrightarrow> returns k n d"
  by (erule returns_mono) simp_all

lemma decodeVal_returns: "returns (if Tail tg then 0 else 1) fuel (decodeVal fuel t tg)"
proof (induction t arbitrary: tg)
  case TRaw
  show ?case by (rule returns_tag, rule returns_eq [OF returns_lift [OF stream_Raw_uses] decodeVal.simps(1)]) simp
next
  case TBig
  show ?case by (rule returns_tag, rule returns_eq [OF returns_lift [OF stream_decodeBigInt_uses] decodeVal.simps(2)]) simp
next
  case (TUint n)
  show ?case by (rule returns_tag, rule returns_eq [OF returns_lift [OF stream_uint_uses] decodeVal.simps(3)]) simp
next
  case TBool
  show ?case by (rule returns_tag, rule returns_eq [OF returns_lift [OF stream_Bool_uses] decodeVal.simps(4)]) simp
next
  case TString
  show ?case by (rule returns_tag, rule returns_eq [OF returns_lift [OF stream_Bytes_uses] decodeVal.simps(5)]) simp
next
  case (TSlice e)
  have e: "returns 1 fuel (decodeVal fuel e noTags)" using TSlice [of noTags] by (simp add: noTags_def)
  have "returns 1 fuel (decodeListSlice fuel (decodeVal fuel e noTags))"
    by (rule returns_Suc [OF decodeListSlice_returns [OF e]]) simp
  moreover have "returns 1 fuel (lift_op wrapStreamError VBytes stream_Bytes)"
    by (rule returns_lift [OF stream_Bytes_uses]) simp
  moreover have "returns 0 fuel (\<lambda>s. case decodeSliceElems fuel (decodeVal fuel e noTags) [] s of
      None \<Rightarrow> None | Some (r, s) \<Rightarrow> Some (map_sum id VSeq r, s))"
    using decodeSliceElems_returns0 [OF e, of fuel "[]"] unfolding returns_def
    by (fastforce simp: uses_def split: sum.splits)
  ultimately show ?case using returns_mono [of 1 fuel _ 0 fuel] by (cases "isByte e"; cases "Tail tg") simp_all
next
  case (TArray n e)
  have "returns 1 fuel (decodeListArray n (decodeVal fuel e noTags))"
    using TArray [of noTags] by (intro returns_Suc [OF decodeListArray_returns]) (simp add: noTags_def)
  moreover have "returns 1 fuel (lift_op id VBytes (decodeByteArray n))"
    by (rule returns_lift [OF decodeByteArray_uses]) simp
  ultimately show ?case by (intro returns_tag) (cases "isByte e"; simp)
next
  case (TStruct fs)
  have "returns 0 fuel (decodeVal fuel (snd f) ts)" if "f \<in> set fs" for f ts
    using TStruct [of f "snd f" ts] that by (cases f) (auto intro: returns_mono)
  then have "returns 1 fuel (decodeStruct tgs (map (\<lambda>f. (snd f, decodeVal fuel (snd f))) fs))" for tgs
    by (intro returns_Suc [OF decodeStruct_returns]) auto
  then show ?case by (intro returns_tag) (auto simp: returns_def split: sum.splits)
next
  case (TPtr e)
  have e: "returns 1 fuel (decodeVal fuel e noTags)" using TPtr [of noTags] by (simp add: noTags_def)
  have "returns 1 fuel (lift_op wrapStreamError (\<lambda>n. VPtr (VBig (int n))) stream_decodeBigInt)"
    by (rule returns_lift [OF stream_decodeBigInt_uses]) simp
  then show ?case
    using nilPtrDecoder_returns [OF e] simplePtrDecoder_returns [OF e]
    by (intro returns_tag) (cases "e = TBig"; cases "NilOK tg"; simp)
next
  case TInterface
  show ?case by (rule returns_tag, rule returns_eq [OF decodeInterface_returns decodeVal.simps(10)]) simp
next
  case TOther
  then show ?case by (simp add: returns_def)
qed

text \<open>
  C23: \<open>DecodeBytes\<close> returns a value or an error on every input and for every Go type: the list
  loops, which the source runs until the end of the list is reported, and the nesting of
  interfaces, which is bounded by nothing but the input, always come to an end.
\<close>

theorem DecodeBytes_returns: "\<exists>r. DecodeBytes b t = Some r"
proof (cases "decoderErr t noTags")
  case None
  let ?s = "Reset b False (word_of_nat (length b)) newStream"
  have "left ?s < Suc (length b)" by (simp add: left_def Reset_def)
  then obtain r s' where "decodeVal (Suc (length b)) t noTags ?s = Some (r, s')"
    using decodeVal_returns unfolding returns_def by blast
  with None show ?thesis by (cases r) (simp_all add: DecodeBytes_def stream_Decode_def)
next
  case (Some e)
  then show ?thesis by (simp add: DecodeBytes_def stream_Decode_def)
qed

subsection \<open>Where the code departs from its documentation\<close>

text \<open>
  C31: \<open>Stream.Kind\<close> compares the size of a value with what was left of the enclosing list before
  the header was read.  A nested list whose content fits into what is left of the enclosing list,
  but not together with its own header, is therefore let through, whatever the length of the
  header and with or without an input limit that covers it; and \<open>List\<close>, which subtracts the size
  from what is left after the header, wraps the limit of the enclosing list below zero to a
  number just under 2 to the 64.
\<close>

theorem List_overrun_wraps:
  assumes "skind s = None" and stack: "stack s = l # ls" and len: "length (inp s) < 2 ^ 64"
    and head: "h = puthead 0xC0 0xF7 n" and inp: "inp s = h @ rest" and room: "length h \<le> unat l"
    and content: "n \<le> l" and over: "unat l < length h + unat n"
    and limit: "limited s \<Longrightarrow> length h + unat n \<le> unat (remaining s)"
  shows "\<exists>s' m. stream_List s = (Inr n, s') \<and> stack s' = [n, m] @ ls \<and> unat m = unat l + 2 ^ 64 - (length h + unat n) \<and>
    inp s' = rest"
proof -
  have f: "fits (length h) s" using len inp stack room limit by (auto simp: fits_def)
  from stream_readKind_head [of s "0xC0" "0xF7" n rest List] inp f head obtain s1 where
    r: "stream_readKind s = ((List, n, None), s1)" and c: "consumed (length h) s s1" by auto
  have s1: "inp s1 = rest" "stack s1 = (l - word_of_nat (length h)) # ls" "limited s1 = limited s"
    "limited s \<Longrightarrow> remaining s1 = remaining s - word_of_nat (length h)"
    using c inp stack by (simp_all add: consumed_def advance_def)
  have "1 \<le> length h" by (simp add: head length_puthead headsize_def)
  then have l: "l \<noteq> 0" "\<not> n > l" using room content by auto
  have rem: "\<not> (limited s1 \<and> n > remaining s1)"
    using s1(3,4) limit by (auto simp: word_less_nat_alt unat_sub_of_nat)
  have K: "stream_Kind s = (Inr (List, n), s1\<lparr> skind := Some List, ssize := n, kinderr := None \<rparr>)"
    using assms(1) stack l rem r by (simp add: stream_Kind_def listLimit_def)
  have u: "unat (l - word_of_nat (length h)) = unat l - length h" using room by (rule unat_sub_of_nat)
  have "unat (l - word_of_nat (length h) - n) = unat l + 2 ^ 64 - (length h + unat n)"
    unfolding unat_sub_if' [of "l - word_of_nat (length h)" n] u using over room by simp
  then show ?thesis using s1 by (simp add: stream_List_def K)
qed

theorem List_overrun_wraps_witness:
  "\<exists>s' m. stream_List ((NewStream [0xC1, 0x05] False 0)\<lparr> stack := [1] \<rparr>) = (Inr 1, s') \<and>
     stack s' = [1, m] @ [] \<and> unat m = unat (1 :: u64) + 2 ^ 64 - (length [0xC1 :: byte] + unat (1 :: u64)) \<and> inp s' = [0x05]"
  by (rule List_overrun_wraps) (simp_all add: NewStream_def Reset_def newStream_def puthead_def)

end
