(* ===== verification/Da_Rlp.thy ===== *)
theory Da_Rlp
  imports Da_Records Rlp_Roundtrip Rlp_Total
begin

text \<open>
  The RLP form of a data-availability record: the Go type of \<open>types.DA\<close> as the reflective
  encoder and decoder of package \<open>rlp\<close> see it, and the passage between records and values of
  that type.  The record is written by \<open>rlp.Encode\<close> and read by \<open>Stream.Decode\<close>; nothing is assumed
  about them.  Only the type of the commitment (\<open>kzg.Digest\<close> of gnark-crypto) is not part of
  the repository: \<open>digest_codec\<close> says which Go type it has and how its values are built.
\<close>

subsection \<open>rlp.Encode\<close>

definition rlp_Encode :: "gtype \<Rightarrow> gval \<Rightarrow> rlp_err + byte list" where
  "rlp_Encode t v =
     (case encode t v enc_reset of
        Inl e \<Rightarrow> Inl e
      | Inr buf \<Rightarrow> Inr (concat (writeTo 0 (str buf) (lheads buf))))"

lemma rlp_Encode_rules:
  assumes "length (valBytes v t noTags) < 2 ^ 63"
  shows "if writerErr t noTags = None \<and> encodable v t then rlp_Encode t v = Inr (valBytes v t noTags)
    else \<exists>e. rlp_Encode t v = Inl e"
  using encode_renders [OF assms] renders_makeBytes(2) by (auto simp: rlp_Encode_def)

subsection \<open>The Go type of a record\<close>

record 'c digest_codec =
  digestT :: gtype
  digestVal :: "'c \<Rightarrow> gval"
  valDigest :: "gval \<Rightarrow> 'c"

definition public :: "string \<Rightarrow> sfield" where
  "public name = \<lparr> sf_name = name, sf_exported = True, sf_tag = [] \<rparr>"

definition private_field :: "string \<Rightarrow> sfield" where
  "private_field name = \<lparr> sf_name = name, sf_exported = False, sf_tag = [] \<rparr>"

text \<open>\<open>time.Time\<close>: the fields are not exported; \<open>ext\<close> is an \<open>int64\<close>, \<open>loc\<close> a pointer to a location.\<close>

definition timeT :: gtype where
  "timeT = TStruct [(private_field ''wall'', TUint 64), (private_field ''ext'', TOther),
     (private_field ''loc'', TPtr TOther)]"

definition daT :: "'c digest_codec \<Rightarrow> gtype" where
  "daT D = TStruct [
     (public ''Sender'', TArray 20 (TUint 8)), (public ''Nonce'', TUint 64), (public ''Index'', TUint 64),
     (public ''Length'', TUint 64), (public ''Data'', TSlice (TUint 8)), (public ''Commitment'', digestT D),
     (public ''SignData'', TSlice (TSlice (TUint 8))), (public ''SignerAddr'', TSlice TString),
     (public ''DasKey'', TArray 32 (TUint 8)), (public ''TxHash'', TArray 32 (TUint 8)),
     (public ''BlockNum'', TUint 64), (public ''ReceiveAt'', timeT), (public ''OutOfTime'', timeT),
     (public ''Proof'', TSlice (TUint 8)), (public ''ClaimedValue'', TSlice (TUint 8)),
     (public ''NameSpaceID'', TPtr TBig), (public ''Root'', TArray 32 (TUint 8))]"

subsection \<open>Records as values\<close>

definition stringBytes :: "string \<Rightarrow> byte list" where
  "stringBytes s = map (\<lambda>c. word_of_nat (of_char c)) s"

definition bytesString :: "byte list \<Rightarrow> string" where
  "bytesString bs = map (\<lambda>b. char_of (unat b)) bs"

text \<open>A time is nanoseconds \<open>wall\<close> and seconds \<open>ext\<close> since the zero time.\<close>

definition timeVal :: "int \<Rightarrow> gval" where
  "timeVal t = VSeq [VUint (word_of_int (t mod 1000000000)), VBig ((t - zeroTime) div 1000000000), VNil]"

definition unUint :: "gval \<Rightarrow> u64" where
  "unUint v = (case v of VUint i \<Rightarrow> i | _ \<Rightarrow> 0)"

definition unBytes :: "gval \<Rightarrow> byte list" where
  "unBytes v = (case v of VBytes b \<Rightarrow> b | _ \<Rightarrow> [])"

definition unSeq :: "gval \<Rightarrow> gval list" where
  "unSeq v = (case v of VSeq vs \<Rightarrow> vs | _ \<Rightarrow> [])"

definition unBig :: "gval \<Rightarrow> int" where
  "unBig v = (case v of VBig i \<Rightarrow> i | _ \<Rightarrow> 0)"

definition valTime :: "gval \<Rightarrow> int" where
  "valTime v = zeroTime + unBig (unSeq v ! 1) * 1000000000 + uint (unUint (unSeq v ! 0))"

definition daVal :: "'c digest_codec \<Rightarrow> 'c DA \<Rightarrow> gval" where
  "daVal D da = VSeq [
     VBytes (Address_Bytes (Sender da)), VUint (Nonce da), VUint (Index da), VUint (Length da), VBytes (Data da),
     digestVal D (Commitment da), VSeq (map VBytes (SignData da)), VSeq (map (\<lambda>s. VBytes (stringBytes s)) (SignerAddr da)),
     VBytes (DasKey da), VBytes (Hash_Bytes (TxHash da)), VUint (BlockNum da), timeVal (ReceiveAt da),
     timeVal (OutOfTime da), VBytes (Proof da), VBytes (ClaimedValue da),
     (case NameSpaceID da of None \<Rightarrow> VNil | Some i \<Rightarrow> VPtr (VBig i)), VBytes (Hash_Bytes (Root da))]"

definition valDa :: "'c digest_codec \<Rightarrow> gval \<Rightarrow> 'c DA" where
  "valDa D v = (let f = (\<lambda>i. unSeq v ! i) in
     \<lparr> Sender = BytesToAddress (unBytes (f 0)), Nonce = unUint (f 1), Index = unUint (f 2), Length = unUint (f 3),
       Data = unBytes (f 4), Commitment = valDigest D (f 5), SignData = map unBytes (unSeq (f 6)),
       SignerAddr = map (\<lambda>s. bytesString (unBytes s)) (unSeq (f 7)), DasKey = unBytes (f 8),
       TxHash = BytesToHash (unBytes (f 9)), BlockNum = unUint (f 10), ReceiveAt = valTime (f 11),
       OutOfTime = valTime (f 12), Proof = unBytes (f 13), ClaimedValue = unBytes (f 14),
       NameSpaceID = (case f 15 of VPtr i \<Rightarrow> Some (unBig i) | _ \<Rightarrow> None), Root = BytesToHash (unBytes (f 16)) \<rparr>)"

text \<open>\<open>rlp.Encode(w, fd)\<close> for a \<open>*types.DA\<close>: the bytes it writes.\<close>

definition da_Encode :: "'c digest_codec \<Rightarrow> 'c DA \<Rightarrow> rlp_err + byte list" where
  "da_Encode D da = rlp_Encode (TPtr (daT D)) (VPtr (daVal D da))"

text \<open>
  \<open>stream.Decode(fd)\<close> into a new record.  The fuel is one unit more than there is left to read;
  \<open>None\<close> would be fuel that ran out.
\<close>

definition da_Decode :: "'c digest_codec \<Rightarrow> Stream \<Rightarrow> ((rlp_err + 'c DA) \<times> Stream) option" where
  "da_Decode D s = map_option (\<lambda>(r, s'). (map_sum id (valDa D) r, s')) (stream_Decode (Suc (left s)) (daT D) s)"

text \<open>What is left of a record that is written and read back: the times and a nil name space are lost.\<close>

definition stripped :: "'c DA \<Rightarrow> 'c DA" where
  "stripped da = da\<lparr> ReceiveAt := zeroTime, OutOfTime := zeroTime,
     NameSpaceID := Some (case NameSpaceID da of None \<Rightarrow> 0 | Some i \<Rightarrow> i) \<rparr>"

text \<open>
  What the model relies on of the commitment's type: package \<open>rlp\<close> accepts it, its values are
  canonical, and a value stands for one commitment.
\<close>

definition digest_ok :: "'c digest_codec \<Rightarrow> bool" where
  "digest_ok D \<longleftrightarrow> writerErr (digestT D) noTags = None \<and> decoderErr (digestT D) noTags = None \<and>
     (\<forall>c. encodable (digestVal D c) (digestT D) \<and> canon (digestVal D c) (digestT D) noTags \<and> valDigest D (digestVal D c) = c)"

text \<open>The size of a record's encoding.\<close>

definition da_size :: "'c digest_codec \<Rightarrow> 'c DA \<Rightarrow> nat" where
  "da_size D da = length (valBytes (daVal D da) (daT D) noTags)"

subsection \<open>Strings and times\<close>

lemma bytesString_stringBytes [simp]: "bytesString (stringBytes s) = s"
proof -
  have "char_of (unat (word_of_nat (of_char c) :: byte)) = c" for c :: char
  proof -
    have "(of_char c :: nat) < 256" by (rule nat_of_char_less_256)
    then show ?thesis by (simp add: unat_of_nat)
  qed
  then show ?thesis by (simp add: bytesString_def stringBytes_def map_idI)
qed

lemma valTime_zero: "valTime (VSeq [VUint 0, VNil, VNil]) = zeroTime"
  by (simp add: valTime_def unSeq_def unBig_def unUint_def)

lemma un_simps [simp]: "unBytes (VBytes b) = b" "unUint (VUint i) = i" "unSeq (VSeq vs) = vs" "unBig (VBig n) = n"
  by (simp_all add: unBytes_def unUint_def unSeq_def unBig_def)

subsection \<open>The struct\<close>

text \<open>The value the decoder builds from the encoding of a record.\<close>

definition readVal :: "'c digest_codec \<Rightarrow> 'c DA \<Rightarrow> gval" where
  "readVal D da = VSeq ((unSeq (daVal D da))[11 := zeroVal timeT, 12 := zeroVal timeT,
     15 := VPtr (VBig (case NameSpaceID da of None \<Rightarrow> 0 | Some i \<Rightarrow> i))])"

lemma timeT_fields:
  "ProcessFields [(private_field ''wall'', TUint 64), (private_field ''ext'', TOther), (private_field ''loc'', TPtr TOther)] =
    Inr [None, None, None]"
  by (simp add: ProcessFields_def lastPublicField_def private_field_def)

lemma parseTag_public: "parseTag (public n, t) l = Inr noTags"
  by (simp add: parseTag_def public_def TrimSpace_def Let_def)

lemma gatherTags_public: "gatherTags lp i (map (\<lambda>(n, t). (public n, t)) fs) = Inr (replicate (length fs) (Some noTags))"
  by (induction fs arbitrary: i) (auto simp: parseTag_public, simp_all add: public_def noTags_def)

lemma optionalOk_plain: "optionalOk False (replicate n noTags)"
  by (induction n) (simp_all add: noTags_def)

lemma ProcessFields_public: "ProcessFields (map (\<lambda>(n, t). (public n, t)) fs) = Inr (replicate (length fs) (Some noTags))"
  using optionalOk_plain by (simp add: ProcessFields_def gatherTags_public filter_replicate map_replicate)

text \<open>Structs without tags: every field is written and read.\<close>

lemma select_plain: "length xs = n \<Longrightarrow> selectFields (replicate n (Some ts)) xs = map (Pair ts) xs"
  by (induction xs arbitrary: n) (auto simp: Suc_length_conv)

lemma firstOptional_plain: "list_all (\<lambda>ts. \<not> Optional ts) tgs \<Longrightarrow> firstOptionalField tgs = length tgs"
  by (induction tgs) simp_all

lemma fieldCount_plain: "list_all (\<lambda>x. \<not> Optional (fst x)) flds \<Longrightarrow> fieldCount flds = length flds"
  using firstOptional_plain [of "map fst flds"] by (simp add: fieldCount_def Let_def list_all_iff)

lemma fill_plain: "length vs = length tys \<Longrightarrow> fillFields (replicate (length tys) (Some ts)) tys vs = vs"
  by (induction vs tys rule: list_induct2) simp_all

lemma plain_struct:
  assumes p: "ProcessFields fs = Inr (replicate (length fs) (Some noTags))" and l: "length vs = length fs"
  shows "valBytes (VSeq vs) (TStruct fs) tg = frame List (concat (map2 (\<lambda>t v. valBytes v t noTags) (map snd fs) vs))"
    "encodable (VSeq vs) (TStruct fs) \<longleftrightarrow> list_all2 (\<lambda>t v. encodable v t) (map snd fs) vs"
    "canon (VSeq vs) (TStruct fs) tg \<longleftrightarrow> list_all2 (\<lambda>t v. canon v t noTags) (map snd fs) vs"
proof -
  have sel: "selectFields (replicate (length fs) (Some noTags)) (zip (map snd fs) (zip vs (map f vs))) =
      map (Pair noTags) (zip (map snd fs) (zip vs (map f vs)))" for f :: "gval \<Rightarrow> 'b"
    using l by (intro select_plain) simp
  have cnt: "fieldCount (map (\<lambda>(ts, t, v, b). (ts, isZero v t)) (map (Pair noTags) (zip (map snd fs) (zip vs (map f vs))))) = length fs"
    for f :: "gval \<Rightarrow> 'b"
    using l by (subst fieldCount_plain) (auto simp: list_all_iff noTags_def)
  have z: "zip (map snd fs) (zip vs (map f vs)) = map (\<lambda>(t, v). (t, v, f v)) (zip (map snd fs) vs)" for f :: "gval \<Rightarrow> 'b"
    using l by (intro nth_equalityI) simp_all
  show "valBytes (VSeq vs) (TStruct fs) tg = frame List (concat (map2 (\<lambda>t v. valBytes v t noTags) (map snd fs) vs))"
    unfolding valBytes.simps gtype.case p sum.case Let_def sel cnt
    using l by (simp add: z comp_def case_prod_unfold)
  show "encodable (VSeq vs) (TStruct fs) \<longleftrightarrow> list_all2 (\<lambda>t v. encodable v t) (map snd fs) vs"
    unfolding encodable.simps gtype.case p sum.case Let_def sel cnt
    using l by (auto simp: z comp_def case_prod_unfold list_all_iff list_all2_iff)
  show "canon (VSeq vs) (TStruct fs) tg \<longleftrightarrow> list_all2 (\<lambda>t v. canon v t noTags) (map snd fs) vs"
    unfolding canon.simps gtype.case p sum.case Let_def sel cnt
    using l fill_plain [of vs "map snd fs" noTags]
    by (auto simp: z comp_def case_prod_unfold list_all_iff list_all2_iff)
qed

subsection \<open>Records through the codec\<close>

definition daFields :: "'c digest_codec \<Rightarrow> (string \<times> gtype) list" where
  "daFields D = [
     (''Sender'', TArray 20 (TUint 8)), (''Nonce'', TUint 64), (''Index'', TUint 64),
     (''Length'', TUint 64), (''Data'', TSlice (TUint 8)), (''Commitment'', digestT D),
     (''SignData'', TSlice (TSlice (TUint 8))), (''SignerAddr'', TSlice TString),
     (''DasKey'', TArray 32 (TUint 8)), (''TxHash'', TArray 32 (TUint 8)),
     (''BlockNum'', TUint 64), (''ReceiveAt'', timeT), (''OutOfTime'', timeT),
     (''Proof'', TSlice (TUint 8)), (''ClaimedValue'', TSlice (TUint 8)),
     (''NameSpaceID'', TPtr TBig), (''Root'', TArray 32 (TUint 8))]"

lemma daT_fields: "daT D = TStruct (map (\<lambda>(n, t). (public n, t)) (daFields D))"
  by (simp add: daT_def daFields_def)

lemma da_tags:
  "ProcessFields (map (\<lambda>(n, t). (public n, t)) (daFields D)) =
     Inr (replicate (length (map (\<lambda>(n, t). (public n, t)) (daFields D))) (Some noTags))"
  using ProcessFields_public by simp

lemma da_plain:
  assumes "length vs = 17"
  shows "valBytes (VSeq vs) (daT D) tg = frame List (concat (map2 (\<lambda>t v. valBytes v t noTags) (map snd (daFields D)) vs))"
    "encodable (VSeq vs) (daT D) \<longleftrightarrow> list_all2 (\<lambda>t v. encodable v t) (map snd (daFields D)) vs"
    "canon (VSeq vs) (daT D) tg \<longleftrightarrow> list_all2 (\<lambda>t v. canon v t noTags) (map snd (daFields D)) vs"
proof -
  have l: "length vs = length (map (\<lambda>(n, t). (public n, t)) (daFields D))" using assms by (simp add: daFields_def)
  have m: "map snd (map (\<lambda>(n, t). (public n, t)) (daFields D)) = map snd (daFields D)" by (simp add: daFields_def)
  show "valBytes (VSeq vs) (daT D) tg = frame List (concat (map2 (\<lambda>t v. valBytes v t noTags) (map snd (daFields D)) vs))"
    "encodable (VSeq vs) (daT D) \<longleftrightarrow> list_all2 (\<lambda>t v. encodable v t) (map snd (daFields D)) vs"
    "canon (VSeq vs) (daT D) tg \<longleftrightarrow> list_all2 (\<lambda>t v. canon v t noTags) (map snd (daFields D)) vs"
    using plain_struct [OF da_tags l] unfolding daT_fields m by simp_all
qed

lemma time_facts:
  "valBytes (timeVal t) timeT tg = frame List []" "valBytes (zeroVal timeT) timeT tg = frame List []"
  "encodable (timeVal t) timeT" "encodable (zeroVal timeT) timeT" "canon (zeroVal timeT) timeT tg"
  "writerErr timeT tg = None" "decoderErr timeT tg = None" "valTime (zeroVal timeT) = zeroTime"
  by (simp_all add: timeT_def timeVal_def timeT_fields Let_def fieldCount_def valTime_def unBig_def)

lemma da_errs:
  "writerErr (digestT D) noTags = None \<Longrightarrow> writerErr (daT D) tg = None"
  "decoderErr (digestT D) noTags = None \<Longrightarrow> decoderErr (daT D) tg = None"
  unfolding daT_fields writerErr.simps decoderErr.simps da_tags sum.case
  by (simp_all add: select_plain firstErr_None) (auto simp: daFields_def isByte_def time_facts)

lemma valBytes_NameSpace:
  "valBytes (case ns of None \<Rightarrow> VNil | Some i \<Rightarrow> VPtr (VBig i)) (TPtr TBig) tg =
    valBytes (VPtr (VBig (case ns of None \<Rightarrow> 0 | Some i \<Rightarrow> i))) (TPtr TBig) tg"
  by (cases ns) (simp_all add: int_bytes_def)

lemma readVal_eq:
  "readVal D da = VSeq [
     VBytes (Address_Bytes (Sender da)), VUint (Nonce da), VUint (Index da), VUint (Length da), VBytes (Data da),
     digestVal D (Commitment da), VSeq (map VBytes (SignData da)), VSeq (map (\<lambda>s. VBytes (stringBytes s)) (SignerAddr da)),
     VBytes (DasKey da), VBytes (Hash_Bytes (TxHash da)), VUint (BlockNum da), zeroVal timeT,
     zeroVal timeT, VBytes (Proof da), VBytes (ClaimedValue da),
     VPtr (VBig (case NameSpaceID da of None \<Rightarrow> 0 | Some i \<Rightarrow> i)), VBytes (Hash_Bytes (Root da))]"
  by (simp add: readVal_def daVal_def list_update.simps numeral_eq_Suc del: zeroVal.simps)

lemma readVal_bytes: "valBytes (readVal D da) (daT D) tg = valBytes (daVal D da) (daT D) tg"
  unfolding readVal_eq daVal_def
  by (simp add: da_plain(1) daFields_def time_facts valBytes_NameSpace del: valBytes.simps zeroVal.simps frame.simps)

lemma encodable_daVal:
  assumes "digest_ok D"
  shows "encodable (daVal D da) (daT D) \<longleftrightarrow> (case NameSpaceID da of None \<Rightarrow> True | Some i \<Rightarrow> 0 \<le> i)"
  using assms unfolding daVal_def digest_ok_def
  by (subst da_plain(2)) (auto simp: daFields_def time_facts isByte_def list_all_iff split: option.split)

lemma uint_u64: "uint (x :: u64) < 18446744073709551616"
  using unsigned_less [of x] by simp

lemma canon_readVal:
  assumes "digest_ok D" "length (DasKey da) = 32" "case NameSpaceID da of None \<Rightarrow> True | Some i \<Rightarrow> 0 \<le> i"
  shows "canon (readVal D da) (daT D) tg"
  using assms unfolding readVal_eq digest_ok_def
  by (subst da_plain(3)) (auto simp: daFields_def time_facts isByte_def list_all_iff length_Address_Bytes uint_u64 simp del: zeroVal.simps split: option.split)

lemma valDa_readVal:
  assumes "digest_ok D"
  shows "valDa D (readVal D da) = stripped da"
  using assms unfolding readVal_eq digest_ok_def
  by (simp add: valDa_def stripped_def time_facts comp_def Let_def map_idI del: zeroVal.simps)

text \<open>Reading what was written, in front of anything else.\<close>

lemma digest_errs:
  assumes "digest_ok D"
  shows "writerErr (TPtr (daT D)) noTags = None" "decoderErr (daT D) noTags = None"
proof -
  have "daT D \<noteq> TBig" by (simp add: daT_def)
  then show "writerErr (TPtr (daT D)) noTags = None" using da_errs(1) [of D noTags] assms by (simp add: digest_ok_def)
  show "decoderErr (daT D) noTags = None" using da_errs(2) [of D noTags] assms by (simp add: digest_ok_def)
qed

lemma da_Encode_bytes:
  assumes "digest_ok D" "da_size D da < 2 ^ 63"
  shows "da_Encode D da = Inr bs \<Longrightarrow> bs = valBytes (daVal D da) (daT D) noTags \<and> (case NameSpaceID da of None \<Rightarrow> True | Some i \<Rightarrow> 0 \<le> i)"
proof -
  assume e: "da_Encode D da = Inr bs"
  note w = digest_errs(1) [OF assms(1)]
  have l: "length (valBytes (VPtr (daVal D da)) (TPtr (daT D)) noTags) < 2 ^ 63" using assms(2) by (simp add: da_size_def)
  from rlp_Encode_rules [OF l] w e show ?thesis
    using encodable_daVal [OF assms(1), of da] by (auto simp: da_Encode_def split: if_splits)
qed

lemma da_Decode_Encode:
  assumes D: "digest_ok D" and sz: "da_size D da < 2 ^ 63" and key: "length (DasKey da) = 32"
    and enc: "da_Encode D da = Inr bs" and r: "ready bs s"
  shows "\<exists>s'. da_Decode D s = Some (Inr (stripped da), s') \<and> past bs s s'"
proof -
  have b: "bs = valBytes (readVal D da) (daT D) noTags" and ns: "case NameSpaceID da of None \<Rightarrow> True | Some i \<Rightarrow> 0 \<le> i"
    using da_Encode_bytes [OF D sz enc] readVal_bytes by metis+
  note err = digest_errs(2) [OF D]
  have f: "length bs < Suc (left s)" "Suc (left s) \<le> 2 ^ 64" using r by (auto simp: ready_def fits_def left_def)
  have "decodes_field (Suc (left s)) (daT D) noTags (readVal D da)"
    using decodes_canon [OF canon_readVal [OF D key ns] err _ f(2)] f(1) b by simp
  then have "decodes (decodeVal (Suc (left s)) (daT D) noTags) bs (readVal D da)" by (simp add: decodes_field_def b)
  then obtain s' where "decodeVal (Suc (left s)) (daT D) noTags s = Some (Inr (readVal D da), s')" "past bs s s'"
    using r unfolding decodes_def by blast
  then show ?thesis using err valDa_readVal [OF D] by (simp add: da_Decode_def stream_Decode_def)
qed

text \<open>Reading always returns, and a record uses up some of the input.\<close>

lemma da_Decode_returns: "\<exists>r s'. da_Decode D s = Some (r, s') \<and> (\<forall>da. r = Inr da \<longrightarrow> left s' < left s)"
proof (cases "decoderErr (daT D) noTags")
  case None
  have "returns 1 (Suc (left s)) (decodeVal (Suc (left s)) (daT D) noTags)"
    using decodeVal_returns [of noTags "Suc (left s)" "daT D"] by simp
  from returnsE [OF this, of s] obtain r s' where
    "decodeVal (Suc (left s)) (daT D) noTags s = Some (r, s')" "\<forall>v. r = Inr v \<longrightarrow> left s' < left s"
    by (metis Inl_Inr_False add.commute less_eq_Suc_le lessI plus_1_eq_Suc sum.inject(2))
  then show ?thesis using None by (cases r) (simp_all add: da_Decode_def stream_Decode_def)
qed (simp add: da_Decode_def stream_Decode_def)

lemma da_Decode_EOF:
  assumes "digest_ok D" "skind s = None" "stack s = []" "\<not> limited s" "inp s = []"
  shows "\<exists>s'. da_Decode D s = Some (Inl ErrEOF, s')"
proof -
  note err = digest_errs(2) [OF assms(1)]
  have "\<exists>s'. stream_List s = (Inl ErrEOF, s')"
    using assms(2-5) by (simp add: stream_List_def stream_Kind_def listLimit_def stream_readKind_def readByte_def willRead_def Let_def)
  then obtain s' where "stream_List s = (Inl ErrEOF, s')" by blast
  then have "decodeVal (Suc (left s)) (daT D) noTags s = Some (Inl ErrEOF, s')"
    unfolding daT_fields decodeVal.simps da_tags sum.case decodeStruct_def by (simp add: wrapStreamError_def)
  then show ?thesis using err by (simp add: da_Decode_def stream_Decode_def)
qed

subsection \<open>What a decoded record holds\<close>

lemma decodeFields_each:
  "decodeFields fs s = Some (Inr vs, s') \<Longrightarrow> \<forall>(ts, t, dec)\<in>set fs. \<not> Optional ts \<Longrightarrow> i < length fs \<Longrightarrow>
    length vs = length fs \<and> (\<exists>s1 s2. (case fs ! i of (ts, t, dec) \<Rightarrow> dec ts s1) = Some (Inr (vs ! i), s2))"
proof (induction fs arbitrary: s vs i)
  case (Cons f fs)
  obtain ts t dec where f: "f = (ts, t, dec)" by (cases f)
  from Cons.prems(1,2) obtain v s1 ws where d: "dec ts s = Some (Inr v, s1)" "decodeFields fs s1 = Some (Inr ws, s')"
    and vs: "vs = v # ws" by (auto simp: f split: option.splits sum.splits if_splits prod.splits)
  show ?case
  proof (cases i)
    case 0
    with d vs f Cons.IH [OF d(2), of 0] Cons.prems(2) show ?thesis by (cases fs) auto
  next
    case (Suc k)
    with Cons.IH [OF d(2), of k] Cons.prems(2,3) vs f show ?thesis by auto
  qed
qed simp

lemma endList_value: "endList w v s = Some (Inr u, s') \<Longrightarrow> u = v"
  by (auto simp: endList_def lift_op_def map_sum_def split: option.splits sum.splits prod.splits)

lemma decoded_time: "decodeVal fuel timeT tg s = Some (Inr v, s') \<Longrightarrow> v = zeroVal timeT"
  by (auto simp: timeT_def timeT_fields decodeStruct_def dest!: endList_value split: sum.splits prod.splits)

lemma decoded_times:
  assumes "da_Decode D s = Some (Inr da, s')"
  shows "ReceiveAt da = zeroTime" "OutOfTime da = zeroTime"
proof -
  let ?fs = "map (\<lambda>(n, t). (public n, t)) (daFields D)"
  have len: "length ?fs = 17" by (simp add: daFields_def)
  from assms obtain v where v: "stream_Decode (Suc (left s)) (daT D) s = Some (Inr v, s')" "da = valDa D v"
    by (auto simp: da_Decode_def) (metis (no_types, lifting) Inl_Inr_False map_sum.simps obj_sumE sum.inject(2))
  then have "decodeVal (Suc (left s)) (daT D) noTags s = Some (Inr v, s')"
    by (auto simp: stream_Decode_def split: option.splits)
  then obtain s1 vs s2 where vs: "decodeFields (map (Pair noTags) (map (\<lambda>f. (snd f, decodeVal (Suc (left s)) (snd f))) ?fs)) s1 = Some (Inr vs, s2)"
    and fill: "v = VSeq (fillFields (replicate (length ?fs) (Some noTags)) (map snd ?fs) vs)"
    unfolding daT_fields decodeVal.simps da_tags sum.case decodeStruct_def
    by (auto simp: select_plain comp_def dest!: endList_value split: sum.splits prod.splits option.splits)
  have each: "length vs = 17 \<and> (\<exists>s1 s2. decodeVal (Suc (left s)) (snd (daFields D ! i)) noTags s1 = Some (Inr (vs ! i), s2))"
    if "i < 17" for i
    using decodeFields_each [OF vs, of i] that len by (auto simp: noTags_def split: prod.splits)
  have "v = VSeq vs" using fill_plain [of vs "map snd ?fs" noTags] each [of 0] len fill by simp
  moreover have "vs ! 11 = zeroVal timeT" "vs ! 12 = zeroVal timeT"
    using each [of 11] each [of 12] by (auto simp: daFields_def dest!: decoded_time)
  ultimately show "ReceiveAt da = zeroTime" "OutOfTime da = zeroTime"
    using v(2) time_facts(8) by (simp_all add: valDa_def unSeq_def Let_def)
qed

end
