(* ===== verification/Filedata_Journal.thy ===== *)
theory Filedata_Journal
  imports Da_Rlp
begin

text \<open>
  The on-disk journal of the file-data pool (\<open>core/txpool/filedatapool/journal.go\<close>).
  The journal's state is its writer (nil, the null device used while loading, or the open
  sink) and the contents of the file at its path.  Records are written by \<open>rlp.Encode\<close> and
  read by \<open>stream.Decode\<close> (\<open>Da_Rlp\<close>); the errors the operating system may return are
  arguments, and an open sink accepts what is written to it.
\<close>

datatype jwriter = DevNull | Sink

record journal =
  writer :: "jwriter option"
  jfile :: "byte list option"

datatype journal_err = ErrNoActiveJournal | IOErr string | RlpErr rlp_err

record rotate_io =
  closeErr :: "string option"
  createErr :: "string option"
  renameErr :: "string option"
  reopenErr :: "string option"

definition newFdJournal :: "byte list option \<Rightarrow> journal" where
  "newFdJournal file = \<lparr> writer = None, jfile = file \<rparr>"

text \<open>The loop of \<open>load\<close> over the stream; \<open>None\<close> stands for fuel that ran out.\<close>

fun loadLoop :: "'c digest_codec \<Rightarrow> ('p \<Rightarrow> 'c DA list \<Rightarrow> 'p) \<Rightarrow> nat \<Rightarrow> 'p \<Rightarrow> 'c DA list \<Rightarrow> Stream
    \<Rightarrow> ('p \<times> journal_err option) option" where
  "loadLoop D loadBatch 0 p batch s = None"
| "loadLoop D loadBatch (Suc fuel) p batch s =
     (case da_Decode D s of
        None \<Rightarrow> None
      | Some (Inl e, s) \<Rightarrow>
          Some (if length batch > 0 then loadBatch p batch else p, if e \<noteq> ErrEOF then Some (RlpErr e) else None)
      | Some (Inr fd, s) \<Rightarrow>
          let batch = batch @ [fd] in
          if length batch > 1024 then loadLoop D loadBatch fuel (loadBatch p batch) [] s
          else loadLoop D loadBatch fuel p batch s)"

text \<open>
  \<open>journal.load\<close>.  The pool that owns the journal is the state \<open>'p\<close>; \<open>setWriter\<close> is
  the assignment to \<open>journal.writer\<close> in that state, so that records added while loading
  meet the null device.  The loop has one unit of fuel per byte of the file and one more.
\<close>

definition journal_load :: "string option \<Rightarrow> 'c digest_codec \<Rightarrow> (jwriter option \<Rightarrow> 'p \<Rightarrow> 'p)
    \<Rightarrow> ('p \<Rightarrow> 'c DA list \<Rightarrow> 'p) \<Rightarrow> journal \<Rightarrow> 'p \<Rightarrow> ('p \<times> journal_err option) option" where
  "journal_load openErr D setWriter loadBatch j p =
     (case jfile j of
        None \<Rightarrow> Some (p, None)
      | Some input \<Rightarrow>
     (case openErr of
        Some e \<Rightarrow> Some (p, Some (IOErr e))
      | None \<Rightarrow>
     (case loadLoop D loadBatch (Suc (length input)) (setWriter (Some DevNull) p) [] (NewStream input False 0) of
        None \<Rightarrow> None
      | Some (p', failure) \<Rightarrow> Some (setWriter None p', failure))))"

definition journal_insert :: "'c digest_codec \<Rightarrow> 'c DA \<Rightarrow> journal \<Rightarrow> journal \<times> journal_err option" where
  "journal_insert D fd j =
     (case writer j of
        None \<Rightarrow> (j, Some ErrNoActiveJournal)
      | Some w \<Rightarrow>
          (case da_Encode D fd of
             Inl e \<Rightarrow> (j, Some (RlpErr e))
           | Inr bs \<Rightarrow>
               (case w of
                  DevNull \<Rightarrow> (j, None)
                | Sink \<Rightarrow> (j\<lparr> jfile := Some ((case jfile j of None \<Rightarrow> [] | Some f \<Rightarrow> f) @ bs) \<rparr>, None))))"

fun encodeAll :: "'c digest_codec \<Rightarrow> 'c DA list \<Rightarrow> rlp_err + byte list" where
  "encodeAll D [] = Inr []"
| "encodeAll D (fd # fds) =
     (case da_Encode D fd of
        Inl e \<Rightarrow> Inl e
      | Inr bs \<Rightarrow> (case encodeAll D fds of Inl e \<Rightarrow> Inl e | Inr cs \<Rightarrow> Inr (bs @ cs)))"

definition journal_rotate :: "'c digest_codec \<Rightarrow> rotate_io \<Rightarrow> 'c DA list \<Rightarrow> journal \<Rightarrow> journal \<times> journal_err option" where
  "journal_rotate D io fds j =
     (if writer j \<noteq> None \<and> closeErr io \<noteq> None then (j, map_option IOErr (closeErr io))
      else let j = j\<lparr> writer := None \<rparr> in
        case createErr io of
          Some e \<Rightarrow> (j, Some (IOErr e))
        | None \<Rightarrow>
        (case encodeAll D fds of
          Inl e \<Rightarrow> (j, Some (RlpErr e))
        | Inr replacement \<Rightarrow>
        (case renameErr io of
          Some e \<Rightarrow> (j, Some (IOErr e))
        | None \<Rightarrow>
            let j = j\<lparr> jfile := Some replacement \<rparr> in
            case reopenErr io of
              Some e \<Rightarrow> (j, Some (IOErr e))
            | None \<Rightarrow> (j\<lparr> writer := Some Sink \<rparr>, None))))"

definition journal_close :: "string option \<Rightarrow> journal \<Rightarrow> journal \<times> string option" where
  "journal_close closeError j = (if writer j \<noteq> None then (j\<lparr> writer := None \<rparr>, closeError) else (j, None))"

text \<open>A commitment type on which the theorems below are evaluated: byte strings.\<close>

definition smallCodec :: "byte list digest_codec" where
  "smallCodec = \<lparr> digestT = TSlice (TUint 8), digestVal = VBytes, valDigest = unBytes \<rparr>"

lemma smallCodec_ok: "digest_ok smallCodec"
  by (simp add: digest_ok_def smallCodec_def isByte_def)

subsection \<open>Loading always returns\<close>

lemma loadLoop_returns: "left s < fuel \<Longrightarrow> \<exists>r. loadLoop D loadBatch fuel p batch s = Some r"
proof (induction fuel arbitrary: p batch s)
  case (Suc fuel)
  obtain r s' where d: "da_Decode D s = Some (r, s')" "\<forall>da. r = Inr da \<longrightarrow> left s' < left s"
    using da_Decode_returns by blast
  show ?case
  proof (cases r)
    case (Inr fd)
    then have "left s' < fuel" using d(2) Suc.prems by fastforce
    then show ?thesis using d(1) Inr Suc.IH [of s'] by (auto simp: Let_def)
  qed (use d in simp)
qed simp

lemma left_NewStream: "left (NewStream input False 0) = length input"
  by (simp add: left_def NewStream_def Reset_def)

lemma journal_load_returns: "\<exists>r. journal_load openErr D setWriter loadBatch j p = Some r"
proof (cases "jfile j")
  case (Some input)
  obtain p' failure where "loadLoop D loadBatch (Suc (length input)) (setWriter (Some DevNull) p) [] (NewStream input False 0) = Some (p', failure)"
    using loadLoop_returns [of "NewStream input False 0" "Suc (length input)"] by (fastforce simp: left_NewStream)
  then show ?thesis using Some by (simp add: journal_load_def split: option.split)
qed (simp add: journal_load_def)

text \<open>An invariant of the owner's state; the records of a batch carry the zero time.\<close>

lemma loadLoop_inv:
  assumes "loadLoop D loadBatch fuel p batch s = Some (p', failure)" and "P p" and "\<forall>da\<in>set batch. ReceiveAt da = zeroTime"
    and "\<And>p b. P p \<Longrightarrow> \<forall>da\<in>set b. ReceiveAt da = zeroTime \<Longrightarrow> P (loadBatch p b)"
  shows "P p'"
  using assms
proof (induction fuel arbitrary: p batch s)
  case (Suc fuel)
  from Suc.prems(1) obtain r s' where d: "da_Decode D s = Some (r, s')" by (auto split: option.splits)
  show ?case
  proof (cases r)
    case (Inr fd)
    let ?b = "batch @ [fd]"
    have b: "\<forall>da\<in>set ?b. ReceiveAt da = zeroTime" using Suc.prems(3) decoded_times(1) d Inr by auto
    define p1 b1 where "p1 = (if length ?b > 1024 then loadBatch p ?b else p)" and "b1 = (if length ?b > 1024 then [] else ?b)"
    have "loadLoop D loadBatch fuel p1 b1 s' = Some (p', failure)"
      using Suc.prems(1) d Inr by (simp add: Let_def p1_def b1_def split: if_splits)
    moreover have "P p1" "\<forall>da\<in>set b1. ReceiveAt da = zeroTime" using Suc.prems(2,4) b by (simp_all add: p1_def b1_def)
    ultimately show ?thesis using Suc.IH Suc.prems(4) by blast
  qed (use Suc.prems d in \<open>auto split: if_splits\<close>)
qed simp

lemma journal_load_inv:
  assumes "journal_load openErr D setWriter loadBatch j p = Some (p', failure)" and "P p"
    and "\<And>w p. P p \<Longrightarrow> P (setWriter w p)"
    and "\<And>p b. P p \<Longrightarrow> \<forall>da\<in>set b. ReceiveAt da = zeroTime \<Longrightarrow> P (loadBatch p b)"
  shows "P p'"
proof -
  have "P q" if "loadLoop D loadBatch fuel (setWriter (Some DevNull) p) [] s = Some (q, e)" for fuel s q e
    by (rule loadLoop_inv [OF that]) (use assms in auto)
  with assms show ?thesis unfolding journal_load_def by (auto split: option.splits simp del: loadLoop.simps)
qed

text \<open>An empty file has no records.\<close>

lemma journal_load_empty:
  assumes "jfile j = Some []"
  shows "\<exists>failure. journal_load openErr D setWriter loadBatch j p =
    Some (if openErr = None then setWriter None (setWriter (Some DevNull) p) else p, failure)"
proof -
  let ?s = "NewStream [] False 0"
  obtain r s' where d: "da_Decode D ?s = Some (r, s')" "\<forall>da. r = Inr da \<longrightarrow> left s' < left ?s"
    using da_Decode_returns by blast
  then obtain e where "r = Inl e" using left_NewStream [of "[]"] by (cases r) auto
  with d(1) assms show ?thesis by (simp add: journal_load_def split: option.split)
qed

subsection \<open>Loading what a rotation wrote\<close>

text \<open>A stream on a file that was read up to some point.\<close>

definition at_file :: "Stream \<Rightarrow> byte list \<Rightarrow> bool" where
  "at_file s rest \<longleftrightarrow> inp s = rest \<and> skind s = None \<and> stack s = [] \<and> \<not> limited s"

lemma at_file_past: "at_file s (bs @ cs) \<Longrightarrow> past bs s s' \<Longrightarrow> at_file s' cs"
  by (auto simp: at_file_def past_def consumed_def advance_def)

lemma at_file_ready: "at_file s (bs @ cs) \<Longrightarrow> length (bs @ cs) < 2 ^ 64 \<Longrightarrow> ready bs s"
  by (auto simp: at_file_def ready_def fits_def)

text \<open>What the codec needs of the records: Go's array length and a bounded size.\<close>

definition writable :: "'c digest_codec \<Rightarrow> 'c DA \<Rightarrow> bool" where
  "writable D fd \<longleftrightarrow> length (DasKey fd) = 32 \<and> da_size D fd < 2 ^ 63"

lemma loadLoop_encoded:
  assumes D: "digest_ok D" and w: "\<forall>fd\<in>set fds. writable D fd"
    and enc: "encodeAll D fds = Inr input" and at: "at_file s input" and len: "length input < 2 ^ 64"
    and fuel: "length fds < fuel" and batch: "length batch \<le> 1024"
  shows "\<exists>bs. concat bs = batch @ map stripped fds \<and> (\<forall>b\<in>set bs. length b \<le> 1025 \<and> b \<noteq> []) \<and>
    loadLoop D loadBatch fuel p batch s = Some (foldl loadBatch p bs, None)"
  using w enc at len fuel batch
proof (induction fds arbitrary: fuel p batch input s)
  case Nil
  then obtain f where f: "fuel = Suc f" by (cases fuel) auto
  obtain s' where "da_Decode D s = Some (Inl ErrEOF, s')" using da_Decode_EOF [OF D, of s] Nil by (auto simp: at_file_def)
  then have "loadLoop D loadBatch fuel p batch s = Some (if batch = [] then p else loadBatch p batch, None)" by (simp add: f)
  then show ?case by (intro exI [of _ "if batch = [] then [] else [batch]"]) (use Nil.prems(6) in simp)
next
  case (Cons fd fds)
  then obtain f where f: "fuel = Suc f" and lf: "length fds < f" by (cases fuel) auto
  from Cons.prems(2) obtain bs cs where bs: "da_Encode D fd = Inr bs" and cs: "encodeAll D fds = Inr cs"
    and content: "input = bs @ cs" by (auto split: sum.splits)
  have wfd: "length (DasKey fd) = 32" "da_size D fd < 2 ^ 63" using Cons.prems(1) by (simp_all add: writable_def)
  obtain s' where d: "da_Decode D s = Some (Inr (stripped fd), s')" "past bs s s'"
    using da_Decode_Encode [OF D wfd(2,1) bs] at_file_ready Cons.prems(3,4) content by blast
  have at': "at_file s' cs" using at_file_past d(2) Cons.prems(3) content by blast
  have w': "\<forall>fd\<in>set fds. writable D fd" and len': "length cs < 2 ^ 64" using Cons.prems(1,4) content by simp_all
  let ?b = "batch @ [stripped fd]"
  show ?case
  proof (cases "length ?b > 1024")
    case True
    from Cons.IH [OF w' cs at' len' lf, of "[]" "loadBatch p ?b"] obtain ds where
      ds: "concat ds = map stripped fds" "\<forall>b\<in>set ds. length b \<le> 1025 \<and> b \<noteq> []"
        "loadLoop D loadBatch f (loadBatch p ?b) [] s' = Some (foldl loadBatch (loadBatch p ?b) ds, None)" by auto
    with True Cons.prems(6) d(1) f show ?thesis by (intro exI [of _ "?b # ds"]) (simp add: Let_def)
  next
    case False
    then have "length ?b \<le> 1024" by simp
    from Cons.IH [OF w' cs at' len' lf this, of p] obtain ds where
      "concat ds = ?b @ map stripped fds" "\<forall>b\<in>set ds. length b \<le> 1025 \<and> b \<noteq> []"
        "loadLoop D loadBatch f p ?b s' = Some (foldl loadBatch p ds, None)" by auto
    with False d(1) f show ?thesis by (intro exI [of _ ds]) (simp add: Let_def)
  qed
qed

lemma da_Encode_nonempty:
  assumes "digest_ok D" "writable D fd" "da_Encode D fd = Inr bs"
  shows "0 < length bs"
proof -
  have "bs = valBytes (VSeq (unSeq (daVal D fd))) (daT D) noTags"
    using da_Encode_bytes [OF assms(1) _ assms(3)] assms(2) by (simp add: writable_def daVal_def)
  moreover have "length (unSeq (daVal D fd)) = 17" by (simp add: daVal_def)
  ultimately show ?thesis using da_plain(1) [of "unSeq (daVal D fd)" D noTags]
      length_frame_List [of "concat (map2 (\<lambda>t v. valBytes v t noTags) (map snd (daFields D)) (unSeq (daVal D fd)))"] by (metis less_nat_zero_code neq0_conv)
qed

lemma encodeAll_length:
  "digest_ok D \<Longrightarrow> \<forall>fd\<in>set fds. writable D fd \<Longrightarrow> encodeAll D fds = Inr input \<Longrightarrow> length fds \<le> length input"
proof (induction fds arbitrary: input)
  case (Cons fd fds)
  then obtain bs cs where bs: "da_Encode D fd = Inr bs" "encodeAll D fds = Inr cs" "input = bs @ cs" by (auto split: sum.splits)
  have "length fds \<le> length cs" using Cons.IH [OF Cons.prems(1) _ bs(2)] Cons.prems(2) by simp
  moreover have "0 < length bs" using da_Encode_nonempty [OF Cons.prems(1) _ bs(1)] Cons.prems(2) by simp
  ultimately show ?case using bs(3) by (cases bs) simp_all
qed simp

text \<open>
  C15: a journal rotated without an error loads back, without an error, as the rotated records in
  order, except that what package \<open>rlp\<close> does not carry is lost: the two times read back as
  the zero time and a nil name space as zero.  The records arrive in non-empty batches of
  at most 1025, and the load returns with the fuel it has.
\<close>

theorem rotate_then_load:
  assumes D: "digest_ok D" and w: "\<forall>fd\<in>set fds. writable D fd"
    and rot: "journal_rotate D io fds j = (j', None)" and content: "jfile j' = Some input" "length input < 2 ^ 64"
  shows "\<exists>batches. concat batches = map stripped fds \<and> (\<forall>b\<in>set batches. length b \<le> 1025 \<and> b \<noteq> []) \<and>
      journal_load None D setWriter loadBatch j' p =
        Some (setWriter None (foldl loadBatch (setWriter (Some DevNull) p) batches), None)"
proof -
  from rot content(1) have enc: "encodeAll D fds = Inr input"
    by (auto simp: journal_rotate_def Let_def split: if_splits option.splits sum.splits)
  have at: "at_file (NewStream input False 0) input" by (simp add: at_file_def NewStream_def Reset_def newStream_def)
  have "length fds < Suc (length input)" using encodeAll_length [OF D w enc] by simp
  from loadLoop_encoded [OF D w enc at content(2) this, of "[]" loadBatch "setWriter (Some DevNull) p"]
  obtain bs where "concat bs = map stripped fds" "\<forall>b\<in>set bs. length b \<le> 1025 \<and> b \<noteq> []"
    "loadLoop D loadBatch (Suc (length input)) (setWriter (Some DevNull) p) [] (NewStream input False 0) =
       Some (foldl loadBatch (setWriter (Some DevNull) p) bs, None)" by auto
  with content(1) show ?thesis by (auto simp: journal_load_def)
qed

lemma da_Encode_ok:
  assumes "digest_ok D" "writable D da" "case NameSpaceID da of None \<Rightarrow> True | Some i \<Rightarrow> 0 \<le> i"
  shows "da_Encode D da = Inr (valBytes (daVal D da) (daT D) noTags)"
  using rlp_Encode_rules [of "VPtr (daVal D da)" "TPtr (daT D)"] digest_errs(1) [OF assms(1)] encodable_daVal [OF assms(1), of da] assms(2,3)
  by (simp add: da_Encode_def writable_def da_size_def)

theorem rotate_then_load_witness:
  "\<exists>batches. concat batches = map stripped [smallDA, smallDA\<lparr> NameSpaceID := None \<rparr>] \<and>
     journal_load None smallCodec (\<lambda>_ p. p) (@)
       (fst (journal_rotate smallCodec \<lparr> closeErr = None, createErr = None, renameErr = None, reopenErr = None \<rparr>
          [smallDA, smallDA\<lparr> NameSpaceID := None \<rparr>] (newFdJournal None))) [] = Some (foldl (@) [] batches, None)"
proof -
  let ?a = "smallDA" and ?b = "smallDA\<lparr> NameSpaceID := None \<rparr>"
  have sz: "da_size smallCodec ?a < 1000" "da_size smallCodec ?b < 1000" by code_simp+
  have w: "\<forall>fd\<in>set [?a, ?b]. writable smallCodec fd"
    using sz by (simp add: writable_def smallDA_def zeroDA_def)
  have enc: "da_Encode smallCodec ?a = Inr (valBytes (daVal smallCodec ?a) (daT smallCodec) noTags)"
    "da_Encode smallCodec ?b = Inr (valBytes (daVal smallCodec ?b) (daT smallCodec) noTags)"
    using w by (auto intro!: da_Encode_ok [OF smallCodec_ok] simp: smallDA_def)
  let ?io = "\<lparr> closeErr = None, createErr = None, renameErr = None, reopenErr = None \<rparr>"
  define input where "input = valBytes (daVal smallCodec ?a) (daT smallCodec) noTags @ valBytes (daVal smallCodec ?b) (daT smallCodec) noTags"
  have rot: "journal_rotate smallCodec ?io [?a, ?b] (newFdJournal None) = (\<lparr> writer = Some Sink, jfile = Some input \<rparr>, None)"
    using enc by (simp add: journal_rotate_def newFdJournal_def input_def Let_def)
  have len: "length input < 2 ^ 64" using sz unfolding input_def da_size_def by simp
  show ?thesis
    using rotate_then_load [OF smallCodec_ok w rot _ len, of "\<lambda>_ p. p" "(@)" "[]"] unfolding rot fst_conv by auto
qed

end
