(* ===== verification/Filedata_Pool.thy ===== *)
theory Filedata_Pool
  imports Filedata_Journal "HOL-Library.Multiset"
begin

text \<open>
  The in-memory pool of data-availability records
  (\<open>core/txpool/filedatapool/filedatapool.go\<close>): the lookup table with its slot counter,
  the pool with its journal, disk cache and heartbeat map, the operations other parts of
  the node call, and the three ticker handlers of the background loop.  The source keeps
  pointers to records, and callers keep using the records they handed over: a pointer is an
  address into a heap of records, which the pool reads and its callers write.  The SDK that
  verifies commitments, the type of a commitment and the database are arguments (\<open>pool_env\<close>,
  \<open>gorm\<close>); one call runs at one instant \<open>now\<close>.  Feeds are logs of what was sent on them.
  The order in which Go iterates a map is a list argument.
\<close>

subsection \<open>Records in memory\<close>

type_synonym ref = nat

type_synonym 'c heap = "'c DA list"

text \<open>\<open>new(types.DA)\<close> for each of the given records.\<close>

definition alloc :: "'c DA list \<Rightarrow> 'c heap \<Rightarrow> 'c heap \<times> ref list" where
  "alloc das hp = (hp @ das, [length hp ..< length hp + length das])"

subsection \<open>The lookup table\<close>

record fd_lookup =
  slots :: u64
  collector :: "(hash, ref) gomap"

definition newLookup :: fd_lookup where
  "newLookup = \<lparr> slots = 0, collector = [] \<rparr>"

definition lookup_Get :: "fd_lookup \<Rightarrow> hash \<Rightarrow> ref option" where
  "lookup_Get t h = mget (collector t) h"

definition lookup_Count :: "fd_lookup \<Rightarrow> nat" where
  "lookup_Count t = mlen (collector t)"

text \<open>\<open>common.BytesToHash(fd.Commitment.Marshal())\<close>, the key of a record's commitment.\<close>

definition commitHash :: "'c da_env \<Rightarrow> 'c DA \<Rightarrow> hash" where
  "commitHash env da = BytesToHash (Marshal env (Commitment da))"

definition lookup_Add :: "'c da_env \<Rightarrow> 'c heap \<Rightarrow> ref \<Rightarrow> fd_lookup \<Rightarrow> fd_lookup" where
  "lookup_Add env hp fd t =
     (let t = t\<lparr> slots := slots t + 1 \<rparr>;
          da = hp ! fd;
          commitIsEmpty = (X_IsZero env (Commitment da) \<and> Y_IsZero env (Commitment da)) in
      if Hash_Cmp (TxHash da) 0 \<noteq> 0 \<and> commitIsEmpty then
        t\<lparr> collector := mput (TxHash da) fd (collector t) \<rparr>
      else if Hash_Cmp (TxHash da) 0 \<noteq> 0 \<and> \<not> commitIsEmpty then
        t\<lparr> collector := mput (commitHash env da) fd (mput (TxHash da) fd (collector t)) \<rparr>
      else if Hash_Cmp (TxHash da) 0 = 0 \<and> \<not> commitIsEmpty then
        t\<lparr> collector := mput (commitHash env da) fd (collector t) \<rparr>
      else t)"

definition lookup_Slots :: "fd_lookup \<Rightarrow> u64" where
  "lookup_Slots t = slots t"

definition lookup_Remove :: "hash \<Rightarrow> fd_lookup \<Rightarrow> fd_lookup" where
  "lookup_Remove h t = \<lparr> slots = slots t - 1, collector = mdel h (collector t) \<rparr>"

subsection \<open>The pool\<close>

datatype fp_err = ErrAlreadyKnown | ErrFdPoolOverflow | ErrLengthMismatch | ErrSignatureEmpty
  | ErrNotExist | SdkErr string

record 'c pool_env =
  da_of :: "'c da_env"
  sdkInit :: "string option"
  VerifyCommitWithProof :: "byte list \<Rightarrow> byte list \<Rightarrow> byte list \<Rightarrow> bool \<times> string option"
  codec :: "'c digest_codec"

record FilePool =
  GlobalSlots :: u64
  JournalRemote :: bool
  nodeType :: string
  fp_journal :: "journal option"
  all :: fd_lookup
  diskCache :: "(hash, int) gomap"
  fp_collector :: "(hash, ref) gomap"
  beats :: "(hash, int) gomap"
  fileDataFeed :: "ref list list"
  fileDataHashFeed :: "hash list list"
  unknowTxHash :: "hash list"

text \<open>The literal built by \<open>New\<close>; \<open>path\<close> is \<open>config.Journal\<close>, \<open>disk\<close> the file found there.\<close>

definition freshPool :: "u64 \<Rightarrow> bool \<Rightarrow> string \<Rightarrow> byte list option \<Rightarrow> string \<Rightarrow> FilePool" where
  "freshPool globalSlots journalRemote path disk nodeTy =
     \<lparr> GlobalSlots = globalSlots, JournalRemote = journalRemote, nodeType = nodeTy,
       fp_journal = (if journalRemote \<and> path \<noteq> [] then Some (newFdJournal disk) else None),
       all = newLookup, diskCache = [], fp_collector = [], beats = [],
       fileDataFeed = [], fileDataHashFeed = [], unknowTxHash = [] \<rparr>"

definition fp_get :: "FilePool \<Rightarrow> hash \<Rightarrow> ref option" where
  "fp_get fp h = lookup_Get (all fp) h"

definition Has :: "FilePool \<Rightarrow> hash \<Rightarrow> bool" where
  "Has fp h = (fp_get fp h \<noteq> None)"

definition validateFileDataSignature :: "'c pool_env \<Rightarrow> 'c DA \<Rightarrow> bool \<Rightarrow> bool \<times> fp_err option" where
  "validateFileDataSignature env da local =
     (if local then (True, None)
      else if Length da \<noteq> word_of_nat (length (Data da)) then (False, Some ErrLengthMismatch)
      else if length (SignData da) = 0 then (False, Some ErrSignatureEmpty)
      else case sdkInit env of
        Some e \<Rightarrow> (False, Some (SdkErr e))
      | None \<Rightarrow>
      (case snd (VerifyCommitWithProof env (Marshal (da_of env) (Commitment da)) (Proof da) (ClaimedValue da)) of
        Some e \<Rightarrow> (False, Some (SdkErr e))
      | None \<Rightarrow> (True, None)))"

definition AddInToDisk :: "hash \<Rightarrow> int \<Rightarrow> FilePool \<Rightarrow> FilePool" where
  "AddInToDisk h receive fp = fp\<lparr> diskCache := mput h receive (diskCache fp) \<rparr>"

definition journalFd :: "'c pool_env \<Rightarrow> 'c heap \<Rightarrow> hash \<Rightarrow> ref \<Rightarrow> FilePool \<Rightarrow> FilePool" where
  "journalFd env hp txHash fd fp =
     (case fp_journal fp of
        None \<Rightarrow> fp
      | Some j \<Rightarrow>
          if \<not> JournalRemote fp \<and> \<not> mhas (fp_collector fp) txHash then fp
          else fp\<lparr> fp_journal := Some (fst (journal_insert (codec env) (hp ! fd) j)) \<rparr>)"

text \<open>The key under which \<open>Add\<close> and \<open>add\<close> look a record up.\<close>

definition fdKey :: "'c da_env \<Rightarrow> 'c DA \<Rightarrow> hash" where
  "fdKey env da = (if Hash_Cmp (TxHash da) 0 \<noteq> 0 then TxHash da else commitHash env da)"

definition fp_add :: "'c pool_env \<Rightarrow> 'c heap \<Rightarrow> int \<Rightarrow> ref \<Rightarrow> FilePool \<Rightarrow> FilePool \<times> fp_err option" where
  "fp_add env hp now fd fp =
     (let h = fdKey (da_of env) (hp ! fd) in
      if lookup_Get (all fp) h \<noteq> None then (fp, Some ErrAlreadyKnown)
      else if lookup_Slots (all fp) + 1 > GlobalSlots fp then (fp, Some ErrFdPoolOverflow)
      else
        let fp = journalFd env hp h fd fp;
            fp = fp\<lparr> all := lookup_Add (da_of env) hp fd (all fp) \<rparr>
        in (fp\<lparr> beats := mput h now (beats fp) \<rparr>, None))"

fun addFdsLocked :: "'c pool_env \<Rightarrow> 'c heap \<Rightarrow> int \<Rightarrow> ref list \<Rightarrow> FilePool \<Rightarrow> FilePool \<times> fp_err option list" where
  "addFdsLocked env hp now [] fp = (fp, [])"
| "addFdsLocked env hp now (fd # fds) fp =
     (let (fp, err) = fp_add env hp now fd fp;
          (fp, errs) = addFdsLocked env hp now fds fp
      in (fp, err # errs))"

text \<open>
  The first loop of \<open>Add\<close>: \<open>i\<close> is the loop index, \<open>errs\<close> the slice of errors, which an
  invalid record extends by \<open>append\<close>, and \<open>news\<close> the records not yet known.
\<close>

fun addScan :: "'c pool_env \<Rightarrow> 'c heap \<Rightarrow> bool \<Rightarrow> nat \<Rightarrow> ref list \<Rightarrow> fp_err option list \<Rightarrow> ref list \<Rightarrow> FilePool
    \<Rightarrow> fp_err option list \<times> ref list \<times> FilePool" where
  "addScan env hp local i [] errs news fp = (errs, news, fp)"
| "addScan env hp local i (fd # fds) errs news fp =
     (let (flag, err) = validateFileDataSignature env (hp ! fd) local;
          errs = (if \<not> flag \<or> err \<noteq> None then errs @ [err] else errs);
          hashData = fdKey (da_of env) (hp ! fd);
          fp = (if nodeType fp = ''b'' then AddInToDisk hashData (ReceiveAt (hp ! fd)) fp else fp)
      in if lookup_Get (all fp) hashData \<noteq> None
         then addScan env hp local (i + 1) fds (errs[i := Some ErrAlreadyKnown]) news fp
         else addScan env hp local (i + 1) fds errs (news @ [fd]) fp)"

text \<open>\<open>for errs[nilSlot] != nil { nilSlot++ }\<close>; \<open>None\<close> is the index out of range.\<close>

function nextNil :: "fp_err option list \<Rightarrow> nat \<Rightarrow> nat option" where
  "nextNil errs nilSlot =
     (if nilSlot < length errs then
        if errs ! nilSlot \<noteq> None then nextNil errs (nilSlot + 1) else Some nilSlot
      else None)"
  by pat_completeness auto

termination nextNil
  by (relation "measure (\<lambda>(errs, nilSlot). length errs - nilSlot)") auto

text \<open>The second loop of \<open>Add\<close>: the errors of the new records go to the nil slots.\<close>

fun mergeErrs :: "fp_err option list \<Rightarrow> ref list \<Rightarrow> nat \<Rightarrow> fp_err option list \<Rightarrow> ref list
    \<Rightarrow> (fp_err, fp_err option list \<times> ref list) outcome" where
  "mergeErrs (err # newErrs) (fd # news) nilSlot errs final =
     (let final = (if err = None then final @ [fd] else final) in
      case nextNil errs nilSlot of
        None \<Rightarrow> Panic
      | Some k \<Rightarrow> mergeErrs newErrs news (k + 1) (errs[k := err]) final)"
| "mergeErrs [] news nilSlot errs final = Ok (errs, final)"
| "mergeErrs (err # newErrs) [] nilSlot errs final = Panic"

definition SendNewFileDataEvent :: "ref list \<Rightarrow> FilePool \<Rightarrow> FilePool" where
  "SendNewFileDataEvent fileData fp =
     (if length fileData \<noteq> 0 then fp\<lparr> fileDataFeed := fileDataFeed fp @ [fileData] \<rparr> else fp)"

definition fp_Add :: "'c pool_env \<Rightarrow> 'c heap \<Rightarrow> int \<Rightarrow> bool \<Rightarrow> ref list \<Rightarrow> FilePool
    \<Rightarrow> (fp_err, FilePool \<times> fp_err option list) outcome" where
  "fp_Add env hp now local fds fp =
     (let (errs, news, fp) = addScan env hp local 0 fds (replicate (length fds) None) [] fp in
      if length news = 0 then Ok (fp, errs)
      else
        let (fp, newErrs) = addFdsLocked env hp now news fp in
        bind_outcome (mergeErrs newErrs news 0 errs []) (\<lambda>(errs, final).
        Ok (SendNewFileDataEvent final fp, errs)))"

definition addRemotesSync :: "'c pool_env \<Rightarrow> 'c heap \<Rightarrow> int \<Rightarrow> ref list \<Rightarrow> FilePool
    \<Rightarrow> (fp_err, FilePool \<times> fp_err option list) outcome" where
  "addRemotesSync env hp now fds fp = fp_Add env hp now False fds fp"

definition addLocals :: "'c pool_env \<Rightarrow> 'c heap \<Rightarrow> int \<Rightarrow> ref list \<Rightarrow> FilePool
    \<Rightarrow> (fp_err, FilePool \<times> fp_err option list) outcome" where
  "addLocals env hp now fds fp = fp_Add env hp now True fds fp"

definition RemoveFileData :: "'c da_env \<Rightarrow> 'c heap \<Rightarrow> ref list \<Rightarrow> FilePool \<Rightarrow> FilePool" where
  "RemoveFileData env hp das fp = foldl (\<lambda>fp da.
     fp\<lparr> all := (all fp)\<lparr> collector :=
       mdel (commitHash env (hp ! da)) (mdel (TxHash (hp ! da)) (collector (all fp))) \<rparr> \<rparr>) fp das"

definition removeFileData :: "hash \<Rightarrow> FilePool \<Rightarrow> FilePool \<times> fp_err option" where
  "removeFileData h fp =
     (case lookup_Get (all fp) h of
        None \<Rightarrow> (fp, Some ErrNotExist)
      | Some fd \<Rightarrow> (fp\<lparr> beats := mdel h (beats fp), all := lookup_Remove h (all fp),
                     fp_collector := mdel h (fp_collector fp) \<rparr>, None))"

definition toJournal :: "FilePool \<Rightarrow> (hash, ref) gomap" where
  "toJournal fp = foldl (\<lambda>fds (h, fd). mput h fd fds) [] (fp_collector fp)"

subsection \<open>Queries\<close>

text \<open>
  \<open>Get\<close> with its label and counter: the branch after the counter test (sleep, retry, note
  the hash in a file) is part of the definition although \<open>getTimes\<close> starts at zero.  A
  record read from the database is a new one in memory.
\<close>

definition allocOne :: "'c DA \<Rightarrow> 'c heap \<Rightarrow> 'c heap \<times> ref option" where
  "allocOne da hp = (hp @ [da], Some (length hp))"

function fp_Get_from :: "nat \<Rightarrow> 'c da_env \<Rightarrow> 's gorm \<Rightarrow> 's \<Rightarrow> hash \<Rightarrow> FilePool \<Rightarrow> 'c heap
    \<Rightarrow> (fp_err, FilePool \<times> 'c heap \<times> ref option) outcome" where
  "fp_Get_from getTimes env g s h fp hp =
     (case fp_get fp h of
        Some fd \<Rightarrow> Ok (fp, hp, Some fd)
      | None \<Rightarrow>
     (case GetCommitmentByTxHash env g s h of
        Panic \<Rightarrow> Panic
      | Ok da \<Rightarrow> Ok (fp, allocOne da hp)
      | Err _ \<Rightarrow>
          if getTimes < 1 then
            (case GetDAByCommitmentHash env g s h of
               Panic \<Rightarrow> Panic
             | Ok da \<Rightarrow> Ok (fp, allocOne da hp)
             | Err _ \<Rightarrow> Ok (fp\<lparr> fileDataHashFeed := fileDataHashFeed fp @ [[h]] \<rparr>, hp, None))
          else if getTimes + 1 \<le> 1 then fp_Get_from (getTimes + 1) env g s h fp hp
          else Ok (fp\<lparr> unknowTxHash := unknowTxHash fp @ [h] \<rparr>, hp, None)))"
  by pat_completeness auto

termination fp_Get_from
  by (relation "measure (\<lambda>(getTimes, env, g, s, h, fp, hp). 2 - getTimes)") auto

definition fp_Get :: "'c da_env \<Rightarrow> 's gorm \<Rightarrow> 's \<Rightarrow> hash \<Rightarrow> FilePool \<Rightarrow> 'c heap
    \<Rightarrow> (fp_err, FilePool \<times> 'c heap \<times> ref option) outcome" where
  "fp_Get env g s h fp hp = fp_Get_from 0 env g s h fp hp"

definition GetDA :: "'c da_env \<Rightarrow> 's gorm \<Rightarrow> 's \<Rightarrow> hash \<Rightarrow> FilePool \<Rightarrow> 'c heap
    \<Rightarrow> (fp_err, 'c heap \<times> ref option) outcome" where
  "GetDA env g s h fp hp =
     (case fp_get fp h of
        Some fd \<Rightarrow> Ok (hp, Some fd)
      | None \<Rightarrow>
     (case GetCommitmentByTxHash env g s h of
        Panic \<Rightarrow> Panic
      | Ok da \<Rightarrow> Ok (allocOne da hp)
      | Err _ \<Rightarrow>
     (case GetDAByCommitmentHash env g s h of
        Panic \<Rightarrow> Panic
      | Ok da \<Rightarrow> Ok (allocOne da hp)
      | Err _ \<Rightarrow> Ok (hp, None))))"

definition GetDAByCommit :: "'c da_env \<Rightarrow> 's gorm \<Rightarrow> 's \<Rightarrow> byte list \<Rightarrow> FilePool \<Rightarrow> 'c heap
    \<Rightarrow> (db_err, 'c heap \<times> ref option) outcome" where
  "GetDAByCommit env g s commit fp hp =
     (let digest = fst (SetBytes env (zeroDigest env) commit);
          cmHash = BytesToHash (Marshal env digest) in
      case fp_get fp cmHash of
        Some fd \<Rightarrow> Ok (hp, Some fd)
      | None \<Rightarrow>
     (case GetDAByCommitment env g s commit of
        Panic \<Rightarrow> Panic
      | Err e \<Rightarrow> Err e
      | Ok da \<Rightarrow> Ok (allocOne da hp)))"

subsection \<open>Start, ticker handlers and shutdown\<close>

text \<open>
  \<open>rotateJournal\<close> is the journal ticker's handler, also run by \<open>Init\<close>; \<open>ord\<close> lists the
  map in the order Go iterates it.
\<close>

definition rotateJournal :: "'c pool_env \<Rightarrow> 'c heap \<Rightarrow> rotate_io \<Rightarrow> ((hash, ref) gomap \<Rightarrow> (hash, ref) gomap)
    \<Rightarrow> FilePool \<Rightarrow> FilePool" where
  "rotateJournal env hp io ord fp =
     (case fp_journal fp of
        None \<Rightarrow> fp
      | Some j \<Rightarrow> fp\<lparr> fp_journal :=
          Some (fst (journal_rotate (codec env) io (map (\<lambda>(h, fd). hp ! fd) (ord (toJournal fp))) j)) \<rparr>)"

text \<open>The state while the journal is loaded: the records read so far and the pool.\<close>

type_synonym 'c loading = "(fp_err, 'c heap \<times> FilePool) outcome"

definition setJournalWriter :: "jwriter option \<Rightarrow> 'c loading \<Rightarrow> 'c loading" where
  "setJournalWriter w res = bind_outcome res (\<lambda>(hp, fp).
     Ok (hp, fp\<lparr> fp_journal := map_option (\<lambda>j. j\<lparr> writer := w \<rparr>) (fp_journal fp) \<rparr>))"

definition initBatch :: "'c pool_env \<Rightarrow> int \<Rightarrow> 'c loading \<Rightarrow> 'c DA list \<Rightarrow> 'c loading" where
  "initBatch env now res batch = bind_outcome res (\<lambda>(hp, fp).
     let (hp, fds) = alloc batch hp in
     bind_outcome (if JournalRemote fp then addRemotesSync env hp now fds fp else addLocals env hp now fds fp)
       (\<lambda>(fp, errs). Ok (hp, fp)))"

definition loadDiskCache :: "'c da_env \<Rightarrow> 's gorm \<Rightarrow> 's \<Rightarrow> FilePool \<Rightarrow> FilePool" where
  "loadDiskCache env g s fp =
     (if nodeType fp = ''b'' then
        (case GetAllDARecords env g s of
           Inl err \<Rightarrow> fp
         | Inr das \<Rightarrow> foldl (\<lambda>fp da. AddInToDisk (commitHash env da) (ReceiveAt da)
                       (AddInToDisk (TxHash da) (ReceiveAt da) fp)) fp das)
      else fp)"

definition Init :: "'c pool_env \<Rightarrow> 's gorm \<Rightarrow> 's \<Rightarrow> string option \<Rightarrow> rotate_io \<Rightarrow> int
    \<Rightarrow> ((hash, ref) gomap \<Rightarrow> (hash, ref) gomap) \<Rightarrow> 'c heap \<Rightarrow> FilePool \<Rightarrow> 'c loading option" where
  "Init env g s openErr io now ord hp fp =
     map_option (\<lambda>res. bind_outcome res (\<lambda>(hp, fp). Ok (hp, loadDiskCache (da_of env) g s fp)))
       (case fp_journal fp of
          None \<Rightarrow> Some (Ok (hp, fp))
        | Some j \<Rightarrow>
            map_option (\<lambda>(res, failure). bind_outcome res (\<lambda>(hp, fp). Ok (hp, rotateJournal env hp io ord fp)))
              (journal_load openErr (codec env) setJournalWriter (initBatch env now) j (Ok (hp, fp))))"

text \<open>Fourteen days and one day, in nanoseconds.\<close>

definition diskLifetime :: int where
  "diskLifetime = 14 * 24 * 3600 * 1000000000"

definition evictLifetime :: int where
  "evictLifetime = 24 * 3600 * 1000000000"

definition removeOne :: "'s gorm \<Rightarrow> ('s \<Rightarrow> bool) \<Rightarrow> ('s \<Rightarrow> 's) \<Rightarrow> int \<Rightarrow> FilePool \<times> 's \<Rightarrow> hash \<Rightarrow> FilePool \<times> 's" where
  "removeOne g whereFails rollback now st h =
     (let (fp, s) = st in
      case mget (diskCache fp) h of
        None \<Rightarrow> (fp, s)
      | Some receive \<Rightarrow>
          if receive + diskLifetime < now then
            let s = fst (DeleteDAByHash g whereFails rollback s h)
            in (fp\<lparr> diskCache := mdel h (diskCache fp) \<rparr>, s)
          else (fp, s))"

definition removeTick :: "'s gorm \<Rightarrow> ('s \<Rightarrow> bool) \<Rightarrow> ('s \<Rightarrow> 's) \<Rightarrow> int \<Rightarrow> hash list \<Rightarrow> FilePool \<times> 's \<Rightarrow> FilePool \<times> 's" where
  "removeTick g whereFails rollback now order st = foldl (removeOne g whereFails rollback now) st order"

definition evictOne :: "FilePool \<Rightarrow> hash \<Rightarrow> FilePool" where
  "evictOne fp txHash =
     (if mhas (fp_collector fp) txHash
      then fst (removeFileData txHash (fp\<lparr> diskCache := mdel txHash (diskCache fp) \<rparr>))
      else fp)"

definition evictTick :: "int \<Rightarrow> hash list \<Rightarrow> (hash \<Rightarrow> hash list) \<Rightarrow> FilePool \<Rightarrow> FilePool" where
  "evictTick now order inner fp = foldl (\<lambda>fp h.
     if mhas (fp_collector fp) h \<and>
        now - (case mget (beats fp) h of None \<Rightarrow> zeroTime | Some t \<Rightarrow> t) > evictLifetime
     then foldl evictOne fp (inner h) else fp) fp order"

definition fp_Close :: "string option \<Rightarrow> FilePool \<Rightarrow> FilePool" where
  "fp_Close closeError fp =
     (case fp_journal fp of None \<Rightarrow> fp | Some j \<Rightarrow> fp\<lparr> fp_journal := Some (fst (journal_close closeError j)) \<rparr>)"

subsection \<open>Runs of the pool\<close>

text \<open>
  One step is one call or one tick, each under the pool's lock; the database moves along
  with the ticks and may change between calls.  Between the steps the owners of the
  records may write them and make new ones, as far as \<open>W\<close> allows.
\<close>

inductive pool_step :: "'c pool_env \<Rightarrow> 's gorm \<Rightarrow> ('c heap \<Rightarrow> 'c heap \<Rightarrow> bool)
    \<Rightarrow> 'c heap \<times> FilePool \<times> 's \<Rightarrow> 'c heap \<times> FilePool \<times> 's \<Rightarrow> bool" for env g W where
  Add: "\<forall>fd\<in>set fds. fd < length hp \<Longrightarrow> fp_Add env hp now local fds fp = Ok (fp', errs) \<Longrightarrow>
    pool_step env g W (hp, fp, s) (hp, fp', s)"
| Remove: "pool_step env g W (hp, fp, s) (hp, RemoveFileData (da_of env) hp das fp, s)"
| Get: "fp_Get (da_of env) g s h fp hp = Ok (fp', hp', res) \<Longrightarrow> pool_step env g W (hp, fp, s) (hp', fp', s)"
| Disk: "pool_step env g W (hp, fp, s) (hp, AddInToDisk h receive fp, s)"
| Tick_remove: "removeTick g whereFails rollback now order (fp, s) = (fp', s') \<Longrightarrow>
    pool_step env g W (hp, fp, s) (hp, fp', s')"
| Tick_evict: "pool_step env g W (hp, fp, s) (hp, evictTick now order inner fp, s)"
| Tick_journal: "mset (ord (toJournal fp)) = mset (toJournal fp) \<Longrightarrow>
    pool_step env g W (hp, fp, s) (hp, rotateJournal env hp io ord fp, s)"
| Close: "pool_step env g W (hp, fp, s) (hp, fp_Close closeError fp, s)"
| Database: "pool_step env g W (hp, fp, s) (hp, fp, s')"
| Owner: "length hp \<le> length hp' \<Longrightarrow> W hp hp' \<Longrightarrow> pool_step env g W (hp, fp, s) (hp', fp, s)"

inductive pool_run :: "'c pool_env \<Rightarrow> 's gorm \<Rightarrow> ('c heap \<Rightarrow> 'c heap \<Rightarrow> bool)
    \<Rightarrow> 'c heap \<times> FilePool \<times> 's \<Rightarrow> 'c heap \<times> FilePool \<times> 's \<Rightarrow> bool" for env g W where
  Start: "pool_run env g W st st"
| Then: "pool_run env g W st st' \<Longrightarrow> pool_step env g W st' st'' \<Longrightarrow> pool_run env g W st st''"

inductive_cases pool_stepE: "pool_step env g W st st'"

text \<open>
  What every reachable pool satisfies: the maps have one entry per key, the pool's own
  \<open>collector\<close> is empty, the counter does not pass the configured limit, and the table
  points to records in memory.
\<close>

definition pool_inv :: "'c heap \<Rightarrow> FilePool \<Rightarrow> bool" where
  "pool_inv hp fp \<longleftrightarrow>
     mwf (collector (all fp)) \<and> mwf (diskCache fp) \<and> mwf (beats fp) \<and> fp_collector fp = [] \<and>
     slots (all fp) \<le> GlobalSlots fp \<and>
     (\<forall>h fd. mget (collector (all fp)) h = Some fd \<longrightarrow> fd < length hp)"

text \<open>A record is found under its transaction hash or the hash of its commitment only.\<close>

definition keyed :: "'c da_env \<Rightarrow> 'c heap \<Rightarrow> FilePool \<Rightarrow> bool" where
  "keyed env hp fp \<longleftrightarrow>
     (\<forall>h fd. mget (collector (all fp)) h = Some fd \<longrightarrow>
        (h = TxHash (hp ! fd) \<and> TxHash (hp ! fd) \<noteq> 0) \<or> h = commitHash env (hp ! fd))"

text \<open>Writes that leave the fields the keys are made of.\<close>

definition keepsKeys :: "'c heap \<Rightarrow> 'c heap \<Rightarrow> bool" where
  "keepsKeys hp hp' \<longleftrightarrow> (\<forall>fd<length hp.
     TxHash (hp' ! fd) = TxHash (hp ! fd) \<and> Commitment (hp' ! fd) = Commitment (hp ! fd))"

subsection \<open>Reference definitions\<close>

text \<open>The keys \<open>lookup.Add\<close> stores a record under.\<close>

definition fdKeys :: "'c da_env \<Rightarrow> 'c DA \<Rightarrow> hash set" where
  "fdKeys env da = (if TxHash da \<noteq> 0 then {TxHash da} else {}) \<union>
     (if X_IsZero env (Commitment da) \<and> Y_IsZero env (Commitment da) then {} else {commitHash env da})"

text \<open>One record offered to a table with a limit.\<close>

definition addOne :: "'c da_env \<Rightarrow> 'c heap \<Rightarrow> u64 \<Rightarrow> fd_lookup \<Rightarrow> ref \<Rightarrow> fd_lookup" where
  "addOne env hp limit t fd =
     (if lookup_Get t (fdKey env (hp ! fd)) \<noteq> None \<or> slots t + 1 > limit then t else lookup_Add env hp fd t)"

text \<open>
  The parts of what \<open>Add\<close> returns: the errors of the invalid records, the pre-set slots of
  the records already known, and the slots filled with the errors of the new records; the
  records accepted; and what it writes to the disk cache.
\<close>

definition invalidErrs :: "'c pool_env \<Rightarrow> 'c heap \<Rightarrow> bool \<Rightarrow> ref list \<Rightarrow> fp_err option list" where
  "invalidErrs env hp local fds =
     filter (\<lambda>e. e \<noteq> None) (map (\<lambda>fd. snd (validateFileDataSignature env (hp ! fd) local)) fds)"

definition recordDisk :: "'c da_env \<Rightarrow> 'c heap \<Rightarrow> ref list \<Rightarrow> FilePool \<Rightarrow> FilePool" where
  "recordDisk env hp fds fp = (if nodeType fp = ''b''
     then foldl (\<lambda>fp fd. AddInToDisk (fdKey env (hp ! fd)) (ReceiveAt (hp ! fd)) fp) fp fds else fp)"

definition knownErrs :: "'c da_env \<Rightarrow> 'c heap \<Rightarrow> FilePool \<Rightarrow> ref list \<Rightarrow> fp_err option list" where
  "knownErrs env hp fp fds = map (\<lambda>fd. if Has fp (fdKey env (hp ! fd)) then Some ErrAlreadyKnown else None) fds"

fun fillNone :: "'e option list \<Rightarrow> 'e option list \<Rightarrow> 'e option list" where
  "fillNone [] es = []"
| "fillNone (Some e # ks) es = Some e # fillNone ks es"
| "fillNone (None # ks) [] = None # fillNone ks []"
| "fillNone (None # ks) (e # es) = e # fillNone ks es"

definition accepted :: "ref list \<Rightarrow> fp_err option list \<Rightarrow> ref list" where
  "accepted fds errs = map fst (filter (\<lambda>(fd, e). e = None) (zip fds errs))"

text \<open>
  The verdict on a record offered to a pool after the records \<open>acc\<close> were accepted, and the
  record found under a hash then: the last accepted one that has the hash as a key.
\<close>

definition verdict :: "'c da_env \<Rightarrow> 'c heap \<Rightarrow> FilePool \<Rightarrow> ref list \<Rightarrow> ref \<Rightarrow> fp_err option" where
  "verdict env hp fp acc fd =
     (let key = fdKey env (hp ! fd) in
      if Has fp key \<or> (\<exists>a\<in>set acc. key \<in> fdKeys env (hp ! a)) then Some ErrAlreadyKnown
      else if slots (all fp) + word_of_nat (length acc) + 1 > GlobalSlots fp then Some ErrFdPoolOverflow
      else None)"

definition found :: "'c da_env \<Rightarrow> 'c heap \<Rightarrow> FilePool \<Rightarrow> ref list \<Rightarrow> hash \<Rightarrow> ref option" where
  "found env hp fp acc h =
     (case find (\<lambda>a. h \<in> fdKeys env (hp ! a)) (rev acc) of Some a \<Rightarrow> Some a | None \<Rightarrow> fp_get fp h)"

text \<open>
  A pool while its journal is loaded: well-formed, with a journal, its records new in
  memory and the times it has noted all zero.
\<close>

definition zeroTimes :: "FilePool \<Rightarrow> bool" where
  "zeroTimes fp \<longleftrightarrow> (\<forall>h t. mget (diskCache fp) h = Some t \<longrightarrow> t = zeroTime)"

definition loads :: "'c pool_env \<Rightarrow> 'c heap \<Rightarrow> 'c loading \<Rightarrow> bool" where
  "loads env hp0 res \<longleftrightarrow> (\<exists>hp fp. res = Ok (hp, fp) \<and> pool_inv hp fp \<and> keyed (da_of env) hp fp \<and>
     fp_journal fp \<noteq> None \<and> zeroTimes fp \<and> (\<exists>new. hp = hp0 @ new))"

text \<open>A small environment and pool on which the theorems below are evaluated.\<close>

definition smallPoolEnv :: "byte list pool_env" where
  "smallPoolEnv = \<lparr> da_of = smallEnv, sdkInit = None, VerifyCommitWithProof = (\<lambda>c p v. (True, None)),
     codec = smallCodec \<rparr>"

definition smallPool :: FilePool where
  "smallPool = freshPool 1 True ''fileData.rlp'' None ''b''"

declare nextNil.simps [simp del]
declare fp_Get_from.simps [simp del]

subsection \<open>The lookup table's contract\<close>

lemma Hash_Cmp_zero [simp]: "Hash_Cmp h 0 = 0 \<longleftrightarrow> h = 0"
  by (simp add: Hash_Cmp_def)

lemma lookup_Get_Add:
  "lookup_Get (lookup_Add env hp fd t) h = (if h \<in> fdKeys env (hp ! fd) then Some fd else lookup_Get t h)"
  by (auto simp: lookup_Get_def lookup_Add_def fdKeys_def Let_def)

lemma lookup_Get_Remove: "lookup_Get (lookup_Remove k t) h = (if h = k then None else lookup_Get t h)"
  by (simp add: lookup_Get_def lookup_Remove_def)

lemma slots_lookup_Add [simp]: "slots (lookup_Add env hp fd t) = slots t + 1"
  by (simp add: lookup_Add_def Let_def)

lemma mwf_lookup_Add [simp]: "mwf (collector t) \<Longrightarrow> mwf (collector (lookup_Add env hp fd t))"
  by (simp add: lookup_Add_def Let_def)

lemma fdKey_fdKeys: "k \<in> fdKeys env da \<Longrightarrow> (k = TxHash da \<and> TxHash da \<noteq> 0) \<or> k = commitHash env da"
  by (auto simp: fdKeys_def split: if_splits)

subsection \<open>Adding records\<close>

lemma journalFd_frame [simp]:
  "all (journalFd env hp h fd fp) = all fp" "diskCache (journalFd env hp h fd fp) = diskCache fp"
  "fp_collector (journalFd env hp h fd fp) = fp_collector fp" "beats (journalFd env hp h fd fp) = beats fp"
  "GlobalSlots (journalFd env hp h fd fp) = GlobalSlots fp" "JournalRemote (journalFd env hp h fd fp) = JournalRemote fp"
  "nodeType (journalFd env hp h fd fp) = nodeType fp" "fileDataFeed (journalFd env hp h fd fp) = fileDataFeed fp"
  by (simp_all add: journalFd_def split: option.split)

lemma fp_add_frame [simp]:
  "diskCache (fst (fp_add env hp now fd fp)) = diskCache fp"
  "fp_collector (fst (fp_add env hp now fd fp)) = fp_collector fp"
  "GlobalSlots (fst (fp_add env hp now fd fp)) = GlobalSlots fp"
  "JournalRemote (fst (fp_add env hp now fd fp)) = JournalRemote fp"
  "nodeType (fst (fp_add env hp now fd fp)) = nodeType fp"
  "fileDataFeed (fst (fp_add env hp now fd fp)) = fileDataFeed fp"
  by (simp_all add: fp_add_def Let_def)

lemma fp_add_result:
  "snd (fp_add env hp now fd fp) =
     (if Has fp (fdKey (da_of env) (hp ! fd)) then Some ErrAlreadyKnown
      else if slots (all fp) + 1 > GlobalSlots fp then Some ErrFdPoolOverflow else None)"
  by (simp add: fp_add_def Let_def Has_def fp_get_def lookup_Slots_def)

lemma fp_add_all:
  "all (fst (fp_add env hp now fd fp)) =
     (if snd (fp_add env hp now fd fp) = None then lookup_Add (da_of env) hp fd (all fp) else all fp)"
  by (simp add: fp_add_def Let_def)

lemma fp_add_refused: "snd (fp_add env hp now fd fp) \<noteq> None \<Longrightarrow> fst (fp_add env hp now fd fp) = fp"
  by (auto simp: fp_add_def Let_def)

lemma fp_add_addOne:
  "all (fst (fp_add env hp now fd fp)) = addOne (da_of env) hp (GlobalSlots fp) (all fp) fd"
  by (simp add: fp_add_def addOne_def Let_def lookup_Slots_def)

lemma fp_get_add:
  "fp_get (fst (fp_add env hp now fd fp)) h =
     (if snd (fp_add env hp now fd fp) = None \<and> h \<in> fdKeys (da_of env) (hp ! fd) then Some fd else fp_get fp h)"
  by (simp add: fp_get_def fp_add_all lookup_Get_Add)

lemma Has_add_mono: "Has fp h \<Longrightarrow> Has (fst (fp_add env hp now fd fp)) h"
  by (simp add: Has_def fp_get_add)

lemma addFdsLocked_Cons:
  "fst (addFdsLocked env hp now (fd # fds) fp) = fst (addFdsLocked env hp now fds (fst (fp_add env hp now fd fp)))"
  "snd (addFdsLocked env hp now (fd # fds) fp) =
     snd (fp_add env hp now fd fp) # snd (addFdsLocked env hp now fds (fst (fp_add env hp now fd fp)))"
  by (simp_all add: Let_def split: prod.split)

declare addFdsLocked.simps(2) [simp del]

lemma addFdsLocked_snoc:
  "fst (addFdsLocked env hp now (fds @ [fd]) fp) = fst (fp_add env hp now fd (fst (addFdsLocked env hp now fds fp)))"
  "snd (addFdsLocked env hp now (fds @ [fd]) fp) =
     snd (addFdsLocked env hp now fds fp) @ [snd (fp_add env hp now fd (fst (addFdsLocked env hp now fds fp)))]"
  by (induction fds arbitrary: fp) (simp_all add: addFdsLocked_Cons)

lemma addFdsLocked_frame [simp]:
  "diskCache (fst (addFdsLocked env hp now fds fp)) = diskCache fp"
  "fp_collector (fst (addFdsLocked env hp now fds fp)) = fp_collector fp"
  "GlobalSlots (fst (addFdsLocked env hp now fds fp)) = GlobalSlots fp"
  "nodeType (fst (addFdsLocked env hp now fds fp)) = nodeType fp"
  "JournalRemote (fst (addFdsLocked env hp now fds fp)) = JournalRemote fp"
  "fileDataFeed (fst (addFdsLocked env hp now fds fp)) = fileDataFeed fp"
  by (induction fds arbitrary: fp) (simp_all add: addFdsLocked_Cons)

lemma length_addFdsLocked [simp]: "length (snd (addFdsLocked env hp now fds fp)) = length fds"
  by (induction fds arbitrary: fp) (simp_all add: addFdsLocked_Cons)

lemma Has_addFdsLocked_mono: "Has fp h \<Longrightarrow> Has (fst (addFdsLocked env hp now fds fp)) h"
  by (induction fds arbitrary: fp) (simp_all add: addFdsLocked_Cons Has_add_mono)

lemma addFdsLocked_addOne:
  "all (fst (addFdsLocked env hp now fds fp)) = foldl (addOne (da_of env) hp (GlobalSlots fp)) (all fp) fds"
  by (induction fds arbitrary: fp) (simp_all add: addFdsLocked_Cons fp_add_addOne)

text \<open>Adding skips what the pool holds: the records known beforehand may be left out.\<close>

lemma addFdsLocked_news:
  assumes "\<And>h. Has fp0 h \<Longrightarrow> Has fp h"
  shows "fst (addFdsLocked env hp now (filter (\<lambda>fd. \<not> Has fp0 (fdKey (da_of env) (hp ! fd))) fds) fp) =
      fst (addFdsLocked env hp now fds fp) \<and>
    fillNone (knownErrs (da_of env) hp fp0 fds)
      (snd (addFdsLocked env hp now (filter (\<lambda>fd. \<not> Has fp0 (fdKey (da_of env) (hp ! fd))) fds) fp)) =
      snd (addFdsLocked env hp now fds fp)"
  using assms
proof (induction fds arbitrary: fp)
  case (Cons fd fds)
  have IH: "\<And>h. Has fp0 h \<Longrightarrow> Has (fst (fp_add env hp now fd fp)) h" using Cons.prems by (simp add: Has_add_mono)
  show ?case
  proof (cases "Has fp0 (fdKey (da_of env) (hp ! fd))")
    case True
    then have k: "snd (fp_add env hp now fd fp) = Some ErrAlreadyKnown" using Cons.prems by (simp add: fp_add_result)
    then have "fst (fp_add env hp now fd fp) = fp" by (simp add: fp_add_refused)
    with True k Cons.IH [OF Cons.prems] show ?thesis by (simp add: addFdsLocked_Cons knownErrs_def)
  next
    case False
    with Cons.IH [OF IH] show ?thesis by (simp add: addFdsLocked_Cons knownErrs_def)
  qed
qed (simp add: knownErrs_def)

lemma accepted_snoc:
  "length fds = length errs \<Longrightarrow> accepted (fds @ [fd]) (errs @ [e]) = accepted fds errs @ (if e = None then [fd] else [])"
  by (simp add: accepted_def)

lemma accepted_Nil [simp]: "accepted [] errs = []"
  by (simp add: accepted_def)

lemma addFdsLocked_state:
  "fp_get (fst (addFdsLocked env hp now fds fp)) h =
     found (da_of env) hp fp (accepted fds (snd (addFdsLocked env hp now fds fp))) h"
  "slots (all (fst (addFdsLocked env hp now fds fp))) =
     slots (all fp) + word_of_nat (length (accepted fds (snd (addFdsLocked env hp now fds fp))))"
proof (induction fds rule: rev_induct)
  case (snoc fd fds)
  { case 1
    show ?case using snoc(1) by (auto simp: addFdsLocked_snoc accepted_snoc fp_get_add found_def) }
  { case 2
    show ?case using snoc(2) by (auto simp: addFdsLocked_snoc accepted_snoc fp_add_all) }
qed (simp_all add: found_def)

lemma found_Has:
  "found env hp fp acc h \<noteq> None \<longleftrightarrow> Has fp h \<or> (\<exists>a\<in>set acc. h \<in> fdKeys env (hp ! a))"
proof (cases "find (\<lambda>a. h \<in> fdKeys env (hp ! a)) (rev acc)")
  case None
  then have "\<forall>a\<in>set acc. h \<notin> fdKeys env (hp ! a)" by (auto simp: find_None_iff)
  with None show ?thesis by (simp add: found_def Has_def)
next
  case (Some a)
  then have "a \<in> set acc \<and> h \<in> fdKeys env (hp ! a)" by (auto simp: find_Some_iff) (metis nth_mem set_rev length_rev)
  with Some show ?thesis by (auto simp: found_def)
qed

lemma fp_add_verdict:
  "snd (fp_add env hp now fd (fst (addFdsLocked env hp now fds fp))) =
     verdict (da_of env) hp fp (accepted fds (snd (addFdsLocked env hp now fds fp))) fd"
  using found_Has [of "da_of env" hp fp "accepted fds (snd (addFdsLocked env hp now fds fp))" "fdKey (da_of env) (hp ! fd)"]
  by (simp add: fp_add_result verdict_def Let_def Has_def [of "fst _"] addFdsLocked_state)

lemma addFdsLocked_verdicts:
  assumes "i < length fds"
  shows "snd (addFdsLocked env hp now fds fp) ! i =
    verdict (da_of env) hp fp (accepted (take i fds) (take i (snd (addFdsLocked env hp now fds fp)))) (fds ! i)"
  using assms
proof (induction fds rule: rev_induct)
  case (snoc fd fds)
  show ?case
  proof (cases "i = length fds")
    case True
    then show ?thesis by (simp add: addFdsLocked_snoc nth_append fp_add_verdict)
  next
    case False
    with snoc show ?thesis by (simp add: addFdsLocked_snoc nth_append)
  qed
qed simp

subsection \<open>The two loops of Add\<close>

lemma AddInToDisk_frame [simp]:
  "all (AddInToDisk h t fp) = all fp" "fp_collector (AddInToDisk h t fp) = fp_collector fp"
  "GlobalSlots (AddInToDisk h t fp) = GlobalSlots fp" "nodeType (AddInToDisk h t fp) = nodeType fp"
  "beats (AddInToDisk h t fp) = beats fp" "fp_journal (AddInToDisk h t fp) = fp_journal fp"
  "diskCache (AddInToDisk h t fp) = mput h t (diskCache fp)"
  "JournalRemote (AddInToDisk h t fp) = JournalRemote fp"
  "fileDataFeed (AddInToDisk h t fp) = fileDataFeed fp"
  by (simp_all add: AddInToDisk_def)

lemma validate_flag: "fst (validateFileDataSignature env da local) \<longleftrightarrow> snd (validateFileDataSignature env da local) = None"
  by (simp add: validateFileDataSignature_def split: option.split)

lemma foldl_AddInToDisk_frame [simp]:
  "all (foldl (\<lambda>fp fd. AddInToDisk (k fd) (t fd) fp) fp fds) = all fp"
  "fp_collector (foldl (\<lambda>fp fd. AddInToDisk (k fd) (t fd) fp) fp fds) = fp_collector fp"
  "GlobalSlots (foldl (\<lambda>fp fd. AddInToDisk (k fd) (t fd) fp) fp fds) = GlobalSlots fp"
  "beats (foldl (\<lambda>fp fd. AddInToDisk (k fd) (t fd) fp) fp fds) = beats fp"
  "nodeType (foldl (\<lambda>fp fd. AddInToDisk (k fd) (t fd) fp) fp fds) = nodeType fp"
  "fp_journal (foldl (\<lambda>fp fd. AddInToDisk (k fd) (t fd) fp) fp fds) = fp_journal fp"
  "JournalRemote (foldl (\<lambda>fp fd. AddInToDisk (k fd) (t fd) fp) fp fds) = JournalRemote fp"
  "fileDataFeed (foldl (\<lambda>fp fd. AddInToDisk (k fd) (t fd) fp) fp fds) = fileDataFeed fp"
  by (induction fds arbitrary: fp) simp_all

lemma recordDisk_frame [simp]:
  "all (recordDisk env hp fds fp) = all fp" "fp_collector (recordDisk env hp fds fp) = fp_collector fp"
  "GlobalSlots (recordDisk env hp fds fp) = GlobalSlots fp" "beats (recordDisk env hp fds fp) = beats fp"
  "nodeType (recordDisk env hp fds fp) = nodeType fp" "fp_journal (recordDisk env hp fds fp) = fp_journal fp"
  "JournalRemote (recordDisk env hp fds fp) = JournalRemote fp" "fileDataFeed (recordDisk env hp fds fp) = fileDataFeed fp"
  "Has (recordDisk env hp fds fp) h = Has fp h" "fp_get (recordDisk env hp fds fp) h = fp_get fp h"
  by (simp_all add: recordDisk_def Has_def fp_get_def)

lemma addScan_spec:
  assumes "length pre = i"
  shows "addScan env hp local i fds (pre @ replicate (length fds) None @ bad) news fp =
    (pre @ knownErrs (da_of env) hp fp fds @ bad @ invalidErrs env hp local fds,
     news @ filter (\<lambda>fd. \<not> Has fp (fdKey (da_of env) (hp ! fd))) fds, recordDisk (da_of env) hp fds fp)"
  using assms
proof (induction fds arbitrary: pre i bad news fp)
  case Nil
  then show ?case by (simp add: knownErrs_def invalidErrs_def recordDisk_def)
next
  case (Cons fd fds)
  let ?key = "fdKey (da_of env) (hp ! fd)"
  obtain flag err where v: "validateFileDataSignature env (hp ! fd) local = (flag, err)" by fastforce
  define bad' where "bad' = (if err \<noteq> None then bad @ [err] else bad)"
  define fp' where "fp' = (if nodeType fp = ''b'' then AddInToDisk ?key (ReceiveAt (hp ! fd)) fp else fp)"
  have flag: "flag = (err = None)" using validate_flag [of env "hp ! fd" local] v by simp
  have fp': "all fp' = all fp" "\<And>h. Has fp' h = Has fp h" "recordDisk (da_of env) hp fds fp' = recordDisk (da_of env) hp (fd # fds) fp"
    by (simp_all add: fp'_def Has_def fp_get_def recordDisk_def)
  have known: "lookup_Get (all fp') h \<noteq> None \<longleftrightarrow> Has fp h" for h
    using fp' by (simp add: Has_def fp_get_def)
  have inv: "bad' @ invalidErrs env hp local fds = bad @ invalidErrs env hp local (fd # fds)"
    using v by (simp add: bad'_def invalidErrs_def)
  define e where "e = (if Has fp ?key then Some ErrAlreadyKnown else None)"
  have ks: "knownErrs (da_of env) hp fp' fds = knownErrs (da_of env) hp fp fds"
    "knownErrs (da_of env) hp fp (fd # fds) = e # knownErrs (da_of env) hp fp fds"
    using fp' by (simp_all add: knownErrs_def e_def)
  have "addScan env hp local i (fd # fds) (pre @ replicate (length (fd # fds)) None @ bad) news fp =
      addScan env hp local (Suc i) fds ((pre @ [e]) @ replicate (length fds) None @ bad')
        (if Has fp ?key then news else news @ [fd]) fp'"
    using Cons.prems known unfolding addScan.simps v Let_def prod.case flag fp'_def [symmetric] e_def
    by (auto simp: bad'_def list_update_append)
  also have "\<dots> = (pre @ knownErrs (da_of env) hp fp (fd # fds) @ bad @ invalidErrs env hp local (fd # fds),
      news @ filter (\<lambda>fd. \<not> Has fp (fdKey (da_of env) (hp ! fd))) (fd # fds), recordDisk (da_of env) hp (fd # fds) fp)"
    using Cons.prems Cons.IH [of "pre @ [e]" "Suc i" bad' _ fp'] inv ks fp'
    by simp
  finally show ?case .
qed

lemma nextNil_append_None: "nextNil (pre @ None # rest) (length pre) = Some (length pre)"
  by (simp add: nextNil.simps)

lemma nextNil_Some: "n < length errs \<Longrightarrow> errs ! n = Some e \<Longrightarrow> nextNil errs n = nextNil errs (Suc n)"
  by (simp add: nextNil.simps [of errs n])

lemma mergeErrs_skip:
  assumes "length newErrs = length news" and "newErrs \<noteq> []"
  shows "mergeErrs newErrs news (length pre) (pre @ Some e # rest) final =
    mergeErrs newErrs news (Suc (length pre)) (pre @ Some e # rest) final"
proof -
  obtain a as b bs where "newErrs = a # as" "news = b # bs"
    using assms by (metis length_0_conv neq_Nil_conv)
  then show ?thesis using nextNil_Some [of "length pre" "pre @ Some e # rest" e] by simp
qed

lemma fillNone_Nil: "fillNone ks [] = ks"
proof (induction ks)
  case (Cons k ks)
  then show ?case by (cases k) simp_all
qed simp

lemma mergeErrs_spec:
  assumes "length newErrs = length (filter (\<lambda>k. k = None) ks)" and "length news = length newErrs"
  shows "mergeErrs newErrs news (length pre) (pre @ ks @ bad) final =
    Ok (pre @ fillNone ks newErrs @ bad, final @ accepted news newErrs)"
  using assms
proof (induction ks arbitrary: newErrs news pre final)
  case (Cons k ks)
  show ?case
  proof (cases k)
    case None
    then obtain e es b bs where n: "newErrs = e # es" "news = b # bs"
      using Cons.prems by (cases newErrs; cases news) auto
    have "(pre @ None # ks @ bad)[length pre := e] = (pre @ [e]) @ ks @ bad" by simp
    then show ?thesis using n None Cons.prems Cons.IH [of es bs "pre @ [e]"]
      by (simp add: nextNil_append_None accepted_def)
  next
    case (Some e)
    show ?thesis
    proof (cases "newErrs = []")
      case True
      with Some show ?thesis by (simp add: fillNone_Nil accepted_def)
    next
      case False
      with Some Cons.prems Cons.IH [of newErrs news "pre @ [Some e]"] show ?thesis
        using mergeErrs_skip [of newErrs news pre e "ks @ bad" final] by simp
    qed
  qed
qed (simp add: accepted_def)

lemma knownErrs_None:
  "length (filter (\<lambda>k. k = None) (knownErrs env hp fp fds)) = length (filter (\<lambda>fd. \<not> Has fp (fdKey env (hp ! fd))) fds)"
  by (induction fds) (simp_all add: knownErrs_def)

lemma accepted_news:
  assumes "length es = length (filter (\<lambda>fd. \<not> Has fp (fdKey env (hp ! fd))) fds)"
  shows "accepted (filter (\<lambda>fd. \<not> Has fp (fdKey env (hp ! fd))) fds) es = accepted fds (fillNone (knownErrs env hp fp fds) es)"
  using assms
proof (induction fds arbitrary: es)
  case (Cons fd fds)
  then show ?case by (cases es) (auto simp: knownErrs_def accepted_def split: if_splits)
qed simp

text \<open>\<open>Add\<close> without its two loops: the records are offered one by one.\<close>

lemma fp_Add_eq:
  assumes add: "addFdsLocked env hp now fds (recordDisk (da_of env) hp fds fp) = (fp', errs)"
  shows "fp_Add env hp now local fds fp =
    Ok (SendNewFileDataEvent (accepted fds errs) fp', errs @ invalidErrs env hp local fds)"
proof -
  let ?fp = "recordDisk (da_of env) hp fds fp" and ?ks = "knownErrs (da_of env) hp fp fds"
  define news where "news = filter (\<lambda>fd. \<not> Has fp (fdKey (da_of env) (hp ! fd))) fds"
  obtain fp1 newErrs where new: "addFdsLocked env hp now news ?fp = (fp1, newErrs)" by fastforce
  have len: "length newErrs = length news" using length_addFdsLocked [of env hp now news ?fp] new by simp
  have eq: "fp1 = fp'" "fillNone ?ks newErrs = errs"
    using addFdsLocked_news [of fp ?fp env hp now fds] new add by (simp_all add: news_def)
  have scan: "addScan env hp local 0 fds (replicate (length fds) None) [] fp = (?ks @ invalidErrs env hp local fds, news, ?fp)"
    using addScan_spec [of "[]" 0 env hp local fds "[]" "[]" fp] news_def by simp
  have acc: "accepted news newErrs = accepted fds errs"
    using accepted_news [of newErrs fp "da_of env" hp fds] len eq(2) by (simp add: news_def)
  have merge: "mergeErrs newErrs news 0 (?ks @ invalidErrs env hp local fds) [] =
      Ok (errs @ invalidErrs env hp local fds, accepted fds errs)"
    using mergeErrs_spec [of newErrs ?ks news "[]"] len acc eq(2) by (simp add: knownErrs_None news_def)
  show ?thesis
  proof (cases "news = []")
    case True
    with new len eq have "fp' = ?fp" "errs = ?ks" by (simp_all add: fillNone_Nil)
    then show ?thesis using True acc by (simp add: fp_Add_def scan SendNewFileDataEvent_def)
  qed (use new eq merge in \<open>simp add: fp_Add_def scan SendNewFileDataEvent_def\<close>)
qed

lemma fp_Add_Ok:
  assumes "fp_Add env hp now local fds fp = Ok (fp', errs)"
  obtains fp1 es where "addFdsLocked env hp now fds (recordDisk (da_of env) hp fds fp) = (fp1, es)"
    and "fp' = SendNewFileDataEvent (accepted fds es) fp1" and "errs = es @ invalidErrs env hp local fds"
  using fp_Add_eq [OF surjective_pairing, where env = env and hp = hp and now = now and fds = fds and fp = fp and local = local] assms
  by (metis outcome.inject(1) prod.inject prod.collapse)

lemma length_invalidErrs:
  "length (invalidErrs env hp local fds) = length (filter (\<lambda>fd. \<not> fst (validateFileDataSignature env (hp ! fd) local)) fds)"
  by (simp add: invalidErrs_def filter_map o_def validate_flag)

lemma Send_frame [simp]:
  "Has (SendNewFileDataEvent fds fp) h = Has fp h" "fp_get (SendNewFileDataEvent fds fp) h = fp_get fp h"
  "all (SendNewFileDataEvent fds fp) = all fp" "diskCache (SendNewFileDataEvent fds fp) = diskCache fp"
  "GlobalSlots (SendNewFileDataEvent fds fp) = GlobalSlots fp" "fp_journal (SendNewFileDataEvent fds fp) = fp_journal fp"
  by (simp_all add: Has_def fp_get_def SendNewFileDataEvent_def)

lemma found_recordDisk [simp]:
  "found env hp (recordDisk denv hp fds fp) acc h = found env hp fp acc h"
  "verdict env hp (recordDisk denv hp fds fp) acc fd = verdict env hp fp acc fd"
  by (simp_all add: found_def verdict_def Let_def split: option.split)

text \<open>
  C3: \<open>Add\<close> never panics: the search for nil slots always finds one.  It returns one slot
  per record, in order, followed by the errors of the records that fail validation.  A slot
  holds "already known" exactly when the record's lookup key was in the pool or is a key of
  a record of the same call that was accepted before it; otherwise "pool is full" exactly
  when the counter, advanced by the records accepted before, has no room; otherwise no
  error.  Afterwards every hash finds the last accepted record that has it as a key, and
  where there is none what it found before; the counter has advanced by the number of
  accepted records; and these, if there are any, went out in one event.  A record without
  any key (no transaction hash, zero commitment) is accepted, counted and announced but
  found under no hash.
\<close>

theorem Add_outcome:
  "\<exists>fp' errs. fp_Add env hp now local fds fp = Ok (fp', errs @ invalidErrs env hp local fds) \<and>
     length errs = length fds \<and>
     (\<forall>i<length fds. errs ! i = verdict (da_of env) hp fp (accepted (take i fds) (take i errs)) (fds ! i)) \<and>
     (\<forall>h. fp_get fp' h = found (da_of env) hp fp (accepted fds errs) h) \<and>
     slots (all fp') = slots (all fp) + word_of_nat (length (accepted fds errs)) \<and>
     fileDataFeed fp' = fileDataFeed fp @ (if accepted fds errs = [] then [] else [accepted fds errs])"
proof -
  let ?fp = "recordDisk (da_of env) hp fds fp"
  define r where "r = addFdsLocked env hp now fds ?fp"
  have "fp_Add env hp now local fds fp = Ok (SendNewFileDataEvent (accepted fds (snd r)) (fst r), snd r @ invalidErrs env hp local fds)"
    by (rule fp_Add_eq) (simp add: r_def)
  moreover have "fileDataFeed (SendNewFileDataEvent (accepted fds (snd r)) (fst r)) =
      fileDataFeed fp @ (if accepted fds (snd r) = [] then [] else [accepted fds (snd r)])"
    by (simp add: r_def SendNewFileDataEvent_def)
  ultimately show ?thesis
    using addFdsLocked_verdicts [of _ fds env hp now ?fp] addFdsLocked_state [of env hp now fds ?fp]
    by (intro exI [of _ "SendNewFileDataEvent (accepted fds (snd r)) (fst r)"] exI [of _ "snd r"]) (simp add: r_def)
qed

theorem Add_outcome_witness:
  "\<exists>fp' errs. fp_Add smallPoolEnv [smallDA, smallDA\<lparr> SignData := [] \<rparr>] 0 False [0, 0, 1] smallPool =
       Ok (fp', errs @ [Some ErrSignatureEmpty]) \<and>
     errs ! 0 = None \<and> errs ! 1 = Some ErrAlreadyKnown \<and> fp_get fp' 77 = Some 0"
proof -
  define hp where "hp = [smallDA, smallDA\<lparr> SignData := [] \<rparr>]"
  have hp: "hp ! 0 = smallDA" "hp ! 1 = smallDA\<lparr> SignData := [] \<rparr>" by (simp_all add: hp_def)
  have bad: "invalidErrs smallPoolEnv hp False [0, 0, 1] = [Some ErrSignatureEmpty]"
    by (simp add: invalidErrs_def hp_def validateFileDataSignature_def smallPoolEnv_def smallDA_def)
  have key: "fdKey smallEnv smallDA = 77" "fdKeys smallEnv smallDA \<subseteq> {77, commitHash smallEnv smallDA}"
    "77 \<in> fdKeys smallEnv smallDA" "fdKeys smallEnv (smallDA\<lparr> SignData := [] \<rparr>) = fdKeys smallEnv smallDA"
    by (auto simp: fdKey_def fdKeys_def smallDA_def commitHash_def)
  from Add_outcome [of smallPoolEnv hp 0 False "[0, 0, 1]" smallPool] obtain fp' errs where
    r: "fp_Add smallPoolEnv hp 0 False [0, 0, 1] smallPool = Ok (fp', errs @ [Some ErrSignatureEmpty])"
    and l: "length errs = 3"
    and v: "\<And>i. i < 3 \<Longrightarrow> errs ! i = verdict smallEnv hp smallPool (accepted (take i [0, 0, 1]) (take i errs)) ([0, 0, 1] ! i)"
    and f: "\<And>h. fp_get fp' h = found smallEnv hp smallPool (accepted [0, 0, 1] errs) h"
    unfolding bad by (auto simp: smallPoolEnv_def)
  have has: "\<not> Has smallPool h" for h by (simp add: Has_def fp_get_def smallPool_def freshPool_def lookup_Get_def newLookup_def mget_def)
  have e0: "errs ! 0 = None"
    using v [of 0] has by (simp add: verdict_def Let_def smallPool_def freshPool_def newLookup_def)
  obtain a b c where es: "errs = [a, b, c]" using l by (auto simp: numeral_3_eq_3 length_Suc_conv)
  have e1: "b = Some ErrAlreadyKnown" using v [of 1] e0 key hp unfolding es by (simp add: accepted_def verdict_def)
  moreover have "c = Some ErrAlreadyKnown" using v [of 2] e0 e1 key hp unfolding es
    by (simp add: accepted_def verdict_def fdKey_def smallDA_def)
  ultimately have "fp_get fp' 77 = Some 0" using f [of 77] e0 key hp unfolding es by (simp add: accepted_def found_def)
  with r e0 e1 show ?thesis unfolding hp_def [symmetric] es by auto
qed

subsection \<open>Validation does not decide\<close>

lemma journalFd_env: "codec env = codec env' \<Longrightarrow> journalFd env = journalFd env'"
  by (intro ext) (simp add: journalFd_def split: option.split)

lemma fp_add_env:
  "da_of env = da_of env' \<Longrightarrow> codec env = codec env' \<Longrightarrow> fp_add env hp now fd fp = fp_add env' hp now fd fp"
  using journalFd_env [of env env'] by (simp add: fp_add_def Let_def)

lemma addFdsLocked_env:
  "da_of env = da_of env' \<Longrightarrow> codec env = codec env' \<Longrightarrow> addFdsLocked env hp now fds fp = addFdsLocked env' hp now fds fp"
  by (induction fds arbitrary: fp) (simp_all add: addFdsLocked.simps fp_add_env [of env env'])

text \<open>
  C10: the pool that \<open>Add\<close> leaves behind, and the record events it sends, do not depend on
  validation: two environments that differ in the verification SDK, and the local flag,
  give the same pool.  An invalid remote record is therefore pooled, journaled and
  propagated like a valid one.
\<close>

theorem Add_ignores_validation:
  assumes "da_of env = da_of env'" and "codec env = codec env'"
    and "fp_Add env hp now local fds fp = Ok (fp1, errs1)" and "fp_Add env' hp now local' fds fp = Ok (fp2, errs2)"
  shows "fp1 = fp2"
  using fp_Add_Ok [OF assms(3)] fp_Add_Ok [OF assms(4)] addFdsLocked_env [OF assms(1,2)] assms(1)
  by (metis prod.inject)

lemma small_accepts:
  assumes a: "addFdsLocked (smallPoolEnv\<lparr> VerifyCommitWithProof := v \<rparr>) [smallDA] 0 [0] fp = (fp1, es)"
    and fp: "all fp = newLookup" "GlobalSlots fp = 1"
  shows "es = [None] \<and> fp_get fp1 77 = Some 0"
proof -
  let ?env = "smallPoolEnv\<lparr> VerifyCommitWithProof := v \<rparr>"
  have r: "snd (fp_add ?env [smallDA] 0 0 fp) = None"
    using fp by (simp add: fp_add_result Has_def fp_get_def lookup_Get_def newLookup_def mget_def)
  have "fp1 = fst (fp_add ?env [smallDA] 0 0 fp)" "es = [None]"
    using a r addFdsLocked_Cons [of ?env "[smallDA]" 0 0 "[]" fp] by simp_all
  moreover have "77 \<in> fdKeys smallEnv smallDA" by (simp add: fdKeys_def smallDA_def)
  ultimately show ?thesis using r by (simp add: fp_get_add smallPoolEnv_def)
qed

theorem Add_ignores_validation_witness:
  "\<exists>fp1 errs1 errs2.
     fp_Add (smallPoolEnv\<lparr> VerifyCommitWithProof := \<lambda>c p v. (False, Some ''bad proof'') \<rparr>) [smallDA] 0 False [0] smallPool = Ok (fp1, errs1) \<and>
     fp_Add smallPoolEnv [smallDA] 0 True [0] smallPool = Ok (fp1, errs2) \<and> errs1 = [None, Some (SdkErr ''bad proof'')] \<and>
     fp_get fp1 77 = Some 0"
proof -
  let ?bad = "smallPoolEnv\<lparr> VerifyCommitWithProof := \<lambda>c p v. (False, Some ''bad proof'') \<rparr>"
  obtain fp1 errs1 where 1: "fp_Add ?bad [smallDA] 0 False [0] smallPool = Ok (fp1, errs1)"
    using fp_Add_eq [OF surjective_pairing] by blast
  obtain fp2 errs2 where 2: "fp_Add smallPoolEnv [smallDA] 0 True [0] smallPool = Ok (fp2, errs2)"
    using fp_Add_eq [OF surjective_pairing] by blast
  have eq: "fp1 = fp2" by (rule Add_ignores_validation [OF _ _ 1 2]) simp_all
  have env: "da_of ?bad = smallEnv" by (simp add: smallPoolEnv_def)
  obtain q es where q: "addFdsLocked ?bad [smallDA] 0 [0] (recordDisk smallEnv [smallDA] [0] smallPool) = (q, es)"
    and "fp1 = SendNewFileDataEvent (accepted [0] es) q" "errs1 = es @ invalidErrs ?bad [smallDA] False [0]"
    using fp_Add_Ok [OF 1] unfolding env by metis
  moreover have "invalidErrs ?bad [smallDA] False [0] = [Some (SdkErr ''bad proof'')]"
    by (simp add: invalidErrs_def validateFileDataSignature_def smallPoolEnv_def smallDA_def)
  ultimately show ?thesis using small_accepts [OF q] 1 2 eq by (auto simp: smallPool_def freshPool_def)
qed

subsection \<open>The invariant of a running pool\<close>

lemma pool_inv_fp_add: "pool_inv hp fp \<Longrightarrow> fd < length hp \<Longrightarrow> pool_inv hp (fst (fp_add env hp now fd fp))"
proof (cases "snd (fp_add env hp now fd fp) = None")
  case True
  assume inv: "pool_inv hp fp" and fd: "fd < length hp"
  define fp' where "fp' = fst (fp_add env hp now fd fp)"
  have all: "all fp' = lookup_Add (da_of env) hp fd (all fp)"
    using True by (simp add: fp'_def fp_add_all)
  have slot: "slots (all fp) + 1 \<le> GlobalSlots fp"
    using True by (simp add: fp_add_result not_le split: if_splits)
  have refs: "f < length hp" if get: "mget (collector (all fp')) h = Some f" for h f
    using get inv fd lookup_Get_Add [of "da_of env" hp fd "all fp" h]
    by (auto simp: all lookup_Get_def pool_inv_def split: if_splits)
  have "mwf (beats fp')" "fp_collector fp' = []" "mwf (diskCache fp')" "GlobalSlots fp' = GlobalSlots fp"
    using inv True by (auto simp: fp'_def fp_add_def Let_def pool_inv_def split: if_splits)
  moreover have "mwf (collector (all fp'))" "slots (all fp') \<le> GlobalSlots fp"
    using inv slot by (simp_all add: all pool_inv_def)
  ultimately show ?thesis using refs unfolding fp'_def [symmetric] pool_inv_def by simp
qed (simp add: fp_add_refused)

lemma keyed_fp_add: "keyed (da_of env) hp fp \<Longrightarrow> keyed (da_of env) hp (fst (fp_add env hp now fd fp))"
  using fdKey_fdKeys [of _ "da_of env" "hp ! fd"] fp_get_add [of env hp now fd fp]
  unfolding keyed_def fp_get_def lookup_Get_def by (metis option.inject)

lemma pool_inv_addFdsLocked:
  "pool_inv hp fp \<Longrightarrow> \<forall>fd\<in>set fds. fd < length hp \<Longrightarrow> pool_inv hp (fst (addFdsLocked env hp now fds fp))"
  by (induction fds arbitrary: fp) (simp_all add: addFdsLocked_Cons pool_inv_fp_add)

lemma keyed_addFdsLocked: "keyed (da_of env) hp fp \<Longrightarrow> keyed (da_of env) hp (fst (addFdsLocked env hp now fds fp))"
  by (induction fds arbitrary: fp) (simp_all add: addFdsLocked_Cons keyed_fp_add)

lemma pool_inv_AddInToDisk: "pool_inv hp fp \<Longrightarrow> pool_inv hp (AddInToDisk h t fp)"
  by (simp add: pool_inv_def)

lemma pool_inv_foldl:
  "pool_inv hp fp \<Longrightarrow> (\<And>fp x. pool_inv hp fp \<Longrightarrow> pool_inv hp (f fp x)) \<Longrightarrow> pool_inv hp (foldl f fp xs)"
  by (induction xs arbitrary: fp) simp_all

lemma pool_inv_recordDisk: "pool_inv hp fp \<Longrightarrow> pool_inv hp (recordDisk denv hp' fds fp)"
  by (simp add: recordDisk_def pool_inv_foldl pool_inv_AddInToDisk)

lemma pool_inv_Send: "pool_inv hp (SendNewFileDataEvent fds fp) = pool_inv hp fp"
  by (simp add: SendNewFileDataEvent_def pool_inv_def)

lemma keyed_all: "all fp' = all fp \<Longrightarrow> keyed env hp fp' = keyed env hp fp"
  by (simp add: keyed_def)

lemma Add_keeps:
  assumes "fp_Add env hp now local fds fp = Ok (fp', errs)"
  shows "pool_inv hp fp \<Longrightarrow> \<forall>fd\<in>set fds. fd < length hp \<Longrightarrow> pool_inv hp fp'"
    and "keyed (da_of env) hp fp \<Longrightarrow> keyed (da_of env) hp fp'"
  using fp_Add_Ok [OF assms] pool_inv_addFdsLocked [of hp "recordDisk (da_of env) hp fds fp" fds env now]
    keyed_addFdsLocked [of env hp "recordDisk (da_of env) hp fds fp" now fds]
  by (metis fst_conv pool_inv_recordDisk pool_inv_Send keyed_all recordDisk_frame(1) Send_frame(3))+

lemma Remove_keeps:
  "pool_inv hp fp \<Longrightarrow> pool_inv hp (RemoveFileData denv hp' das fp)"
  "keyed env hp fp \<Longrightarrow> keyed env hp (RemoveFileData denv hp' das fp)"
proof -
  show "pool_inv hp fp \<Longrightarrow> pool_inv hp (RemoveFileData denv hp' das fp)"
    unfolding RemoveFileData_def by (rule pool_inv_foldl) (auto simp: pool_inv_def split: if_splits)
  show "keyed env hp fp \<Longrightarrow> keyed env hp (RemoveFileData denv hp' das fp)"
  proof (induction das arbitrary: fp)
    case (Cons da das)
    let ?fp = "fp\<lparr> all := (all fp)\<lparr> collector := mdel (commitHash denv (hp' ! da)) (mdel (TxHash (hp' ! da)) (collector (all fp))) \<rparr> \<rparr>"
    have "keyed env hp ?fp" using Cons.prems by (simp add: keyed_def)
    from Cons.IH [OF this] show ?case by (simp add: RemoveFileData_def)
  qed (simp add: RemoveFileData_def)
qed

lemma fp_Get_unfold:
  "fp_Get env g s h fp hp =
     (case fp_get fp h of
        Some fd \<Rightarrow> Ok (fp, hp, Some fd)
      | None \<Rightarrow>
     (case GetCommitmentByTxHash env g s h of
        Panic \<Rightarrow> Panic
      | Ok da \<Rightarrow> Ok (fp, allocOne da hp)
      | Err _ \<Rightarrow>
     (case GetDAByCommitmentHash env g s h of
        Panic \<Rightarrow> Panic
      | Ok da \<Rightarrow> Ok (fp, allocOne da hp)
      | Err _ \<Rightarrow> Ok (fp\<lparr> fileDataHashFeed := fileDataHashFeed fp @ [[h]] \<rparr>, hp, None))))"
  unfolding fp_Get_def by (simp add: fp_Get_from.simps split: option.splits outcome.splits)

text \<open>A query changes nothing in the pool but the log of hashes asked for.\<close>

lemma Get_frame:
  assumes "fp_Get env g s h fp hp = Ok (fp', hp', res)"
  shows "(\<exists>log. fp' = fp\<lparr> fileDataHashFeed := log \<rparr>) \<and> (\<exists>new. hp' = hp @ new)"
proof -
  have "\<exists>log. q = q\<lparr> fileDataHashFeed := log \<rparr>" for q :: FilePool by (rule exI [of _ "fileDataHashFeed q"]) simp
  with assms show ?thesis unfolding fp_Get_unfold allocOne_def
    by (auto split: option.splits outcome.splits)
qed

lemma pool_inv_more: "pool_inv hp fp \<Longrightarrow> length hp \<le> length hp' \<Longrightarrow> pool_inv hp' fp"
  unfolding pool_inv_def by (meson order_less_le_trans)

lemma keyed_more: "keyed env hp fp \<Longrightarrow> pool_inv hp fp \<Longrightarrow> keepsKeys hp hp' \<Longrightarrow> keyed env hp' fp"
  unfolding keyed_def pool_inv_def keepsKeys_def commitHash_def by metis

lemma keepsKeys_append [simp]: "keepsKeys hp (hp @ new)"
  by (simp add: keepsKeys_def nth_append)

lemma removeTick_all: "all (fst (removeTick g w r now order st)) = all (fst st)
    \<and> GlobalSlots (fst (removeTick g w r now order st)) = GlobalSlots (fst st)"
proof (induction order arbitrary: st)
  case (Cons h order)
  have "all (fst (removeOne g w r now st h)) = all (fst st)"
    "GlobalSlots (fst (removeOne g w r now st h)) = GlobalSlots (fst st)"
    by (cases st, simp add: removeOne_def Let_def split: option.split)+
  with Cons.IH show ?case by (simp add: removeTick_def)
qed (simp add: removeTick_def)

lemma pool_inv_removeTick:
  "pool_inv hp (fst st) \<Longrightarrow> pool_inv hp (fst (removeTick g w r now order st))"
proof (induction order arbitrary: st)
  case (Cons h order)
  have "pool_inv hp (fst (removeOne g w r now st h))"
    using Cons.prems by (cases st) (simp add: removeOne_def Let_def pool_inv_def split: option.split)
  with Cons.IH show ?case by (simp add: removeTick_def)
qed (simp add: removeTick_def)

lemma evictTick_empty: "fp_collector fp = [] \<Longrightarrow> evictTick now order inner fp = fp"
  by (induction order) (simp_all add: evictTick_def mhas_def mget_def)

lemma toJournal_empty: "fp_collector fp = [] \<Longrightarrow> toJournal fp = []"
  by (simp add: toJournal_def)

lemma rotateJournal_frame [simp]:
  "all (rotateJournal env hp io ord fp) = all fp" "diskCache (rotateJournal env hp io ord fp) = diskCache fp"
  "GlobalSlots (rotateJournal env hp io ord fp) = GlobalSlots fp" "beats (rotateJournal env hp io ord fp) = beats fp"
  "fp_collector (rotateJournal env hp io ord fp) = fp_collector fp" "nodeType (rotateJournal env hp io ord fp) = nodeType fp"
  by (simp_all add: rotateJournal_def split: option.split)

lemma fp_Close_frame [simp]:
  "all (fp_Close e fp) = all fp" "diskCache (fp_Close e fp) = diskCache fp" "GlobalSlots (fp_Close e fp) = GlobalSlots fp"
  "beats (fp_Close e fp) = beats fp" "fp_collector (fp_Close e fp) = fp_collector fp"
  by (simp_all add: fp_Close_def split: option.split)

lemma pool_inv_step: "pool_step env g W st st' \<Longrightarrow> pool_inv (fst st) (fst (snd st)) \<Longrightarrow> pool_inv (fst st') (fst (snd st'))"
proof (induction rule: pool_step.induct)
  case (Add fds hp now local fp fp' errs s)
  then show ?case using Add_keeps(1) by fastforce
next
  case (Get s h fp hp fp' hp' res)
  then show ?case using Get_frame [OF Get(1)] pool_inv_more [of hp fp hp'] by (auto simp: pool_inv_def)
next
  case (Tick_remove w r now order fp s fp' s' hp)
  then show ?case using pool_inv_removeTick [of hp "(fp, s)" g w r now order] by simp
next
  case (Tick_evict hp fp s now order inner)
  then show ?case using evictTick_empty [of fp now order inner] by (simp add: pool_inv_def)
next
  case (Owner hp hp' fp s)
  then show ?case using pool_inv_more by auto
qed (simp_all add: Remove_keeps pool_inv_AddInToDisk pool_inv_def [of _ "rotateJournal _ _ _ _ _"] pool_inv_def [of _ "fp_Close _ _"],
     simp_all add: pool_inv_def)

lemma keyed_step:
  "pool_step env g W st st' \<Longrightarrow> (\<And>hp hp'. W hp hp' \<Longrightarrow> keepsKeys hp hp') \<Longrightarrow> pool_inv (fst st) (fst (snd st)) \<Longrightarrow>
    keyed (da_of env) (fst st) (fst (snd st)) \<Longrightarrow> keyed (da_of env) (fst st') (fst (snd st'))"
proof (induction rule: pool_step.induct)
  case (Add fds hp now local fp fp' errs s)
  then show ?case using Add_keeps(2) by fastforce
next
  case (Get s h fp hp fp' hp' res)
  then obtain log new where "fp' = fp\<lparr> fileDataHashFeed := log \<rparr>" "hp' = hp @ new" using Get_frame [OF Get(1)] by blast
  with Get show ?case using keyed_more [of "da_of env" hp fp hp'] keyed_all [of fp' fp "da_of env" hp'] by simp
next
  case (Tick_remove w r now order fp s fp' s' hp)
  then show ?case using removeTick_all [of g w r now order "(fp, s)"] keyed_all [of fp' fp "da_of env" hp] by simp
next
  case (Tick_evict hp fp s now order inner)
  then show ?case using evictTick_empty [of fp now order inner] by (simp add: pool_inv_def)
next
  case (Owner hp hp' fp s)
  then show ?case using keyed_more [of "da_of env" hp fp hp'] by simp
qed (simp_all add: Remove_keeps, simp_all add: keyed_def)

lemma pool_run_keeps:
  "pool_run env g W st st' \<Longrightarrow> pool_inv (fst st) (fst (snd st)) \<Longrightarrow> pool_inv (fst st') (fst (snd st')) \<and>
    ((\<forall>hp hp'. W hp hp' \<longrightarrow> keepsKeys hp hp') \<longrightarrow> keyed (da_of env) (fst st) (fst (snd st)) \<longrightarrow> keyed (da_of env) (fst st') (fst (snd st')))"
proof (induction rule: pool_run.induct)
  case (Then st st' st'')
  then show ?case using pool_inv_step [of env g W st' st''] keyed_step [of env g W st' st''] by blast
qed simp

lemma pool_inv_fresh:
  "pool_inv hp (freshPool globalSlots journalRemote path disk nodeTy)"
  "keyed denv hp (freshPool globalSlots journalRemote path disk nodeTy)"
  "zeroTimes (freshPool globalSlots journalRemote path disk nodeTy)"
  by (simp_all add: pool_inv_def keyed_def zeroTimes_def freshPool_def newLookup_def mget_def)

subsection \<open>Starting the pool\<close>

lemma rotateJournal_empty:
  assumes "pool_inv hp fp" and "fp_journal fp \<noteq> None" and "ord [] = []"
    and "io = \<lparr> closeErr = None, createErr = None, renameErr = None, reopenErr = None \<rparr>"
  shows "fp_journal (rotateJournal env hp io ord fp) = Some \<lparr> writer = Some Sink, jfile = Some [] \<rparr>"
  using assms toJournal_empty [of fp] by (auto simp: rotateJournal_def journal_rotate_def pool_inv_def Let_def)

lemma foldl_AddInToDisk2_frame:
  "fp_journal (foldl (\<lambda>fp da. AddInToDisk (k da) (t da) (AddInToDisk (k' da) (t da) fp)) fp das) = fp_journal fp"
  "all (foldl (\<lambda>fp da. AddInToDisk (k da) (t da) (AddInToDisk (k' da) (t da) fp)) fp das) = all fp"
  "GlobalSlots (foldl (\<lambda>fp da. AddInToDisk (k da) (t da) (AddInToDisk (k' da) (t da) fp)) fp das) = GlobalSlots fp"
  by (induction das arbitrary: fp) simp_all

lemma loadDiskCache_frame [simp]:
  "fp_journal (loadDiskCache env g s fp) = fp_journal fp" "all (loadDiskCache env g s fp) = all fp"
  "GlobalSlots (loadDiskCache env g s fp) = GlobalSlots fp"
  by (simp_all add: loadDiskCache_def foldl_AddInToDisk2_frame split: sum.split)

lemma pool_inv_loadDiskCache: "pool_inv hp fp \<Longrightarrow> pool_inv hp (loadDiskCache denv g s fp)"
  by (simp add: loadDiskCache_def pool_inv_foldl pool_inv_AddInToDisk split: sum.split)

lemma addFdsLocked_journal [simp]: "(fp_journal (fst (addFdsLocked env hp now fds fp)) = None) = (fp_journal fp = None)"
proof (induction fds arbitrary: fp)
  case (Cons fd fds)
  have "(fp_journal (fst (fp_add env hp now fd fp)) = None) = (fp_journal fp = None)"
    by (simp add: fp_add_def Let_def) (simp add: journalFd_def split: option.split)
  with Cons show ?case by (simp add: addFdsLocked_Cons)
qed simp

lemma recordDisk_times:
  assumes "zeroTimes fp" and "\<forall>fd\<in>set fds. ReceiveAt (hp ! fd) = zeroTime"
  shows "zeroTimes (recordDisk env hp fds fp)"
proof -
  have "zeroTimes (foldl (\<lambda>fp fd. AddInToDisk (fdKey env (hp ! fd)) (ReceiveAt (hp ! fd)) fp) fp fds)"
    using assms
  proof (induction fds arbitrary: fp)
    case (Cons fd fds)
    from Cons.prems have "zeroTimes (AddInToDisk (fdKey env (hp ! fd)) (ReceiveAt (hp ! fd)) fp)" by (simp add: zeroTimes_def)
    with Cons show ?case by simp
  qed simp
  with assms(1) show ?thesis by (simp add: recordDisk_def)
qed

lemma zeroTimes_cong: "diskCache fp = diskCache fp' \<Longrightarrow> zeroTimes fp = zeroTimes fp'"
  by (simp add: zeroTimes_def)

lemma loads_setJournalWriter: "loads env hp0 res \<Longrightarrow> loads env hp0 (setJournalWriter w res)"
  by (auto simp: loads_def setJournalWriter_def pool_inv_def keyed_def zeroTimes_def)

lemma loads_initBatch:
  assumes "loads env hp0 res" and z: "\<forall>da\<in>set batch. ReceiveAt da = zeroTime"
  shows "loads env hp0 (initBatch env now res batch)"
proof -
  from assms(1) obtain hp fp where r: "res = Ok (hp, fp)" and inv: "pool_inv hp fp" "keyed (da_of env) hp fp"
    and j: "fp_journal fp \<noteq> None" and t: "zeroTimes fp" and new: "\<exists>new. hp = hp0 @ new" by (auto simp: loads_def)
  define hp' fds where "hp' = hp @ batch" and "fds = [length hp ..< length hp + length batch]"
  have refs: "\<forall>fd\<in>set fds. fd < length hp'" by (auto simp: fds_def hp'_def)
  have zero: "\<forall>fd\<in>set fds. ReceiveAt (hp' ! fd) = zeroTime" using z by (auto simp: fds_def hp'_def nth_append)
  have inv': "pool_inv hp' fp" "keyed (da_of env) hp' fp"
    using pool_inv_more [OF inv(1), of hp'] keyed_more [OF inv(2,1), of hp'] by (simp_all add: hp'_def)
  obtain fp' errs where add: "fp_Add env hp' now (\<not> JournalRemote fp) fds fp = Ok (fp', errs)"
    using fp_Add_eq [OF surjective_pairing] by blast
  obtain fp1 es where fp1: "addFdsLocked env hp' now fds (recordDisk (da_of env) hp' fds fp) = (fp1, es)"
    and fp': "fp' = SendNewFileDataEvent (accepted fds es) fp1" using fp_Add_Ok [OF add] by metis
  have "initBatch env now res batch = Ok (hp', fp')"
    using r add by (cases "JournalRemote fp") (simp_all add: initBatch_def alloc_def addRemotesSync_def addLocals_def hp'_def fds_def)
  moreover have "pool_inv hp' fp'" "keyed (da_of env) hp' fp'" using Add_keeps [OF add] inv' refs by simp_all
  moreover have "fp_journal fp1 \<noteq> None" "diskCache fp1 = diskCache (recordDisk (da_of env) hp' fds fp)"
    using j fp1 addFdsLocked_journal [of env hp' now fds "recordDisk (da_of env) hp' fds fp"]
      addFdsLocked_frame(1) [of env hp' now fds "recordDisk (da_of env) hp' fds fp"] by simp_all
  ultimately show ?thesis
    using recordDisk_times [OF t zero, of "da_of env"] new unfolding loads_def fp' hp'_def [symmetric]
    by (auto simp: zeroTimes_def hp'_def)
qed

lemma Init_returns:
  assumes fresh_def: "fresh = freshPool globalSlots journalRemote path disk nodeTy"
  shows "\<exists>fp new. Init env g s openErr io now ord hp fresh = Some (Ok (hp @ new, loadDiskCache (da_of env) g s fp)) \<and>
    pool_inv (hp @ new) fp \<and> keyed (da_of env) (hp @ new) fp \<and> zeroTimes fp \<and>
    (journalRemote \<and> path \<noteq> [] \<longrightarrow> (\<exists>fp1. fp = rotateJournal env (hp @ new) io ord fp1 \<and>
       pool_inv (hp @ new) fp1 \<and> fp_journal fp1 \<noteq> None))"
proof (cases "journalRemote \<and> path \<noteq> []")
  case True
  let ?load = "journal_load openErr (codec env) setJournalWriter (initBatch env now) (newFdJournal disk) (Ok (hp, fresh))"
  have j: "fp_journal fresh = Some (newFdJournal disk)" using True by (simp add: fresh_def freshPool_def)
  have start: "loads env hp (Ok (hp, fresh))"
    using j by (simp add: loads_def fresh_def pool_inv_fresh)
  obtain res failure where load: "?load = Some (res, failure)" using journal_load_returns by fast
  have "loads env hp res" by (rule journal_load_inv [OF load start loads_setJournalWriter loads_initBatch])
  then obtain new fp1 where r: "res = Ok (hp @ new, fp1)" and p: "pool_inv (hp @ new) fp1" "keyed (da_of env) (hp @ new) fp1"
    "fp_journal fp1 \<noteq> None" "zeroTimes fp1" by (auto simp: loads_def)
  have "Init env g s openErr io now ord hp fresh =
      Some (Ok (hp @ new, loadDiskCache (da_of env) g s (rotateJournal env (hp @ new) io ord fp1)))"
    using load by (simp add: Init_def j r)
  moreover have "pool_inv (hp @ new) (rotateJournal env (hp @ new) io ord fp1)" using p(1) by (simp add: pool_inv_def)
  ultimately show ?thesis using p
    by (intro exI [of _ "rotateJournal env (hp @ new) io ord fp1"] exI [of _ new]) (auto simp: keyed_def zeroTimes_def)
next
  case False
  then have "fp_journal fresh = None" by (auto simp: fresh_def freshPool_def)
  then have "Init env g s openErr io now ord hp fresh = Some (Ok (hp @ [], loadDiskCache (da_of env) g s fresh))"
    by (simp add: Init_def)
  with False show ?thesis
    by (intro exI [of _ fresh] exI [of _ "[]"]) (auto simp: fresh_def pool_inv_fresh)
qed



text \<open>
  C8: in every run from the start of the pool on, whatever the owners of the records write
  to them, the maps have one entry per key, the pool's own \<open>collector\<close> is empty, the slot
  count stays within \<open>GlobalSlots\<close> and the table points to records in memory.  When the
  owners leave transaction hash and commitment of the records alone, every record is also
  found under its non-zero transaction hash or its commitment hash only.
\<close>

theorem pool_invariant:
  assumes start: "Init env g s openErr io now ord hp0 (freshPool globalSlots journalRemote path disk nodeTy) = Some (Ok (hp1, fp1))"
    and run: "pool_run env g W (hp1, fp1, s1) (hp, fp, s')"
  shows "pool_inv hp fp \<and> ((\<forall>hp hp'. W hp hp' \<longrightarrow> keepsKeys hp hp') \<longrightarrow> keyed (da_of env) hp fp)"
proof -
  obtain fp2 where "fp1 = loadDiskCache (da_of env) g s fp2" "pool_inv hp1 fp2" "keyed (da_of env) hp1 fp2"
    using Init_returns [OF refl, of env g s openErr io now ord hp0 globalSlots journalRemote path disk nodeTy] start by auto
  then have "pool_inv hp1 fp1" "keyed (da_of env) hp1 fp1"
    using pool_inv_loadDiskCache keyed_all [of fp1 fp2 "da_of env" hp1] by simp_all
  with pool_run_keeps [OF run] show ?thesis by simp
qed

theorem pool_invariant_witness:
  "\<exists>fp. fp_get fp 77 = Some 0 \<and> pool_inv [smallDA\<lparr> Data := [] \<rparr>] fp \<and> keyed smallEnv [smallDA\<lparr> Data := [] \<rparr>] fp"
proof -
  let ?io = "\<lparr> closeErr = None, createErr = None, renameErr = None, reopenErr = None \<rparr>" and ?hp = "[smallDA\<lparr> Data := [] \<rparr>]"
  have env: "da_of smallPoolEnv = smallEnv" by (simp add: smallPoolEnv_def)
  obtain fp1 where start: "Init smallPoolEnv listGorm [] None ?io 0 (\<lambda>m. m) [smallDA] (freshPool 1 True ''fileData.rlp'' None ''b'') = Some (Ok ([smallDA], fp1))"
    and fp1: "all fp1 = newLookup" "GlobalSlots fp1 = 1"
    by (simp add: Init_def journal_load_def newFdJournal_def freshPool_def)
  obtain fp errs where add: "fp_Add smallPoolEnv [smallDA] 0 True [0] fp1 = Ok (fp, errs)"
    using fp_Add_eq [OF surjective_pairing] by blast
  then obtain fp2 es where "addFdsLocked smallPoolEnv [smallDA] 0 [0] (recordDisk smallEnv [smallDA] [0] fp1) = (fp2, es)"
    and fp: "fp = SendNewFileDataEvent (accepted [0] es) fp2"
    using fp_Add_Ok [OF add] unfolding env by metis
  then have get: "fp_get fp 77 = Some 0"
    using small_accepts [of "VerifyCommitWithProof smallPoolEnv" "recordDisk smallEnv [smallDA] [0] fp1" fp2 es] fp1 by simp
  have "pool_run smallPoolEnv listGorm keepsKeys ([smallDA], fp1, []) ([smallDA], fp, [])"
    by (rule pool_run.Then [OF pool_run.Start]) (rule pool_step.Add [OF _ add], simp)
  then have "pool_run smallPoolEnv listGorm keepsKeys ([smallDA], fp1, []) (?hp, fp, [])"
    by (rule pool_run.Then) (rule pool_step.Owner, simp_all add: keepsKeys_def)
  from pool_invariant [OF start this] get show ?thesis unfolding env by blast
qed

subsection \<open>The slot counter\<close>

lemma word_less_succ: "(x :: 'a::len word) \<noteq> - 1 \<Longrightarrow> x < x + 1"
  by (meson inc_less_eq_triv_imp linorder_not_le)

text \<open>
  A full pool: the counter has reached the limit.  Every step keeps it full, because only
  \<open>lookup.Remove\<close> decrements the counter, and that runs for members of the pool's own
  (always empty) collector only.
\<close>

lemma fp_add_full:
  assumes "slots (all fp) = GlobalSlots fp" and "GlobalSlots fp \<noteq> - 1"
  shows "fst (fp_add env hp now fd fp) = fp"
  using assms word_less_succ [of "GlobalSlots fp"] by (simp add: fp_add_def Let_def lookup_Slots_def)

lemma addFdsLocked_full:
  assumes "slots (all fp) = GlobalSlots fp" and "GlobalSlots fp \<noteq> - 1"
  shows "fst (addFdsLocked env hp now fds fp) = fp"
  using fp_add_full [OF assms, of env hp now] by (induction fds) (simp_all add: addFdsLocked_Cons)

lemma Add_full:
  assumes full: "slots (all fp) = GlobalSlots fp" and lim: "GlobalSlots fp \<noteq> - 1"
    and add: "fp_Add env hp now local fds fp = Ok (fp', errs)"
  shows "all fp' = all fp" and "GlobalSlots fp' = GlobalSlots fp"
proof -
  obtain fp1 es where "addFdsLocked env hp now fds (recordDisk (da_of env) hp fds fp) = (fp1, es)"
    and "fp' = SendNewFileDataEvent (accepted fds es) fp1" using fp_Add_Ok [OF add] by metis
  then show "all fp' = all fp" "GlobalSlots fp' = GlobalSlots fp"
    using addFdsLocked_full [of "recordDisk (da_of env) hp fds fp" env hp now fds] full lim by auto
qed

lemma RemoveFileData_slots:
  "slots (all (RemoveFileData env hp das fp)) = slots (all fp)" "GlobalSlots (RemoveFileData env hp das fp) = GlobalSlots fp"
  "fp_get (RemoveFileData env hp das fp) h =
     (if \<exists>da\<in>set das. h = TxHash (hp ! da) \<or> h = commitHash env (hp ! da) then None else fp_get fp h)"
  by (induction das arbitrary: fp) (auto simp: RemoveFileData_def fp_get_def lookup_Get_def)

lemma full_step:
  assumes "pool_step env g W st st'" and "pool_inv (fst st) (fst (snd st))"
    and "slots (all (fst (snd st))) = GlobalSlots (fst (snd st))" and "GlobalSlots (fst (snd st)) \<noteq> - 1"
  shows "slots (all (fst (snd st'))) = GlobalSlots (fst (snd st')) \<and> GlobalSlots (fst (snd st')) = GlobalSlots (fst (snd st)) \<and>
    (\<forall>h. Has (fst (snd st')) h \<longrightarrow> Has (fst (snd st)) h)"
  using assms
proof (induction rule: pool_step.induct)
  case (Add fds hp now local fp fp' errs s)
  with Add_full [of fp env hp now local fds fp' errs] show ?case by (simp add: Has_def fp_get_def)
next
  case (Remove hp fp s das)
  then show ?case by (simp add: RemoveFileData_slots Has_def)
next
  case (Get s h fp hp fp' hp' res)
  then show ?case using Get_frame [OF Get(1)] by (auto simp: Has_def fp_get_def)
next
  case (Tick_remove w r now order fp s fp' s' hp)
  then show ?case using removeTick_all [of g w r now order "(fp, s)"] by (simp add: Has_def fp_get_def)
next
  case (Tick_evict hp fp s now order inner)
  then show ?case using evictTick_empty [of fp now order inner] by (simp add: pool_inv_def)
qed (simp_all add: Has_def fp_get_def)

lemma full_run:
  assumes "pool_run env g W st st'" and "pool_inv (fst st) (fst (snd st))"
    and "slots (all (fst (snd st))) = GlobalSlots (fst (snd st))" and "GlobalSlots (fst (snd st)) \<noteq> - 1"
  shows "slots (all (fst (snd st'))) = GlobalSlots (fst (snd st')) \<and> GlobalSlots (fst (snd st')) = GlobalSlots (fst (snd st)) \<and>
    (\<forall>h. Has (fst (snd st')) h \<longrightarrow> Has (fst (snd st)) h)"
  using assms
proof (induction rule: pool_run.induct)
  case (Then st st' st'')
  with full_step [of env g W st' st''] pool_run_keeps [of env g W st st'] show ?case by simp
qed simp

text \<open>
  C4: once the slot counter has reached its limit the pool accepts nothing any more.  In
  every later state of every run, whatever was removed in between and whatever the owners
  of the records write, the pool holds only hashes it held when it filled up, and adding a
  record it does not hold returns "pool is full" and leaves the table unchanged.
\<close>

theorem pool_full_forever:
  assumes run: "pool_run env g W (hp, fp, s) (hp', fp', s')" and inv: "pool_inv hp fp"
    and full: "slots (all fp) = GlobalSlots fp" and lim: "GlobalSlots fp \<noteq> - 1"
    and new: "\<not> Has fp' (fdKey (da_of env) (hp' ! fd))"
  shows "(\<forall>h. Has fp' h \<longrightarrow> Has fp h) \<and>
    (\<exists>fp'' errs. fp_Add env hp' now local [fd] fp' = Ok (fp'', errs) \<and> errs ! 0 = Some ErrFdPoolOverflow \<and> all fp'' = all fp')"
proof -
  have f: "slots (all fp') = GlobalSlots fp'" "GlobalSlots fp' \<noteq> - 1" "\<forall>h. Has fp' h \<longrightarrow> Has fp h"
    using full_run [OF run] inv full lim by auto
  define fp1 where "fp1 = recordDisk (da_of env) hp' [fd] fp'"
  have r: "snd (fp_add env hp' now fd fp1) = Some ErrFdPoolOverflow"
    using f new word_less_succ [of "GlobalSlots fp'"] by (simp add: fp_add_result fp1_def)
  have "addFdsLocked env hp' now [fd] fp1 = (fp1, [Some ErrFdPoolOverflow])"
    using r fp_add_refused [of env hp' now fd fp1] by (intro prod_eqI) (simp_all add: addFdsLocked_Cons)
  then have "fp_Add env hp' now local [fd] fp' = Ok (fp1, [Some ErrFdPoolOverflow] @ invalidErrs env hp' local [fd])"
    using fp_Add_eq [of env hp' now "[fd]" fp' fp1 "[Some ErrFdPoolOverflow]" local]
    by (simp add: fp1_def accepted_def SendNewFileDataEvent_def)
  with f show ?thesis by (simp add: fp1_def)
qed

theorem pool_full_forever_witness:
  "\<exists>fp'' errs. fp_Add smallPoolEnv [smallDA] 0 True [0]
       (RemoveFileData smallEnv [smallDA] [0] (smallPool\<lparr> all := lookup_Add smallEnv [smallDA] 0 newLookup \<rparr>)) = Ok (fp'', errs) \<and>
     errs ! 0 = Some ErrFdPoolOverflow"
proof -
  let ?fp = "smallPool\<lparr> all := lookup_Add smallEnv [smallDA] 0 newLookup \<rparr>"
  have env: "da_of smallPoolEnv = smallEnv" by (simp add: smallPoolEnv_def)
  have run: "pool_run smallPoolEnv listGorm keepsKeys ([smallDA], ?fp, []) ([smallDA], RemoveFileData smallEnv [smallDA] [0] ?fp, [])"
    using pool_run.Then [OF pool_run.Start pool_step.Remove, of smallPoolEnv listGorm keepsKeys "[smallDA]" ?fp "[]" "[0]"] env by simp
  have refs: "f < length [smallDA]" if "mget (collector (lookup_Add smallEnv [smallDA] 0 newLookup)) h = Some f" for h f
    using that lookup_Get_Add [of smallEnv "[smallDA]" 0 newLookup h]
    by (simp add: lookup_Get_def newLookup_def mget_def split: if_splits)
  have "mwf (collector (lookup_Add smallEnv [smallDA] 0 newLookup))" by (simp add: newLookup_def)
  with refs have inv: "pool_inv [smallDA] ?fp"
    unfolding pool_inv_def by (simp add: smallPool_def freshPool_def newLookup_def)
  have full: "slots (all ?fp) = GlobalSlots ?fp" "GlobalSlots ?fp \<noteq> - 1"
    by (simp_all add: smallPool_def freshPool_def newLookup_def)
  have "fdKey smallEnv smallDA = TxHash smallDA" by (simp add: fdKey_def smallDA_def)
  then have new: "\<not> Has (RemoveFileData smallEnv [smallDA] [0] ?fp) (fdKey (da_of smallPoolEnv) ([smallDA] ! 0))"
    by (simp add: Has_def RemoveFileData_slots env)
  show ?thesis using pool_full_forever [OF run inv full new] by blast
qed

subsection \<open>The disk cache\<close>

lemma removeOne_diskCache:
  "mget (diskCache (fst (removeOne g w r now st k))) h =
    (if h = k then (case mget (diskCache (fst st)) h of Some t \<Rightarrow> if t + diskLifetime < now then None else Some t | None \<Rightarrow> None)
     else mget (diskCache (fst st)) h)"
  by (cases st) (auto simp: removeOne_def Let_def split: option.split)

lemma removeTick_diskCache:
  "mget (diskCache (fst (removeTick g w r now order st))) h =
    (if h \<in> set order then (case mget (diskCache (fst st)) h of Some t \<Rightarrow> if t + diskLifetime < now then None else Some t | None \<Rightarrow> None)
     else mget (diskCache (fst st)) h)"
proof (induction order arbitrary: st)
  case (Cons k order)
  have "removeTick g w r now (k # order) st = removeTick g w r now order (removeOne g w r now st k)"
    by (simp add: removeTick_def)
  then show ?case using Cons.IH by (auto simp: removeOne_diskCache split: option.splits)
qed (simp add: removeTick_def)

lemma GetAllDARecords_zeroTime:
  assumes "GetAllDARecords env g s = Inr das" and "da \<in> set das"
    and "\<And>cols rows row. gSelect g s cols = Inr rows \<Longrightarrow> row \<in> set rows \<Longrightarrow> ''f_receive_at'' \<notin> set cols \<Longrightarrow> f_receive_at row = []"
    and "ParseRFC3339 env [] = None"
  shows "ReceiveAt da = zeroTime"
  using assms by (fastforce simp: GetAllDARecords_def Let_def split: sum.splits)

lemma foldl_AddInToDisk_times:
  assumes "\<And>da. da \<in> set das \<Longrightarrow> t da = zeroTime" and "zeroTimes fp"
  shows "zeroTimes (foldl (\<lambda>fp da. AddInToDisk (k da) (t da) (AddInToDisk (k' da) (t da) fp)) fp das)"
  using assms
proof (induction das arbitrary: fp)
  case (Cons da das)
  have "zeroTimes (AddInToDisk (k da) (t da) (AddInToDisk (k' da) (t da) fp))"
    using Cons.prems by (auto simp: zeroTimes_def)
  from Cons.IH [OF Cons.prems(1) this] show ?case by simp
qed simp

lemma loadDiskCache_zeroTime:
  assumes "\<And>cols rows row. gSelect g s cols = Inr rows \<Longrightarrow> row \<in> set rows \<Longrightarrow> ''f_receive_at'' \<notin> set cols \<Longrightarrow> f_receive_at row = []"
    and "ParseRFC3339 env [] = None" and "zeroTimes fp"
  shows "zeroTimes (loadDiskCache env g s fp)"
proof (cases "GetAllDARecords env g s")
  case (Inl e)
  with assms(3) show ?thesis by (simp add: loadDiskCache_def)
next
  case (Inr das)
  have z: "ReceiveAt da = zeroTime" if "da \<in> set das" for da
    using GetAllDARecords_zeroTime [OF Inr that assms(1,2)] .
  from foldl_AddInToDisk_times [of das ReceiveAt fp, OF z] assms(3) Inr
  show ?thesis unfolding loadDiskCache_def by (simp only: sum.case if_split) simp
qed

text \<open>
  C12: a tick of the remove ticker drops exactly the disk-cache entries received more than
  fourteen days ago, in whatever order the map is iterated.
\<close>

theorem disk_cache_expiry:
  assumes order: "set order = set (mkeys (diskCache fp))"
  shows "mget (diskCache (fst (removeTick g w r now order (fp, s)))) h =
      (case mget (diskCache fp) h of None \<Rightarrow> None | Some t \<Rightarrow> if t + diskLifetime < now then None else Some t)"
  using order by (auto simp: removeTick_diskCache set_mkeys split: option.splits)

theorem disk_cache_expiry_witness:
  "mget (diskCache (fst (removeTick listGorm (\<lambda>_. False) id (diskLifetime + 1) [6, 5]
     (AddInToDisk 6 0 (AddInToDisk 5 1 smallPool), [])))) 6 = None"
proof -
  have "set [6, 5 :: hash] = set (mkeys (diskCache (AddInToDisk 6 0 (AddInToDisk 5 1 smallPool))))"
    by (auto simp: mkeys_def mput_def smallPool_def freshPool_def)
  from disk_cache_expiry [OF this, of listGorm "\<lambda>_. False" id "diskLifetime + 1" "[]" 6]
  show ?thesis by simp
qed

text \<open>
  C13: on a node of type "b" the disk cache as it is after the start is emptied by the first
  remove tick, whatever the age of the records: the query that fills it does not select the
  time column, and the journal does not carry the time, so every entry has the zero time.
\<close>

theorem disk_cache_purged:
  assumes unselected: "\<And>cols rows row. gSelect g s cols = Inr rows \<Longrightarrow> row \<in> set rows \<Longrightarrow>
      ''f_receive_at'' \<notin> set cols \<Longrightarrow> f_receive_at row = []"
    and parse: "ParseRFC3339 (da_of env) [] = None" and late: "zeroTime + diskLifetime < now"
    and start: "Init env g s openErr io t0 ord hp (freshPool globalSlots journalRemote path disk ''b'') = Some (Ok (hp', fp))"
    and order: "set order = set (mkeys (diskCache fp))"
  shows "mget (diskCache (fst (removeTick g w r now order (fp, s)))) h = None"
proof -
  obtain fp1 where "fp = loadDiskCache (da_of env) g s fp1" "zeroTimes fp1"
    using Init_returns [OF refl, of env g s openErr io t0 ord hp globalSlots journalRemote path disk "''b''"] start by auto
  with loadDiskCache_zeroTime [of g s "da_of env" fp1] unselected parse have "zeroTimes fp" by simp
  with order late show ?thesis by (auto simp: removeTick_diskCache set_mkeys zeroTimes_def split: option.splits)
qed

theorem disk_cache_purged_witness:
  "\<exists>fp. Init smallPoolEnv listGorm [zeroRow] None \<lparr> closeErr = None, createErr = None, renameErr = None, reopenErr = None \<rparr>
       0 (\<lambda>m. m) [] (freshPool 1 True ''fileData.rlp'' None ''b'') = Some (Ok ([], fp)) \<and>
     mget (diskCache fp) 0 = Some zeroTime \<and>
     mget (diskCache (fst (removeTick listGorm (\<lambda>_. False) id 0 (mkeys (diskCache fp)) (fp, [zeroRow])))) 0 = None"
proof -
  let ?io = "\<lparr> closeErr = None, createErr = None, renameErr = None, reopenErr = None \<rparr>"
  have zero: "HexToHash [] = 0" using be_nat_replicate_0 [of 32 "[]"]
    by (simp add: HexToHash_def FromHex_def has0xPrefix_def Hex2Bytes_def BytesToHash_def setFixed_def hash_of_bytes_def)
  obtain fp where start: "Init smallPoolEnv listGorm [zeroRow] None ?io 0 (\<lambda>m. m) [] (freshPool 1 True ''fileData.rlp'' None ''b'') = Some (Ok ([], fp))"
    and fp: "mget (diskCache fp) 0 = Some zeroTime"
    using zero by (simp add: Init_def journal_load_def newFdJournal_def freshPool_def loadDiskCache_def rotateJournal_def GetAllDARecords_def
        listGorm_def smallPoolEnv_def smallEnv_def zeroRow_def Let_def zeroDA_def)
  have sel: "\<And>cols rows row. gSelect listGorm [zeroRow] cols = Inr rows \<Longrightarrow> row \<in> set rows \<Longrightarrow>
      ''f_receive_at'' \<notin> set cols \<Longrightarrow> f_receive_at row = []"
    by (auto simp: listGorm_def zeroRow_def)
  have "mget (diskCache (fst (removeTick listGorm (\<lambda>_. False) id 0 (mkeys (diskCache fp)) (fp, [zeroRow])))) 0 = None"
    by (rule disk_cache_purged [OF sel _ _ start]) (simp_all add: smallPoolEnv_def smallEnv_def zeroTime_def diskLifetime_def)
  with start fp show ?thesis by blast
qed

end
