(* ===== verification/Filedata_Fetcher.thy ===== *)
theory Filedata_Fetcher
  imports Filedata_Pool
begin

text \<open>
  The announcement-based fetcher of file data (\<open>eth/fetcher/fileData_fetcher.go\<close>).  The
  loop's select is one function per case (\<open>onNotify\<close>, \<open>onWaitTrigger\<close>,
  \<open>onTimeoutTrigger\<close>, \<open>onCleanup\<close>, \<open>onDrop\<close>) on the state \<open>FileDataFetcher\<close>; the explicit
  panics and the nil dereferences of the source are the outcome \<open>Panic\<close>.  The callbacks
  are arguments (\<open>hasFd\<close>, \<open>addFds\<close>) or logs (\<open>fetchLog\<close>, \<open>dropLog\<close>), a timer is the time
  it fires at.  A set is a map to \<open>unit\<close>; where the source may store a nil map, the value
  is an option.  Orders of map iteration are arguments wherever they matter.
\<close>

subsection \<open>State\<close>

definition maxFdAnnounces :: nat where "maxFdAnnounces = 4096"
definition maxFdRetrievals :: nat where "maxFdRetrievals = 256"
definition maxFdRetrievalSize :: u64 where "maxFdRetrievalSize = 500 * 1024"
definition fdGatherSlack :: int where "fdGatherSlack = 100 * 1000000"
definition fdArriveTimeout :: int where "fdArriveTimeout = 500 * 1000000"
definition fdFetchTimeout :: int where "fdFetchTimeout = 5 * 1000000000"

type_synonym peer_set = "(peer_id, unit) gomap"
type_synonym meta_map = "(peer_id, (hash, u32 option) gomap) gomap"

record fdDelivery =
  d_origin :: peer_id
  d_hashes :: "hash list"
  d_metas :: "u32 list"
  d_direct :: bool

record fdAnnounce =
  a_origin :: peer_id
  a_hashes :: "hash list"
  a_metas :: "u32 list"

text \<open>A request whose \<open>hashes\<close> is nil is the empty list; one is created non-empty.\<close>

record fdRequest =
  r_hashes :: "hash list"
  r_stolen :: "(hash, unit) gomap"
  r_time :: int

record FileDataFetcher =
  waitlist :: "(hash, peer_set) gomap"
  waittime :: "(hash, int) gomap"
  waitslots :: meta_map
  announces :: meta_map
  announced :: "(hash, peer_set option) gomap"
  fetching :: "(hash, peer_id) gomap"
  requests :: "(peer_id, fdRequest) gomap"
  alternates :: "(hash, peer_set option) gomap"
  waitTimer :: "int option"
  timeoutTimer :: "int option"
  fetchLog :: "(peer_id \<times> hash list) list"
  dropLog :: "peer_id list"

definition NewFdFetcher :: FileDataFetcher where
  "NewFdFetcher = \<lparr> waitlist = [], waittime = [], waitslots = [], announces = [], announced = [],
     fetching = [], requests = [], alternates = [], waitTimer = None, timeoutTimer = None,
     fetchLog = [], dropLog = [] \<rparr>"

subsection \<open>Nested maps\<close>

text \<open>
  \<open>len(m[k])\<close>, \<open>m[k][h]\<close> on a map of pointers, the idiom "insert into \<open>m[k]\<close> or create it",
  and the idiom "delete from \<open>m[k]\<close> and drop \<open>m[k]\<close> when it becomes empty".
\<close>

definition lenOf :: "('k, ('h, 'v) gomap) gomap \<Rightarrow> 'k \<Rightarrow> nat" where
  "lenOf m k = (case mget m k of None \<Rightarrow> 0 | Some x \<Rightarrow> mlen x)"

definition metaOf :: "meta_map \<Rightarrow> peer_id \<Rightarrow> hash \<Rightarrow> u32 option" where
  "metaOf m k h = (case mget m k of None \<Rightarrow> None | Some x \<Rightarrow> (case mget x h of None \<Rightarrow> None | Some v \<Rightarrow> v))"

definition addMeta :: "peer_id \<Rightarrow> hash \<Rightarrow> u32 option \<Rightarrow> meta_map \<Rightarrow> meta_map" where
  "addMeta k h v m = (case mget m k of None \<Rightarrow> mput k [(h, v)] m | Some x \<Rightarrow> mput k (mput h v x) m)"

definition delMeta :: "peer_id \<Rightarrow> hash \<Rightarrow> meta_map \<Rightarrow> meta_map" where
  "delMeta k h m =
     (case mget m k of
        None \<Rightarrow> m
      | Some x \<Rightarrow> let x = mdel h x in if mlen x = 0 then mdel k m else mput k x m)"

definition tracks :: "meta_map \<Rightarrow> peer_id \<Rightarrow> hash \<Rightarrow> bool" where
  "tracks m k h = (case mget m k of None \<Rightarrow> False | Some x \<Rightarrow> mhas x h)"

text \<open>A stored set that is not nil.\<close>

definition nonNil :: "('k, 'a option) gomap \<Rightarrow> 'k \<Rightarrow> 'a option" where
  "nonNil m k = (case mget m k of Some (Some x) \<Rightarrow> Some x | _ \<Rightarrow> None)"

subsection \<open>Timers\<close>

fun earliestWait :: "int \<Rightarrow> int list \<Rightarrow> int \<Rightarrow> int" where
  "earliestWait now [] earliest = earliest"
| "earliestWait now (inst # rest) earliest =
     (if earliest > inst then
        if fdArriveTimeout - (now - inst) < fdGatherSlack then inst
        else earliestWait now rest inst
      else earliestWait now rest earliest)"

definition rescheduleWait :: "int \<Rightarrow> hash list \<Rightarrow> FileDataFetcher \<Rightarrow> FileDataFetcher" where
  "rescheduleWait now order f =
     (let earliest = earliestWait now (List.map_filter (mget (waittime f)) order) now
      in f\<lparr> waitTimer := Some (now + (fdArriveTimeout - (now - earliest))) \<rparr>)"

fun earliestRequest :: "int \<Rightarrow> fdRequest list \<Rightarrow> int \<Rightarrow> int" where
  "earliestRequest now [] earliest = earliest"
| "earliestRequest now (req # rest) earliest =
     (if r_hashes req = [] then earliestRequest now rest earliest
      else if earliest > r_time req then
        if fdFetchTimeout - (now - r_time req) < fdGatherSlack then r_time req
        else earliestRequest now rest (r_time req)
      else earliestRequest now rest earliest)"

definition rescheduleTimeout :: "int \<Rightarrow> peer_id list \<Rightarrow> FileDataFetcher \<Rightarrow> FileDataFetcher" where
  "rescheduleTimeout now order f =
     (let earliest = earliestRequest now (List.map_filter (mget (requests f)) order) now
      in f\<lparr> timeoutTimer := Some (now + (fdFetchTimeout - (now - earliest))) \<rparr>)"

subsection \<open>Scheduling fetches\<close>

text \<open>
  The callback of \<open>forEachAnnounce\<close>, run over the peer's announcements in iteration order;
  \<open>hashes\<close> and \<open>bytes\<close> are the variables it captures.
\<close>

fun gatherHashes :: "peer_id \<Rightarrow> (hash \<times> u32 option) list \<Rightarrow> hash list \<Rightarrow> u64 \<Rightarrow> FileDataFetcher
    \<Rightarrow> (unit, hash list \<times> FileDataFetcher) outcome" where
  "gatherHashes peer [] hashes bytes f = Ok (hashes, f)"
| "gatherHashes peer ((h, meta) # rest) hashes bytes f =
     (if mhas (fetching f) h then gatherHashes peer rest hashes bytes f
      else if mhas (alternates f) h then Panic
      else
        let f = f\<lparr> fetching := mput h peer (fetching f),
                  alternates := mput h (nonNil (announced f) h) (alternates f),
                  announced := mdel h (announced f) \<rparr>;
            hashes = hashes @ [h]
        in if length hashes \<ge> maxFdRetrievals then Ok (hashes, f)
           else case meta of
             None \<Rightarrow> gatherHashes peer rest hashes bytes f
           | Some sz \<Rightarrow>
               let bytes = bytes + ucast sz in
               if bytes \<ge> maxFdRetrievalSize then Ok (hashes, f)
               else gatherHashes peer rest hashes bytes f)"

text \<open>
  \<open>orderAnn\<close> lists a peer's announcements in the order \<open>forEachAnnounce\<close> visits them;
  \<open>orderedMetas\<close> pairs them with what the map holds.
\<close>

definition orderedMetas :: "(hash, u32 option) gomap \<Rightarrow> hash list \<Rightarrow> (hash \<times> u32 option) list" where
  "orderedMetas m order = List.map_filter (\<lambda>h. map_option (Pair h) (mget m h)) order"

definition scheduleOne :: "int \<Rightarrow> (peer_id \<Rightarrow> hash list) \<Rightarrow> FileDataFetcher \<Rightarrow> peer_id
    \<Rightarrow> (unit, FileDataFetcher) outcome" where
  "scheduleOne now orderAnn f peer =
     (if mhas (requests f) peer then Ok f
      else case mget (announces f) peer of
        None \<Rightarrow> Ok f
      | Some anns \<Rightarrow>
          if mlen anns = 0 then Ok f
          else bind_outcome (gatherHashes peer (orderedMetas anns (orderAnn peer)) [] 0 f) (\<lambda>(hashes, f).
            if length hashes > 0 then
              Ok (f\<lparr> requests := mput peer \<lparr> r_hashes = hashes, r_stolen = [], r_time = now \<rparr> (requests f),
                     fetchLog := fetchLog f @ [(peer, hashes)] \<rparr>)
            else Ok f))"

fun forEach :: "('s \<Rightarrow> 'a \<Rightarrow> ('e, 's) outcome) \<Rightarrow> 's \<Rightarrow> 'a list \<Rightarrow> ('e, 's) outcome" where
  "forEach body s [] = Ok s"
| "forEach body s (x # xs) = bind_outcome (body s x) (\<lambda>s. forEach body s xs)"

text \<open>The orders in which the maps are iterated during one turn of the loop.\<close>

record orders =
  o_peers :: "peer_id list"
  o_anns :: "peer_id \<Rightarrow> hash list"
  o_reqs :: "peer_id list"
  o_waits :: "hash list"

definition scheduleFetches :: "int \<Rightarrow> orders \<Rightarrow> peer_id list option \<Rightarrow> FileDataFetcher
    \<Rightarrow> (unit, FileDataFetcher) outcome" where
  "scheduleFetches now ord whitelist f =
     (let actives = (case whitelist of None \<Rightarrow> mkeys (announces f) | Some w \<Rightarrow> w) in
      if length actives = 0 then Ok f
      else
        let idle = (mlen (requests f) = 0) in
        bind_outcome (forEach (scheduleOne now (o_anns ord)) f (filter (\<lambda>p. p \<in> set actives) (o_peers ord))) (\<lambda>f.
        if idle \<and> mlen (requests f) > 0 then Ok (rescheduleTimeout now (o_reqs ord) f) else Ok f))"

subsection \<open>Announcements\<close>

text \<open>
  \<open>Notify\<close>: the announcement it pushes into the loop, if any.  \<open>sizes[i]\<close> is evaluated for
  unknown hashes only.
\<close>

fun notifyScan :: "(hash \<Rightarrow> bool) \<Rightarrow> u32 list \<Rightarrow> nat \<Rightarrow> hash list \<Rightarrow> (unit, (hash \<times> u32) list) outcome" where
  "notifyScan hasFd sizes i [] = Ok []"
| "notifyScan hasFd sizes i (h # hashes) =
     (if hasFd h then notifyScan hasFd sizes (i + 1) hashes
      else if i < length sizes then
        bind_outcome (notifyScan hasFd sizes (i + 1) hashes) (\<lambda>rest. Ok ((h, sizes ! i) # rest))
      else Panic)"

definition Notify :: "(hash \<Rightarrow> bool) \<Rightarrow> peer_id \<Rightarrow> u32 list \<Rightarrow> hash list \<Rightarrow> (unit, fdAnnounce option) outcome" where
  "Notify hasFd peer sizes hashes =
     bind_outcome (notifyScan hasFd sizes 0 hashes) (\<lambda>unknown.
     if length unknown = 0 then Ok None
     else Ok (Some \<lparr> a_origin = peer, a_hashes = map fst unknown, a_metas = map snd unknown \<rparr>))"

definition announceOne :: "peer_id \<Rightarrow> int \<Rightarrow> FileDataFetcher \<Rightarrow> hash \<times> u32 \<Rightarrow> FileDataFetcher" where
  "announceOne origin now f ann =
     (let (h, sz) = ann; meta = Some sz in
      case nonNil (alternates f) h of
        Some s \<Rightarrow> f\<lparr> alternates := mput h (Some (mput origin () s)) (alternates f),
                    announces := addMeta origin h meta (announces f) \<rparr>
      | None \<Rightarrow>
     (case nonNil (announced f) h of
        Some s \<Rightarrow> f\<lparr> announced := mput h (Some (mput origin () s)) (announced f),
                    announces := addMeta origin h meta (announces f) \<rparr>
      | None \<Rightarrow>
     (case mget (waitlist f) h of
        Some s \<Rightarrow>
          if mhas s origin then f
          else f\<lparr> waitlist := mput h (mput origin () s) (waitlist f),
                  waitslots := addMeta origin h meta (waitslots f) \<rparr>
      | None \<Rightarrow>
          f\<lparr> waitlist := mput h [(origin, ())] (waitlist f),
             waittime := mput h now (waittime f),
             waitslots := addMeta origin h meta (waitslots f) \<rparr>)))"

definition announceKept :: "FileDataFetcher \<Rightarrow> fdAnnounce \<Rightarrow> (hash \<times> u32) list" where
  "announceKept f ann =
     (let used = lenOf (waitslots f) (a_origin ann) + lenOf (announces f) (a_origin ann);
          want = used + length (a_hashes ann);
          all = zip (a_hashes ann) (a_metas ann) in
      if want > maxFdAnnounces then take (want - maxFdAnnounces) all else all)"

definition onNotify :: "int \<Rightarrow> orders \<Rightarrow> fdAnnounce \<Rightarrow> FileDataFetcher \<Rightarrow> (unit, FileDataFetcher) outcome" where
  "onNotify now ord ann f =
     (let used = lenOf (waitslots f) (a_origin ann) + lenOf (announces f) (a_origin ann) in
      if used \<ge> maxFdAnnounces then Ok f
      else
        let idleWait = (mlen (waittime f) = 0);
            oldPeer = mhas (announces f) (a_origin ann);
            f = foldl (announceOne (a_origin ann) now) f (announceKept f ann);
            f = (if idleWait \<and> mlen (waittime f) > 0 then rescheduleWait now (o_waits ord) f else f)
        in if oldPeer \<and> lenOf (announces f) (a_origin ann) > 0
           then scheduleFetches now ord (Some [a_origin ann]) f
           else Ok f)"

subsection \<open>The wait timer\<close>

definition promotePeer :: "hash \<Rightarrow> FileDataFetcher \<times> peer_set \<Rightarrow> peer_id \<Rightarrow> FileDataFetcher \<times> peer_set" where
  "promotePeer h st peer =
     (let (f, actives) = st;
          f = f\<lparr> announces := addMeta peer h (metaOf (waitslots f) peer h) (announces f) \<rparr>;
          f = f\<lparr> waitslots := delMeta peer h (waitslots f) \<rparr>
      in (f, mput peer () actives))"

definition promoteOne :: "int \<Rightarrow> FileDataFetcher \<times> peer_set \<Rightarrow> hash \<Rightarrow> (unit, FileDataFetcher \<times> peer_set) outcome" where
  "promoteOne now st h =
     (let (f, actives) = st in
      case mget (waittime f) h of
        None \<Rightarrow> Ok (f, actives)
      | Some inst \<Rightarrow>
          if (now - inst) + fdGatherSlack > fdArriveTimeout then
            if nonNil (announced f) h \<noteq> None then Panic
            else
              let f = f\<lparr> announced := mput h (mget (waitlist f) h) (announced f) \<rparr>;
                  peers = (case mget (waitlist f) h of None \<Rightarrow> [] | Some s \<Rightarrow> mkeys s);
                  (f, actives) = foldl (promotePeer h) (f, actives) peers
              in Ok (f\<lparr> waittime := mdel h (waittime f), waitlist := mdel h (waitlist f) \<rparr>, actives)
          else Ok (f, actives))"

definition onWaitTrigger :: "int \<Rightarrow> orders \<Rightarrow> FileDataFetcher \<Rightarrow> (unit, FileDataFetcher) outcome" where
  "onWaitTrigger now ord f =
     bind_outcome (forEach (promoteOne now) (f\<lparr> waitTimer := None \<rparr>, []) (o_waits ord)) (\<lambda>(f, actives).
     let f = (if mlen (waittime f) > 0 then rescheduleWait now (o_waits ord) f else f) in
     if mlen actives > 0 then scheduleFetches now ord (Some (mkeys actives)) f else Ok f)"

subsection \<open>The timeout timer\<close>

definition timeoutHash :: "peer_id \<Rightarrow> fdRequest \<Rightarrow> FileDataFetcher \<Rightarrow> hash \<Rightarrow> (unit, FileDataFetcher) outcome" where
  "timeoutHash peer req f h =
     (if mhas (r_stolen req) h then Ok f
      else if mhas (announced f) h then Panic
      else
        let f = (case nonNil (alternates f) h of
                   None \<Rightarrow> f
                 | Some s \<Rightarrow> f\<lparr> announced := mput h (Some (mdel peer s)) (announced f) \<rparr>);
            f = (case nonNil (announced f) h of
                   None \<Rightarrow> f\<lparr> announced := mdel h (announced f) \<rparr>
                 | Some s \<Rightarrow> if mlen s = 0 then f\<lparr> announced := mdel h (announced f) \<rparr> else f)
        in Ok (f\<lparr> alternates := mdel h (alternates f), fetching := mdel h (fetching f) \<rparr>))"

definition timeoutOne :: "int \<Rightarrow> FileDataFetcher \<Rightarrow> peer_id \<Rightarrow> (unit, FileDataFetcher) outcome" where
  "timeoutOne now f peer =
     (case mget (requests f) peer of
        None \<Rightarrow> Ok f
      | Some req \<Rightarrow>
          if (now - r_time req) + 100 * 1000000 > fdFetchTimeout then
            bind_outcome (forEach (timeoutHash peer req) f (r_hashes req)) (\<lambda>f.
            let f = (if lenOf (announces f) peer = 0 then f\<lparr> announces := mdel peer (announces f) \<rparr> else f)
            in Ok (f\<lparr> requests := mput peer (req\<lparr> r_hashes := [] \<rparr>) (requests f) \<rparr>))
          else Ok f)"

definition onTimeoutTrigger :: "int \<Rightarrow> orders \<Rightarrow> FileDataFetcher \<Rightarrow> (unit, FileDataFetcher) outcome" where
  "onTimeoutTrigger now ord f =
     bind_outcome (forEach (timeoutOne now) (f\<lparr> timeoutTimer := None \<rparr>) (o_reqs ord)) (\<lambda>f.
     bind_outcome (scheduleFetches now ord None f) (\<lambda>f.
     Ok (rescheduleTimeout now (o_reqs ord) f)))"

subsection \<open>Deliveries\<close>

text \<open>The difference of two sizes, exact in the source's floating point.\<close>

definition sizeMismatch :: "u32 \<Rightarrow> u32 \<Rightarrow> bool" where
  "sizeMismatch a b = (a \<noteq> b \<and> \<bar>int (unat a) - int (unat b)\<bar> > 8)"

fun droppedPeers :: "hash \<Rightarrow> u32 \<Rightarrow> meta_map \<Rightarrow> peer_id list" where
  "droppedPeers h sz [] = []"
| "droppedPeers h sz ((peer, fdset) # rest) =
     (case mget fdset h of
        Some (Some meta) \<Rightarrow> (if sizeMismatch sz meta then [peer] else [])
      | _ \<Rightarrow> []) @ droppedPeers h sz rest"

definition forgetHash :: "hash \<Rightarrow> meta_map \<Rightarrow> meta_map" where
  "forgetHash h m = foldl (\<lambda>m peer. delMeta peer h m) m (mkeys m)"

definition deliverOne :: "peer_id \<Rightarrow> bool \<Rightarrow> FileDataFetcher \<Rightarrow> hash \<times> u32 \<Rightarrow> (unit, FileDataFetcher) outcome" where
  "deliverOne origin direct f dlv =
     (let (h, sz) = dlv in
      if mhas (waitlist f) h then
        Ok (f\<lparr> dropLog := dropLog f @ droppedPeers h sz (waitslots f),
               waitslots := forgetHash h (waitslots f),
               waitlist := mdel h (waitlist f), waittime := mdel h (waittime f) \<rparr>)
      else
        let f = f\<lparr> dropLog := dropLog f @ droppedPeers h sz (announces f),
                  announces := forgetHash h (announces f),
                  announced := mdel h (announced f), alternates := mdel h (alternates f) \<rparr>
        in case mget (fetching f) h of
             None \<Rightarrow> Ok f
           | Some from \<Rightarrow>
               if from \<noteq> origin \<or> \<not> direct then
                 (case mget (requests f) from of
                    None \<Rightarrow> Panic
                  | Some req \<Rightarrow>
                      Ok (f\<lparr> requests := mput from (req\<lparr> r_stolen := mput h () (r_stolen req) \<rparr>) (requests f),
                             fetching := mdel h (fetching f) \<rparr>))
               else Ok (f\<lparr> fetching := mdel h (fetching f) \<rparr>))"

text \<open>\<open>cutoff\<close>: the position of the last delivered hash of the request, or its length.\<close>

definition cutoffOf :: "hash list \<Rightarrow> hash list \<Rightarrow> nat" where
  "cutoffOf delivered hashes =
     foldl (\<lambda>cutoff i. if hashes ! i \<in> set delivered then i else cutoff) (length hashes) [0..<length hashes]"

definition missingOne :: "peer_id \<Rightarrow> fdRequest \<Rightarrow> hash list \<Rightarrow> nat \<Rightarrow> FileDataFetcher \<Rightarrow> nat \<times> hash
    \<Rightarrow> (unit, FileDataFetcher) outcome" where
  "missingOne origin req delivered cutoff f ih =
     (let (i, h) = ih in
      if mhas (r_stolen req) h then Ok f
      else
        bind_outcome
          (if h \<in> set delivered then Ok f
           else
             let f = (if i < cutoff then
                        f\<lparr> alternates := (case nonNil (alternates f) h of
                               None \<Rightarrow> alternates f | Some s \<Rightarrow> mput h (Some (mdel origin s)) (alternates f)),
                           announces := delMeta origin h (announces f) \<rparr>
                      else f)
             in case nonNil (alternates f) h of
                  None \<Rightarrow> Ok f
                | Some s \<Rightarrow>
                    if mlen s > 0 then
                      if mhas (announced f) h then Panic
                      else Ok (f\<lparr> announced := mput h (Some s) (announced f) \<rparr>)
                    else Ok f)
          (\<lambda>f. Ok (f\<lparr> alternates := mdel h (alternates f), fetching := mdel h (fetching f) \<rparr>)))"

definition onCleanup :: "int \<Rightarrow> orders \<Rightarrow> fdDelivery \<Rightarrow> FileDataFetcher \<Rightarrow> (unit, FileDataFetcher) outcome" where
  "onCleanup now ord delivery f =
     bind_outcome (forEach (deliverOne (d_origin delivery) (d_direct delivery)) f
                     (zip (d_hashes delivery) (d_metas delivery))) (\<lambda>f.
     if \<not> d_direct delivery then Ok f
     else case mget (requests f) (d_origin delivery) of
        None \<Rightarrow> Ok f
      | Some req \<Rightarrow>
          let f = f\<lparr> requests := mdel (d_origin delivery) (requests f) \<rparr>;
              cutoff = cutoffOf (d_hashes delivery) (r_hashes req) in
          bind_outcome (forEach (missingOne (d_origin delivery) req (d_hashes delivery) cutoff) f
                          (zip [0..<length (r_hashes req)] (r_hashes req))) (\<lambda>f.
          scheduleFetches now ord None f))"

subsection \<open>Disconnects\<close>

definition dropHash :: "peer_id \<Rightarrow> fdRequest \<Rightarrow> FileDataFetcher \<Rightarrow> hash \<Rightarrow> FileDataFetcher" where
  "dropHash peer request f h =
     (if mhas (r_stolen request) h then f
      else
        let f = (case nonNil (alternates f) h of
                   None \<Rightarrow> f\<lparr> alternates := mdel h (alternates f) \<rparr>
                 | Some s \<Rightarrow>
                     if mlen (mdel peer s) = 0 then f\<lparr> alternates := mdel h (alternates f) \<rparr>
                     else f\<lparr> announced := mput h (Some (mdel peer s)) (announced f),
                             alternates := mdel h (alternates f) \<rparr>)
        in f\<lparr> fetching := mdel h (fetching f) \<rparr>)"

definition onDrop :: "int \<Rightarrow> orders \<Rightarrow> peer_id \<Rightarrow> FileDataFetcher \<Rightarrow> (unit, FileDataFetcher) outcome" where
  "onDrop now ord peer f =
     (case mget (requests f) peer of
        None \<Rightarrow> Ok f
      | Some request \<Rightarrow>
          let f = foldl (dropHash peer request) f (r_hashes request);
              f = f\<lparr> requests := mdel peer (requests f) \<rparr> in
          bind_outcome (scheduleFetches now ord None f) (\<lambda>f.
          Ok (rescheduleTimeout now (o_reqs ord) f)))"

subsection \<open>The loop\<close>

datatype fetcher_event =
    EvNotify fdAnnounce
  | EvWaitTrigger
  | EvTimeoutTrigger
  | EvCleanup fdDelivery
  | EvDrop peer_id

fun fetcher_handle :: "int \<Rightarrow> orders \<Rightarrow> fetcher_event \<Rightarrow> FileDataFetcher \<Rightarrow> (unit, FileDataFetcher) outcome" where
  "fetcher_handle now ord (EvNotify ann) f = onNotify now ord ann f"
| "fetcher_handle now ord EvWaitTrigger f = onWaitTrigger now ord f"
| "fetcher_handle now ord EvTimeoutTrigger f = onTimeoutTrigger now ord f"
| "fetcher_handle now ord (EvCleanup delivery) f = onCleanup now ord delivery f"
| "fetcher_handle now ord (EvDrop peer) f = onDrop now ord peer f"

inductive fetcher_reach :: "FileDataFetcher \<Rightarrow> bool" where
  Start: "fetcher_reach NewFdFetcher"
| Step: "fetcher_reach f \<Longrightarrow> fetcher_handle now ord ev f = Ok f' \<Longrightarrow> fetcher_reach f'"

text \<open>A run of the loop over a list of events, each with its time and orders.\<close>

fun fetcher_run :: "(int \<times> orders \<times> fetcher_event) list \<Rightarrow> FileDataFetcher \<Rightarrow> (unit, FileDataFetcher) outcome" where
  "fetcher_run [] f = Ok f"
| "fetcher_run ((now, ord, ev) # evs) f = bind_outcome (fetcher_handle now ord ev f) (fetcher_run evs)"

subsection \<open>Importing deliveries into the pool\<close>

text \<open>
  \<open>Enqueue\<close> over the pool's \<open>addFds\<close>: for every batch of 128 records, one delivered hash per
  returned error; \<open>batch[j]\<close> beyond the batch is the panic.
\<close>

fun enqueueBatch :: "('d \<Rightarrow> hash \<times> u32) \<Rightarrow> 'd list \<Rightarrow> nat \<Rightarrow> 'e option list \<Rightarrow> (unit, (hash \<times> u32) list) outcome" where
  "enqueueBatch info batch j [] = Ok []"
| "enqueueBatch info batch j (err # errs) =
     (if j < length batch then
        bind_outcome (enqueueBatch info batch (j + 1) errs) (\<lambda>rest. Ok (info (batch ! j) # rest))
      else Panic)"

function enqueueLoop :: "('p \<Rightarrow> 'd list \<Rightarrow> 'p \<times> 'e option list) \<Rightarrow> ('d \<Rightarrow> hash \<times> u32) \<Rightarrow> 'd list \<Rightarrow> 'p
    \<Rightarrow> (unit, 'p \<times> (hash \<times> u32) list) outcome" where
  "enqueueLoop addFds info fds p =
     (if fds = [] then Ok (p, [])
      else
        let batch = take 128 fds; (p, errs) = addFds p batch in
        bind_outcome (enqueueBatch info batch 0 errs) (\<lambda>added.
        bind_outcome (enqueueLoop addFds info (drop 128 fds) p) (\<lambda>(p, more).
        Ok (p, added @ more))))"
  by pat_completeness auto

termination enqueueLoop
  by (relation "measure (\<lambda>(addFds, info, fds, p). length fds)") auto

definition Enqueue :: "('p \<Rightarrow> 'd list \<Rightarrow> 'p \<times> 'e option list) \<Rightarrow> ('d \<Rightarrow> hash \<times> u32) \<Rightarrow> peer_id \<Rightarrow> 'd list \<Rightarrow> bool \<Rightarrow> 'p
    \<Rightarrow> (unit, 'p \<times> fdDelivery) outcome" where
  "Enqueue addFds info peer fds direct p =
     bind_outcome (enqueueLoop addFds info fds p) (\<lambda>(p, added).
     Ok (p, \<lparr> d_origin = peer, d_hashes = map fst added, d_metas = map snd added, d_direct = direct \<rparr>))"

declare enqueueLoop.simps [simp del]

end
