(* ===== verification/Fetcher_Invariants.thy ===== *)
theory Fetcher_Invariants
  imports Filedata_Fetcher
begin

text \<open>
  Invariants of the fetcher's loop: the waiting lists mirror each other, the fetching map
  and the outstanding requests describe the same set, a hash is queued, waiting or
  stashed away in one place only, and the timers are armed whenever something depends on
  them.  They give which panics of the source are unreachable and in which reachable
  states the remaining one happens.
\<close>

subsection \<open>The invariant\<close>

definition wait_ok :: "(hash, peer_set) gomap \<Rightarrow> (hash, int) gomap \<Rightarrow> meta_map \<Rightarrow> bool" where
  "wait_ok wl wt ws \<longleftrightarrow> (\<forall>h. mhas wl h = mhas wt h) \<and>
     (\<forall>p h. tracks ws p h \<longleftrightarrow> (\<exists>s. mget wl h = Some s \<and> mhas s p)) \<and>
     (\<forall>h s. mget wl h = Some s \<longrightarrow> (\<exists>p. mhas s p))"

definition pending :: "(peer_id, fdRequest) gomap \<Rightarrow> peer_id \<Rightarrow> hash \<Rightarrow> bool" where
  "pending rq p h \<longleftrightarrow> (\<exists>r. mget rq p = Some r \<and> h \<in> set (r_hashes r) \<and> \<not> mhas (r_stolen r) h)"

definition link_ok :: "(hash, peer_id) gomap \<Rightarrow> (peer_id, fdRequest) gomap \<Rightarrow> bool" where
  "link_ok fe rq \<longleftrightarrow> (\<forall>h p. mget fe h = Some p \<longleftrightarrow> pending rq p h)"

definition track_ok :: "(hash, peer_set) gomap \<Rightarrow> (hash, peer_set option) gomap \<Rightarrow> (hash, peer_set option) gomap
    \<Rightarrow> (hash, peer_id) gomap \<Rightarrow> bool" where
  "track_ok wl an al fe \<longleftrightarrow> (\<forall>h. mhas al h = mhas fe h) \<and>
     (\<forall>h x. mget an h = Some x \<longrightarrow> (\<exists>s p. x = Some s \<and> mhas s p)) \<and>
     (\<forall>h. mhas wl h \<longrightarrow> \<not> mhas an h \<and> nonNil al h = None) \<and>
     (\<forall>h. mhas an h \<longrightarrow> nonNil al h = None)"

definition req_ok :: "(peer_id, fdRequest) gomap \<Rightarrow> bool" where
  "req_ok rq \<longleftrightarrow> (\<forall>p r. mget rq p = Some r \<longrightarrow> length (r_hashes r) \<le> maxFdRetrievals \<and> distinct (r_hashes r))"

definition timer_ok :: "FileDataFetcher \<Rightarrow> bool" where
  "timer_ok f \<longleftrightarrow> (mlen (waittime f) > 0 \<longrightarrow> waitTimer f \<noteq> None) \<and> (mlen (requests f) > 0 \<longrightarrow> timeoutTimer f \<noteq> None)"

definition core_inv :: "FileDataFetcher \<Rightarrow> bool" where
  "core_inv f \<longleftrightarrow> wait_ok (waitlist f) (waittime f) (waitslots f) \<and> link_ok (fetching f) (requests f) \<and>
     track_ok (waitlist f) (announced f) (alternates f) (fetching f) \<and> req_ok (requests f)"

definition fetcher_inv :: "FileDataFetcher \<Rightarrow> bool" where
  "fetcher_inv f \<longleftrightarrow> core_inv f \<and> timer_ok f"

text \<open>
  While hashes are gathered for a peer, the fetching map runs ahead of the requests by
  exactly the hashes gathered so far.
\<close>

definition gather_inv :: "peer_id \<Rightarrow> hash list \<Rightarrow> FileDataFetcher \<Rightarrow> bool" where
  "gather_inv peer hs f \<longleftrightarrow> wait_ok (waitlist f) (waittime f) (waitslots f) \<and>
     track_ok (waitlist f) (announced f) (alternates f) (fetching f) \<and> req_ok (requests f) \<and>
     \<not> mhas (requests f) peer \<and> distinct hs \<and>
     (\<forall>h p. mget (fetching f) h = Some p \<longleftrightarrow> (p = peer \<and> h \<in> set hs) \<or> pending (requests f) p h)"

text \<open>
  During a direct delivery the requests of the delivering peer may run ahead of the
  fetching map; those of every other peer agree with it.
\<close>

definition deliver_inv :: "peer_id \<Rightarrow> bool \<Rightarrow> FileDataFetcher \<Rightarrow> bool" where
  "deliver_inv origin direct f \<longleftrightarrow> wait_ok (waitlist f) (waittime f) (waitslots f) \<and>
     track_ok (waitlist f) (announced f) (alternates f) (fetching f) \<and> req_ok (requests f) \<and>
     (\<forall>h p. mget (fetching f) h = Some p \<longrightarrow> pending (requests f) p h) \<and>
     (\<forall>h p. pending (requests f) p h \<longrightarrow> mget (fetching f) h = Some p \<or> (direct \<and> p = origin \<and> mget (fetching f) h = None))"

text \<open>
  While a request is wound up, its hashes \<open>rem\<close> that are still to be handled may be in the
  fetching map; for every other peer the map and the requests agree.
\<close>

definition link_upto :: "peer_id \<Rightarrow> hash set \<Rightarrow> (hash, peer_id) gomap \<Rightarrow> (peer_id, fdRequest) gomap \<Rightarrow> bool" where
  "link_upto peer rem fe rq \<longleftrightarrow>
     (\<forall>h p. p \<noteq> peer \<longrightarrow> (mget fe h = Some p \<longleftrightarrow> pending rq p h)) \<and>
     (\<forall>h. mget fe h = Some peer \<longrightarrow> h \<in> rem) \<and> (\<forall>h\<in>rem. mget fe h \<in> {None, Some peer})"

definition windup_inv :: "peer_id \<Rightarrow> hash set \<Rightarrow> FileDataFetcher \<Rightarrow> FileDataFetcher \<Rightarrow> bool" where
  "windup_inv peer rem f0 f \<longleftrightarrow> wait_ok (waitlist f) (waittime f) (waitslots f) \<and>
     track_ok (waitlist f) (announced f) (alternates f) (fetching f) \<and>
     requests f = requests f0 \<and> waittime f = waittime f0 \<and> waitTimer f = waitTimer f0 \<and> timeoutTimer f = timeoutTimer f0 \<and>
     link_upto peer rem (fetching f) (requests f0)"

text \<open>
  \<open>windup_step f f' h\<close>: one hash is handled, leaving the fetching map without it and the
  waiting lists, requests and timers as they were.
\<close>

definition fetch_track :: "FileDataFetcher \<Rightarrow> bool" where
  "fetch_track f \<longleftrightarrow> track_ok (waitlist f) (announced f) (alternates f) (fetching f)"

definition windup_step :: "FileDataFetcher \<Rightarrow> FileDataFetcher \<Rightarrow> hash \<Rightarrow> bool" where
  "windup_step f f' h \<longleftrightarrow> fetch_track f' \<and> fetching f' = mdel h (fetching f) \<and> waitlist f' = waitlist f \<and>
     waittime f' = waittime f \<and> waitslots f' = waitslots f \<and> requests f' = requests f \<and>
     waitTimer f' = waitTimer f \<and> timeoutTimer f' = timeoutTimer f"

text \<open>No trace of a hash outside the waiting list.\<close>

definition untracked :: "hash \<Rightarrow> FileDataFetcher \<Rightarrow> bool" where
  "untracked h f \<longleftrightarrow> \<not> mhas (waitlist f) h \<and> \<not> mhas (announced f) h \<and> \<not> mhas (alternates f) h \<and>
     \<not> mhas (fetching f) h \<and> (\<forall>p. \<not> tracks (announces f) p h)"

text \<open>A request that is overdue and holds an undelivered hash that is queued as well.\<close>

definition doomed :: "int \<Rightarrow> FileDataFetcher \<Rightarrow> peer_id \<Rightarrow> bool" where
  "doomed now f p \<longleftrightarrow> (\<exists>r h. mget (requests f) p = Some r \<and> (now - r_time r) + 100 * 1000000 > fdFetchTimeout \<and>
     h \<in> set (r_hashes r) \<and> \<not> mhas (r_stolen r) h \<and> mhas (announced f) h)"

text \<open>What scheduling leaves alone.\<close>

definition sched_frame :: "FileDataFetcher \<Rightarrow> FileDataFetcher \<Rightarrow> bool" where
  "sched_frame f f' \<longleftrightarrow> waitTimer f' = waitTimer f \<and> timeoutTimer f' = timeoutTimer f \<and>
     waittime f' = waittime f \<and> announces f' = announces f \<and> (\<forall>p. mhas (requests f) p \<longrightarrow> mhas (requests f') p)"

subsection \<open>Nested maps\<close>

lemma tracks_Nil [simp]: "\<not> tracks [] p h"
  by (simp add: tracks_def)

lemma tracks_addMeta [simp]: "tracks (addMeta k h v m) k' h' \<longleftrightarrow> (k' = k \<and> h' = h) \<or> tracks m k' h'"
  by (auto simp: tracks_def addMeta_def mhas_def mget_Cons split: option.splits if_splits)

lemma tracks_delMeta [simp]: "tracks (delMeta k h m) k' h' \<longleftrightarrow> tracks m k' h' \<and> \<not> (k' = k \<and> h' = h)"
proof (cases "mget m k")
  case None
  then show ?thesis by (auto simp: tracks_def delMeta_def)
next
  case (Some x)
  show ?thesis
  proof (cases "mlen (mdel h x) = 0")
    case True
    then have "j \<noteq> h \<Longrightarrow> mget x j = None" for j
      using mlen_0_iff [of "mdel h x"] mget_mdel [of h x j] by metis
    with True Some show ?thesis by (auto simp: tracks_def delMeta_def mhas_def)
  next
    case False
    with Some show ?thesis by (auto simp: tracks_def delMeta_def mhas_def)
  qed
qed

lemma tracks_foldl_delMeta:
  "tracks (foldl (\<lambda>m peer. delMeta peer h m) m ks) k h' \<longleftrightarrow> tracks m k h' \<and> \<not> (k \<in> set ks \<and> h' = h)"
  by (induction ks arbitrary: m) auto

lemma tracks_forgetHash [simp]: "tracks (forgetHash h m) k h' \<longleftrightarrow> tracks m k h' \<and> h' \<noteq> h"
proof -
  have "tracks m k h' \<Longrightarrow> k \<in> set (mkeys m)" by (auto simp: tracks_def set_mkeys split: option.splits)
  then show ?thesis unfolding forgetHash_def tracks_foldl_delMeta by blast
qed

lemma nonNil_mput [simp]: "nonNil (mput k v m) j = (if j = k then v else nonNil m j)"
  by (simp add: nonNil_def split: option.split)

lemma nonNil_mdel [simp]: "nonNil (mdel k m) j = (if j = k then None else nonNil m j)"
  by (simp add: nonNil_def)

lemma mhas_mput [simp]: "mhas (mput k v m) j \<longleftrightarrow> j = k \<or> mhas m j"
  by (simp add: mhas_def)

lemma mhas_mdel [simp]: "mhas (mdel k m) j \<longleftrightarrow> j \<noteq> k \<and> mhas m j"
  by (simp add: mhas_def)

lemma mhas_Nil [simp]: "\<not> mhas [] k"
  by (simp add: mhas_def)

lemma nonNil_mhas: "nonNil m k = Some s \<Longrightarrow> mget m k = Some (Some s) \<and> mhas m k"
  by (auto simp: nonNil_def mhas_def split: option.splits)

lemma mlen_pos_iff: "mlen m > 0 \<longleftrightarrow> (\<exists>k. mhas m k)"
  using mlen_0_iff [of m] by (auto simp: mhas_def)

lemma mlen_zero_iff: "mlen m = 0 \<longleftrightarrow> (\<forall>k. \<not> mhas m k)"
  using mlen_0_iff [of m] by (auto simp: mhas_def)

lemma pending_Nil [simp]: "\<not> pending [] p h"
  by (simp add: pending_def)

lemma pending_mput:
  "pending (mput q r rq) p h \<longleftrightarrow> (if p = q then h \<in> set (r_hashes r) \<and> \<not> mhas (r_stolen r) h else pending rq p h)"
  by (auto simp: pending_def)

lemma pending_mdel: "pending (mdel q rq) p h \<longleftrightarrow> p \<noteq> q \<and> pending rq p h"
  by (auto simp: pending_def)

lemma pending_mhas: "pending rq p h \<Longrightarrow> mhas rq p"
  by (auto simp: pending_def mhas_def)

lemma track_ok_announced:
  "track_ok wl an al fe \<Longrightarrow> nonNil an h = None \<longleftrightarrow> \<not> mhas an h"
  by (fastforce simp: track_ok_def nonNil_def mhas_def split: option.splits)

subsection \<open>Timers and loops\<close>

lemma rescheduleWait_frame [simp]:
  "waitlist (rescheduleWait now ord f) = waitlist f" "waittime (rescheduleWait now ord f) = waittime f"
  "waitslots (rescheduleWait now ord f) = waitslots f" "announces (rescheduleWait now ord f) = announces f"
  "announced (rescheduleWait now ord f) = announced f" "fetching (rescheduleWait now ord f) = fetching f"
  "requests (rescheduleWait now ord f) = requests f" "alternates (rescheduleWait now ord f) = alternates f"
  "waitTimer (rescheduleWait now ord f) \<noteq> None" "timeoutTimer (rescheduleWait now ord f) = timeoutTimer f"
  by (simp_all add: rescheduleWait_def Let_def)

lemma rescheduleTimeout_frame [simp]:
  "waitlist (rescheduleTimeout now ord f) = waitlist f" "waittime (rescheduleTimeout now ord f) = waittime f"
  "waitslots (rescheduleTimeout now ord f) = waitslots f" "announces (rescheduleTimeout now ord f) = announces f"
  "announced (rescheduleTimeout now ord f) = announced f" "fetching (rescheduleTimeout now ord f) = fetching f"
  "requests (rescheduleTimeout now ord f) = requests f" "alternates (rescheduleTimeout now ord f) = alternates f"
  "waitTimer (rescheduleTimeout now ord f) = waitTimer f" "timeoutTimer (rescheduleTimeout now ord f) \<noteq> None"
  by (simp_all add: rescheduleTimeout_def Let_def)

lemma reschedule_armed [simp]:
  "\<exists>t. waitTimer (rescheduleWait now ord f) = Some t" "\<exists>t. timeoutTimer (rescheduleTimeout now ord' f) = Some t"
  by (simp_all add: rescheduleWait_def rescheduleTimeout_def Let_def)

lemma core_inv_reschedule [simp]:
  "core_inv (rescheduleWait now ord f) = core_inv f" "core_inv (rescheduleTimeout now ord' f) = core_inv f"
  by (simp_all add: core_inv_def)

lemma forEach_inv:
  assumes "\<And>s x. x \<in> set xs \<Longrightarrow> P s \<Longrightarrow> \<exists>s'. body s x = Ok s' \<and> P s'" and "P s"
  shows "\<exists>s'. forEach body s xs = Ok s' \<and> P s'"
  using assms
proof (induction xs arbitrary: s)
  case (Cons x xs)
  then obtain s' where "body s x = Ok s'" "P s'" by fastforce
  with Cons.IH [of s'] Cons.prems show ?case by simp
qed simp

lemma forEach_inv_Ok:
  assumes "forEach body s xs = Ok s'" and "P s" and "\<And>s x s'. x \<in> set xs \<Longrightarrow> P s \<Longrightarrow> body s x = Ok s' \<Longrightarrow> P s'"
  shows "P s'"
  using assms
proof (induction xs arbitrary: s)
  case (Cons x xs)
  then obtain s1 where "body s x = Ok s1" "forEach body s1 xs = Ok s'" by (cases "body s x") auto
  with Cons.IH [of s1] Cons.prems(2,3) show ?case by (metis list.set_intros)
qed simp

subsection \<open>Scheduling\<close>

lemma gather_inv_step:
  assumes inv: "gather_inv peer hs f" and new: "\<not> mhas (fetching f) h"
  shows "gather_inv peer (hs @ [h]) (f\<lparr> fetching := mput h peer (fetching f),
    alternates := mput h (nonNil (announced f) h) (alternates f), announced := mdel h (announced f) \<rparr>)"
proof -
  have none: "mget (fetching f) h = None" using new by (simp add: mhas_def)
  have t: "track_ok (waitlist f) (announced f) (alternates f) (fetching f)"
    using inv by (simp add: gather_inv_def)
  have "track_ok (waitlist f) (mdel h (announced f)) (mput h (nonNil (announced f) h) (alternates f)) (mput h peer (fetching f))"
    using t track_ok_announced [OF t, of h] unfolding track_ok_def by auto
  moreover have "h \<notin> set hs" "\<And>p. \<not> pending (requests f) p h"
    using inv none unfolding gather_inv_def by (metis option.distinct(1))+
  ultimately show ?thesis using inv none unfolding gather_inv_def by auto
qed

lemma gatherHashes_inv:
  assumes "gather_inv peer hs f" and "length hs < maxFdRetrievals"
  shows "\<exists>hs' f'. gatherHashes peer anns hs bytes f = Ok (hs', f') \<and> gather_inv peer hs' f' \<and>
    length hs' \<le> maxFdRetrievals \<and> waitTimer f' = waitTimer f \<and> timeoutTimer f' = timeoutTimer f \<and>
    waittime f' = waittime f \<and> requests f' = requests f \<and> announces f' = announces f"
  using assms
proof (induction peer anns hs bytes f rule: gatherHashes.induct)
  case (2 peer h meta rest hs bytes f)
  have alt: "mhas (alternates f) h = mhas (fetching f) h"
    using 2(4) by (simp add: gather_inv_def track_ok_def)
  show ?case
  proof (cases "mhas (fetching f) h")
    case True
    with 2 show ?thesis by simp
  next
    case False
    define f1 where "f1 = f\<lparr> fetching := mput h peer (fetching f),
      alternates := mput h (nonNil (announced f) h) (alternates f), announced := mdel h (announced f) \<rparr>"
    have inv1: "gather_inv peer (hs @ [h]) f1"
      unfolding f1_def by (rule gather_inv_step [OF 2(4) False])
    have fr: "waitTimer f1 = waitTimer f" "timeoutTimer f1 = timeoutTimer f" "waittime f1 = waittime f"
      "requests f1 = requests f" "announces f1 = announces f" by (simp_all add: f1_def)
    show ?thesis
    proof (cases "maxFdRetrievals \<le> length (hs @ [h])")
      case True
      with False alt inv1 2(5) fr show ?thesis by (simp add: f1_def [symmetric])
    next
      case small: False
      show ?thesis
      proof (cases meta)
        case None
        with False alt small 2(2) [OF _ _ f1_def refl _ None inv1] fr show ?thesis
          by (simp add: f1_def [symmetric])
      next
        case (Some sz)
        with False alt small 2(3) [OF _ _ f1_def refl _ Some refl _ inv1] inv1 fr show ?thesis
          by (simp add: f1_def [symmetric] Let_def)
      qed
    qed
  qed
qed simp

lemma core_gather: "core_inv f \<Longrightarrow> \<not> mhas (requests f) peer \<Longrightarrow> gather_inv peer [] f"
  by (simp add: core_inv_def gather_inv_def link_ok_def)

lemma gather_core:
  assumes "gather_inv peer hs f" and "length hs \<le> maxFdRetrievals"
  shows "core_inv (f\<lparr> requests := mput peer \<lparr> r_hashes = hs, r_stolen = [], r_time = now \<rparr> (requests f), fetchLog := log \<rparr>)"
  using assms pending_mhas [of "requests f" peer]
  by (auto simp: gather_inv_def core_inv_def link_ok_def req_ok_def pending_mput)

lemma gather_core_none: "gather_inv peer [] f \<Longrightarrow> core_inv f"
  by (simp add: gather_inv_def core_inv_def link_ok_def)

lemma scheduleOne_inv:
  assumes "core_inv f"
  shows "\<exists>f'. scheduleOne now oa f peer = Ok f' \<and> core_inv f' \<and> sched_frame f f'"
proof (cases "mhas (requests f) peer \<or> mget (announces f) peer = None \<or> lenOf (announces f) peer = 0")
  case True
  with assms show ?thesis
    by (auto simp: scheduleOne_def sched_frame_def lenOf_def split: option.splits)
next
  case False
  then obtain anns where anns: "mget (announces f) peer = Some anns" "mlen anns \<noteq> 0" "\<not> mhas (requests f) peer"
    by (auto simp: lenOf_def)
  from gatherHashes_inv [OF core_gather [OF assms anns(3)], of "orderedMetas anns (oa peer)" 0]
  obtain hs f1 where g: "gatherHashes peer (orderedMetas anns (oa peer)) [] 0 f = Ok (hs, f1)"
    "gather_inv peer hs f1" "length hs \<le> maxFdRetrievals"
    and fr: "waitTimer f1 = waitTimer f" "timeoutTimer f1 = timeoutTimer f" "waittime f1 = waittime f"
      "requests f1 = requests f" "announces f1 = announces f"
    by (auto simp: maxFdRetrievals_def)
  show ?thesis
  proof (cases "hs = []")
    case True
    with anns g fr gather_core_none [of peer f1] show ?thesis
      by (simp add: scheduleOne_def sched_frame_def)
  next
    case ne: False
    with anns g fr gather_core [OF g(2,3)] show ?thesis
      by (simp add: scheduleOne_def sched_frame_def)
  qed
qed

lemma sched_frame_refl [simp]: "sched_frame f f"
  by (simp add: sched_frame_def)

lemma sched_frame_trans: "sched_frame f g \<Longrightarrow> sched_frame g h \<Longrightarrow> sched_frame f h"
  by (simp add: sched_frame_def)

lemma scheduleFetches_inv:
  assumes "core_inv f"
  shows "\<exists>f'. scheduleFetches now ord whitelist f = Ok f' \<and> core_inv f' \<and>
    waittime f' = waittime f \<and> waitTimer f' = waitTimer f \<and> announces f' = announces f \<and>
    ((mlen (requests f) > 0 \<longrightarrow> timeoutTimer f \<noteq> None) \<longrightarrow> (mlen (requests f') > 0 \<longrightarrow> timeoutTimer f' \<noteq> None))"
proof -
  define xs where "xs = filter (\<lambda>p. p \<in> set (case whitelist of None \<Rightarrow> mkeys (announces f) | Some w \<Rightarrow> w)) (o_peers ord)"
  obtain f1 where f1: "forEach (scheduleOne now (o_anns ord)) f xs = Ok f1" "core_inv f1" "sched_frame f f1"
    using forEach_inv [of xs "\<lambda>s. core_inv s \<and> sched_frame f s" "scheduleOne now (o_anns ord)" f]
      scheduleOne_inv sched_frame_trans assms by (metis sched_frame_refl)
  show ?thesis
  proof (cases "length (case whitelist of None \<Rightarrow> mkeys (announces f) | Some w \<Rightarrow> w) = 0")
    case True
    with assms show ?thesis unfolding scheduleFetches_def Let_def by simp
  next
    case False
    have fr: "waittime f1 = waittime f" "waitTimer f1 = waitTimer f" "timeoutTimer f1 = timeoutTimer f" "announces f1 = announces f"
      using f1(3) by (simp_all add: sched_frame_def)
    have "scheduleFetches now ord whitelist f =
        Ok (if mlen (requests f) = 0 \<and> mlen (requests f1) > 0 then rescheduleTimeout now (o_reqs ord) f1 else f1)"
      unfolding scheduleFetches_def Let_def xs_def [symmetric] f1(1) using False by simp
    with f1(2) fr show ?thesis by auto
  qed
qed

subsection \<open>Announcements\<close>

lemma announceOne_inv:
  assumes "core_inv f"
  shows "core_inv (announceOne origin now f ann)"
proof -
  obtain h sz where ann: "ann = (h, sz)" by fastforce
  have t: "track_ok (waitlist f) (announced f) (alternates f) (fetching f)"
    and w: "wait_ok (waitlist f) (waittime f) (waitslots f)"
    using assms by (simp_all add: core_inv_def)
  show ?thesis
  proof (cases "nonNil (alternates f) h")
    case (Some s)
    have "track_ok (waitlist f) (announced f) (mput h (Some (mput origin () s)) (alternates f)) (fetching f)"
      using t nonNil_mhas [OF Some] Some unfolding track_ok_def by auto
    with Some assms show ?thesis by (simp add: ann announceOne_def core_inv_def)
  next
    case no_alt: None
    show ?thesis
    proof (cases "nonNil (announced f) h")
      case (Some s)
      have "track_ok (waitlist f) (mput h (Some (mput origin () s)) (announced f)) (alternates f) (fetching f)"
        using t nonNil_mhas [OF Some] unfolding track_ok_def by auto
      with Some no_alt assms show ?thesis by (simp add: ann announceOne_def core_inv_def)
    next
      case no_ann: None
      have t': "track_ok (mput h s (waitlist f)) (announced f) (alternates f) (fetching f)" for s
        using t no_alt no_ann track_ok_announced [OF t, of h] unfolding track_ok_def by auto
      show ?thesis
      proof (cases "mget (waitlist f) h")
        case (Some s)
        have "wait_ok (mput h (mput origin () s) (waitlist f)) (waittime f) (addMeta origin h (Some sz) (waitslots f))"
          using w Some unfolding wait_ok_def by (auto simp: mhas_def)
        with Some no_alt no_ann assms t' show ?thesis by (simp add: ann announceOne_def core_inv_def)
      next
        case None
        have "wait_ok (mput h [(origin, ())] (waitlist f)) (mput h now (waittime f)) (addMeta origin h (Some sz) (waitslots f))"
          using w None unfolding wait_ok_def by (auto simp: mhas_def mget_Cons)
        with None no_alt no_ann assms t' show ?thesis by (simp add: ann announceOne_def core_inv_def)
      qed
    qed
  qed
qed

lemma announceOne_frame [simp]:
  "waitTimer (announceOne origin now f ann) = waitTimer f" "timeoutTimer (announceOne origin now f ann) = timeoutTimer f"
  "requests (announceOne origin now f ann) = requests f"
  by (simp_all add: announceOne_def Let_def split: prod.split option.split)

lemma announceAll_inv:
  "core_inv f \<Longrightarrow> core_inv (foldl (announceOne origin now) f anns) \<and>
     waitTimer (foldl (announceOne origin now) f anns) = waitTimer f \<and>
     timeoutTimer (foldl (announceOne origin now) f anns) = timeoutTimer f \<and>
     requests (foldl (announceOne origin now) f anns) = requests f"
  by (induction anns arbitrary: f) (simp_all add: announceOne_inv)

lemma onNotify_inv:
  assumes "fetcher_inv f"
  shows "\<exists>f'. onNotify now ord ann f = Ok f' \<and> fetcher_inv f'"
proof (cases "lenOf (waitslots f) (a_origin ann) + lenOf (announces f) (a_origin ann) \<ge> maxFdAnnounces")
  case True
  with assms show ?thesis by (simp add: onNotify_def)
next
  case False
  define f1 where "f1 = foldl (announceOne (a_origin ann) now) f (announceKept f ann)"
  define f2 where "f2 = (if mlen (waittime f) = 0 \<and> mlen (waittime f1) > 0 then rescheduleWait now (o_waits ord) f1 else f1)"
  have f1: "core_inv f1" "waitTimer f1 = waitTimer f" "timeoutTimer f1 = timeoutTimer f" "requests f1 = requests f"
    using announceAll_inv [of f "a_origin ann" now "announceKept f ann"] assms
    by (simp_all add: f1_def fetcher_inv_def)
  have f2: "fetcher_inv f2"
    using f1 assms unfolding f2_def fetcher_inv_def timer_ok_def by auto
  from scheduleFetches_inv [of f2 now ord "Some [a_origin ann]"] f2
  have s: "\<exists>f'. scheduleFetches now ord (Some [a_origin ann]) f2 = Ok f' \<and> fetcher_inv f'"
    by (auto simp: fetcher_inv_def timer_ok_def)
  have eq: "onNotify now ord ann f = (if mhas (announces f) (a_origin ann) \<and> lenOf (announces f2) (a_origin ann) > 0
      then scheduleFetches now ord (Some [a_origin ann]) f2 else Ok f2)"
    using False unfolding onNotify_def Let_def f1_def [symmetric] f2_def [symmetric] by simp
  from s f2 show ?thesis unfolding eq by simp
qed

subsection \<open>The wait timer\<close>

lemma promotePeers_frame:
  "foldl (promotePeer h) (f, actives) peers = (f', actives') \<Longrightarrow>
     waitlist f' = waitlist f \<and> waittime f' = waittime f \<and> announced f' = announced f \<and> fetching f' = fetching f \<and>
     requests f' = requests f \<and> alternates f' = alternates f \<and> waitTimer f' = waitTimer f \<and> timeoutTimer f' = timeoutTimer f \<and>
     (\<forall>p h'. tracks (waitslots f') p h' \<longleftrightarrow> tracks (waitslots f) p h' \<and> \<not> (p \<in> set peers \<and> h' = h)) \<and>
     (\<forall>p h'. tracks (announces f') p h' \<longleftrightarrow> tracks (announces f) p h' \<or> (p \<in> set peers \<and> h' = h))"
proof (induction peers arbitrary: f actives)
  case (Cons p ps)
  define f1 where "f1 = f\<lparr> announces := addMeta p h (metaOf (waitslots f) p h) (announces f), waitslots := delMeta p h (waitslots f) \<rparr>"
  have "foldl (promotePeer h) (f1, mput p () actives) ps = (f', actives')"
    using Cons.prems promotePeer_def [of h "(f, actives)" p] by (simp add: f1_def Let_def)
  from Cons.IH [OF this] show ?case by (auto simp: f1_def)
qed simp

lemma promoteOne_inv:
  assumes inv: "core_inv (fst st)"
  shows "\<exists>st'. promoteOne now st h = Ok st' \<and> core_inv (fst st') \<and>
    waitTimer (fst st') = waitTimer (fst st) \<and> timeoutTimer (fst st') = timeoutTimer (fst st) \<and> requests (fst st') = requests (fst st)"
proof -
  obtain f actives where st: "st = (f, actives)" by fastforce
  have w: "wait_ok (waitlist f) (waittime f) (waitslots f)"
    and t: "track_ok (waitlist f) (announced f) (alternates f) (fetching f)"
    using inv by (simp_all add: st core_inv_def)
  show ?thesis
  proof (cases "\<exists>inst. mget (waittime f) h = Some inst \<and> (now - inst) + fdGatherSlack > fdArriveTimeout")
    case False
    with inv show ?thesis by (auto simp: st promoteOne_def split: option.splits)
  next
    case True
    then obtain inst where inst: "mget (waittime f) h = Some inst" "(now - inst) + fdGatherSlack > fdArriveTimeout" by blast
    then obtain s where s: "mget (waitlist f) h = Some s"
      using w unfolding wait_ok_def mhas_def by (metis not_None_eq)
    then have no: "nonNil (announced f) h = None" "nonNil (alternates f) h = None"
      using t track_ok_announced [OF t, of h] unfolding track_ok_def mhas_def by auto
    define f0 where "f0 = f\<lparr> announced := mput h (Some s) (announced f) \<rparr>"
    obtain f1 actives1 where f1: "foldl (promotePeer h) (f0, actives) (mkeys s) = (f1, actives1)" by fastforce
    note fr = promotePeers_frame [OF f1]
    have res: "promoteOne now st h = Ok (f1\<lparr> waittime := mdel h (waittime f1), waitlist := mdel h (waitlist f1) \<rparr>, actives1)"
      using inst no s f1 unfolding promoteOne_def st by (simp add: f0_def)
    have "\<exists>p. mhas s p" using w s by (simp add: wait_ok_def)
    then have "track_ok (mdel h (waitlist f)) (mput h (Some s) (announced f)) (alternates f) (fetching f)"
      using t no unfolding track_ok_def by auto
    moreover have "tracks (waitslots f1) p h' \<longleftrightarrow> h' \<noteq> h \<and> (\<exists>s. mget (waitlist f) h' = Some s \<and> mhas s p)" for p h'
    proof -
      have "tracks (waitslots f1) p h' \<longleftrightarrow> tracks (waitslots f) p h' \<and> \<not> (mhas s p \<and> h' = h)"
        using fr by (simp add: f0_def in_set_mkeys mhas_def)
      moreover have "tracks (waitslots f) p h' \<longleftrightarrow> (\<exists>s. mget (waitlist f) h' = Some s \<and> mhas s p)"
        using w by (simp add: wait_ok_def)
      ultimately show ?thesis using s by auto
    qed
    then have "wait_ok (mdel h (waitlist f)) (mdel h (waittime f)) (waitslots f1)"
      using w unfolding wait_ok_def by auto
    ultimately show ?thesis using res inv fr by (simp add: core_inv_def st f0_def)
  qed
qed

lemma onWaitTrigger_inv:
  assumes "fetcher_inv f"
  shows "\<exists>f'. onWaitTrigger now ord f = Ok f' \<and> fetcher_inv f'"
proof -
  let ?P = "\<lambda>st. core_inv (fst st) \<and> timeoutTimer (fst st) = timeoutTimer f \<and> requests (fst st) = requests f"
  have "\<exists>st. forEach (promoteOne now) (f\<lparr> waitTimer := None \<rparr>, []) (o_waits ord) = Ok st \<and> ?P st"
  proof (rule forEach_inv)
    show "?P (f\<lparr> waitTimer := None \<rparr>, [])" using assms by (simp add: fetcher_inv_def core_inv_def)
  next
    fix st :: "FileDataFetcher \<times> peer_set" and x
    assume st: "?P st"
    then obtain st' where "promoteOne now st x = Ok st'" "core_inv (fst st')"
      "timeoutTimer (fst st') = timeoutTimer (fst st)" "requests (fst st') = requests (fst st)"
      using promoteOne_inv [of st now x] by blast
    with st show "\<exists>st'. promoteOne now st x = Ok st' \<and> ?P st'" by (intro exI [of _ st']) simp
  qed
  then obtain st1 where st1: "forEach (promoteOne now) (f\<lparr> waitTimer := None \<rparr>, []) (o_waits ord) = Ok st1" "?P st1" by blast
  obtain f1 actives where p: "st1 = (f1, actives)" by fastforce
  have f1: "forEach (promoteOne now) (f\<lparr> waitTimer := None \<rparr>, []) (o_waits ord) = Ok (f1, actives)"
    "core_inv f1" "timeoutTimer f1 = timeoutTimer f" "requests f1 = requests f"
    using st1 by (simp_all add: p)
  define f2 where "f2 = (if mlen (waittime f1) > 0 then rescheduleWait now (o_waits ord) f1 else f1)"
  have f2: "fetcher_inv f2"
    using f1(2-4) assms unfolding f2_def fetcher_inv_def timer_ok_def by auto
  from scheduleFetches_inv [of f2 now ord "Some (mkeys actives)"] f2
  have s: "\<exists>f'. scheduleFetches now ord (Some (mkeys actives)) f2 = Ok f' \<and> fetcher_inv f'"
    by (auto simp: fetcher_inv_def timer_ok_def)
  have eq: "onWaitTrigger now ord f = (if mlen actives > 0 then scheduleFetches now ord (Some (mkeys actives)) f2 else Ok f2)"
    unfolding onWaitTrigger_def f1(1) bind_outcome.simps prod.case Let_def f2_def [symmetric] ..
  from s f2 show ?thesis unfolding eq by simp
qed

subsection \<open>Deliveries\<close>

lemma deliverOne_inv:
  assumes inv: "deliver_inv origin direct f"
  shows "\<exists>f'. deliverOne origin direct f dlv = Ok f' \<and> deliver_inv origin direct f' \<and>
    waitTimer f' = waitTimer f \<and> timeoutTimer f' = timeoutTimer f \<and>
    (\<forall>k. mhas (waittime f') k \<longrightarrow> mhas (waittime f) k) \<and> (\<forall>p. mhas (requests f') p = mhas (requests f) p)"
proof -
  obtain h sz where dlv: "dlv = (h, sz)" by fastforce
  have w: "wait_ok (waitlist f) (waittime f) (waitslots f)"
    and t: "track_ok (waitlist f) (announced f) (alternates f) (fetching f)"
    and r: "req_ok (requests f)"
    using inv by (simp_all add: deliver_inv_def)
  show ?thesis
  proof (cases "mhas (waitlist f) h")
    case True
    have "wait_ok (mdel h (waitlist f)) (mdel h (waittime f)) (forgetHash h (waitslots f))"
      using w unfolding wait_ok_def by auto
    moreover have "track_ok (mdel h (waitlist f)) (announced f) (alternates f) (fetching f)"
      using t unfolding track_ok_def by auto
    ultimately show ?thesis using True inv by (simp add: deliverOne_def dlv deliver_inv_def)
  next
    case False
    define f1 where "f1 = f\<lparr> dropLog := dropLog f @ droppedPeers h sz (announces f), announces := forgetHash h (announces f),
      announced := mdel h (announced f), alternates := mdel h (alternates f) \<rparr>"
    have t1: "track_ok (waitlist f) (mdel h (announced f)) (mdel h (alternates f)) (mdel h (fetching f))"
      using t unfolding track_ok_def by auto
    show ?thesis
    proof (cases "mget (fetching f) h")
      case None
      then have "mdel h (fetching f) = fetching f" by (rule mdel_absent)
      with None False inv t1 w show ?thesis
        by (simp add: deliverOne_def dlv deliver_inv_def Let_def)
    next
      case (Some src)
      then have pend: "pending (requests f) src h" using inv by (simp add: deliver_inv_def)
      show ?thesis
      proof (cases "src \<noteq> origin \<or> \<not> direct")
        case True
        from pend obtain req where req: "mget (requests f) src = Some req" "h \<in> set (r_hashes req)" "\<not> mhas (r_stolen req) h"
          by (auto simp: pending_def)
        define rq where "rq = mput src (req\<lparr> r_stolen := mput h () (r_stolen req) \<rparr>) (requests f)"
        have p: "pending rq p h' \<longleftrightarrow> pending (requests f) p h' \<and> \<not> (p = src \<and> h' = h)" for p h'
          using req by (auto simp: rq_def pending_mput pending_def)
        have "req_ok rq" using r req unfolding req_ok_def rq_def by (auto split: if_splits)
        moreover have "pending rq p h'" if "mget (mdel h (fetching f)) h' = Some p" for h' p
          using that inv p [of p h'] by (auto simp: deliver_inv_def split: if_splits)
        moreover have "mget (mdel h (fetching f)) h' = Some p \<or> (direct \<and> p = origin \<and> mget (mdel h (fetching f)) h' = None)"
          if "pending rq p h'" for h' p
        proof (cases "h' = h")
          case True
          with that p have "pending (requests f) p h" "p \<noteq> src" by auto
          with inv Some show ?thesis unfolding deliver_inv_def by (metis option.distinct(1) option.inject)
        next
          case False
          with that p inv show ?thesis unfolding deliver_inv_def by auto
        qed
        ultimately have "deliver_inv origin direct (f1\<lparr> requests := rq, fetching := mdel h (fetching f) \<rparr>)"
          using w t1 by (simp add: deliver_inv_def f1_def)
        moreover have "deliverOne origin direct f dlv = Ok (f1\<lparr> requests := rq, fetching := mdel h (fetching f) \<rparr>)"
          using True Some False req by (simp add: deliverOne_def dlv f1_def rq_def Let_def)
        moreover have "mhas rq p = mhas (requests f) p" for p
          using req by (auto simp: rq_def mhas_def)
        ultimately show ?thesis by (simp add: f1_def)
      next
        case self: False
        have "mget (mdel h (fetching f)) h' = Some p \<or> (direct \<and> p = origin \<and> mget (mdel h (fetching f)) h' = None)"
          if "pending (requests f) p h'" for h' p
        proof (cases "h' = h")
          case True
          with that inv Some have "p = src" unfolding deliver_inv_def by (metis option.distinct(1) option.inject)
          with self True show ?thesis by simp
        next
          case False
          with that inv show ?thesis by (simp add: deliver_inv_def)
        qed
        then have "deliver_inv origin direct (f1\<lparr> fetching := mdel h (fetching f) \<rparr>)"
          using inv w t1 by (simp add: deliver_inv_def f1_def)
        moreover have "deliverOne origin direct f dlv = Ok (f1\<lparr> fetching := mdel h (fetching f) \<rparr>)"
          using self Some False by (simp add: deliverOne_def dlv f1_def Let_def)
        ultimately show ?thesis by (simp add: f1_def)
      qed
    qed
  qed
qed

subsection \<open>Winding up a request\<close>

lemma track_ok_forget: "track_ok wl an al fe \<Longrightarrow> track_ok wl an (mdel h al) (mdel h fe)"
  by (auto simp: track_ok_def)

lemma track_ok_forget_announced: "track_ok wl an al fe \<Longrightarrow> track_ok wl (mdel h an) (mdel h al) (mdel h fe)"
  by (auto simp: track_ok_def)

lemma track_ok_requeue:
  assumes "track_ok wl an al fe" and "nonNil al h = Some s0" and "mhas s p"
  shows "track_ok wl (mput h (Some s) an) (mdel h al) (mdel h fe)"
  using assms by (auto simp: track_ok_def)

lemma track_ok_alternate:
  assumes "track_ok wl an al fe" and "nonNil al h = Some s0"
  shows "track_ok wl an (mput h (Some s) al) fe"
  using assms nonNil_mhas [of al h s0] by (auto simp: track_ok_def)

lemma link_upto_step:
  assumes "link_upto peer rem fe rq" and "h \<in> rem"
  shows "link_upto peer (rem - {h}) (mdel h fe) rq"
proof -
  have "\<not> pending rq p h" if "p \<noteq> peer" for p
    using assms that unfolding link_upto_def by (metis insert_iff option.distinct(1) option.inject singletonD)
  with assms show ?thesis unfolding link_upto_def by auto
qed

lemma link_upto_start:
  assumes "mget rq peer = Some r"
    and "\<And>h p. p \<noteq> peer \<Longrightarrow> mget fe h = Some p \<longleftrightarrow> pending rq p h"
    and "\<And>h. mget fe h = Some peer \<Longrightarrow> pending rq peer h"
    and "\<And>h. pending rq peer h \<Longrightarrow> mget fe h = None \<or> mget fe h = Some peer"
  shows "link_upto peer {h \<in> set (r_hashes r). \<not> mhas (r_stolen r) h} fe rq"
  using assms by (auto simp: link_upto_def pending_def)

lemma link_upto_done:
  assumes "link_upto peer {} fe rq"
  shows "link_ok fe (mdel peer rq)" and "link_ok fe (mput peer (r\<lparr> r_hashes := [] \<rparr>) rq)"
proof -
  have "mget fe h = Some p \<longleftrightarrow> p \<noteq> peer \<and> pending rq p h" for h p
    using assms by (cases "p = peer") (simp_all add: link_upto_def)
  then show "link_ok fe (mdel peer rq)" "link_ok fe (mput peer (r\<lparr> r_hashes := [] \<rparr>) rq)"
    by (auto simp: link_ok_def pending_mdel pending_mput)
qed

lemma link_upto_mdel: "link_upto peer rem fe (mdel peer rq) = link_upto peer rem fe rq"
  by (auto simp: link_upto_def pending_mdel)

lemma windup_loop:
  assumes step: "\<And>x f f'. x \<in> set xs \<Longrightarrow> \<not> skip (key x) \<Longrightarrow> fetch_track f \<Longrightarrow> body f x = Ok f' \<Longrightarrow> windup_step f f' (key x)"
    and skips: "\<And>x f. skip (key x) \<Longrightarrow> body f x = Ok f"
    and dist: "distinct (map key xs)"
    and inv: "windup_inv peer {h \<in> key ` set xs. \<not> skip h} f0 f"
    and res: "forEach body f xs = Ok f'"
  shows "windup_inv peer {} f0 f'"
  using assms
proof (induction xs arbitrary: f)
  case (Cons x xs)
  let ?rem = "\<lambda>ys. {h \<in> key ` set ys. \<not> skip h}"
  show ?case
  proof (cases "skip (key x)")
    case True
    then have "?rem (x # xs) = ?rem xs" by auto
    with Cons True show ?thesis by simp
  next
    case False
    obtain f1 where f1: "body f x = Ok f1" "forEach body f1 xs = Ok f'"
      using Cons.prems(5) by (cases "body f x") auto
    then have w: "windup_step f f1 (key x)"
      using Cons.prems(1) [of x f f1] Cons.prems(4) False by (simp add: windup_inv_def fetch_track_def)
    have "?rem (x # xs) - {key x} = ?rem xs" using Cons.prems(3) by (auto simp: image_iff)
    then have "link_upto peer (?rem xs) (fetching f1) (requests f0)"
      using link_upto_step [of peer "?rem (x # xs)" "fetching f" "requests f0" "key x"] Cons.prems(4) False w
      by (simp add: windup_inv_def windup_step_def)
    with Cons.prems(4) w have "windup_inv peer (?rem xs) f0 f1"
      unfolding windup_inv_def windup_step_def fetch_track_def by metis
    with Cons.prems f1(2) show ?thesis by (intro Cons.IH [of f1]) auto
  qed
qed simp

lemma core_windup:
  assumes "core_inv f" and "mget (requests f) peer = Some r"
  shows "windup_inv peer {h \<in> set (r_hashes r). \<not> mhas (r_stolen r) h} f f"
  using assms link_upto_start [OF assms(2), of "fetching f"]
  by (auto simp: core_inv_def windup_inv_def link_ok_def)

lemma windup_core:
  assumes "windup_inv peer {} f0 f" and "req_ok (requests f0)"
  shows "core_inv (f\<lparr> requests := mdel peer (requests f) \<rparr>)"
    and "mget (requests f0) peer = Some r \<Longrightarrow> core_inv (f\<lparr> requests := mput peer (r\<lparr> r_hashes := [] \<rparr>) (requests f) \<rparr>)"
  using assms link_upto_done [of peer "fetching f" "requests f0"]
  by (auto simp: windup_inv_def core_inv_def req_ok_def split: if_splits)

subsection \<open>Timeouts\<close>

lemma timeoutHash_step:
  assumes "timeoutHash peer req f h = Ok f'" and "\<not> mhas (r_stolen req) h" and "fetch_track f"
  shows "windup_step f f' h"
proof -
  have no: "\<not> mhas (announced f) h" and t: "track_ok (waitlist f) (announced f) (alternates f) (fetching f)"
    using assms by (auto simp: timeoutHash_def fetch_track_def split: if_splits)
  show ?thesis
  proof (cases "nonNil (alternates f) h")
    case None
    have "nonNil (announced f) h = None" using track_ok_announced [OF t] no by simp
    with None assms no track_ok_forget_announced [OF t, of h] show ?thesis
      by (auto simp: timeoutHash_def windup_step_def fetch_track_def)
  next
    case (Some s)
    show ?thesis
    proof (cases "mlen (mdel peer s) = 0")
      case True
      have "track_ok (waitlist f) (mdel h (mput h (Some (mdel peer s)) (announced f))) (mdel h (alternates f)) (mdel h (fetching f))"
        using t by (auto simp: track_ok_def)
      with True Some assms no show ?thesis
        by (auto simp: timeoutHash_def windup_step_def fetch_track_def)
    next
      case False
      then obtain p where "mhas (mdel peer s) p" by (auto simp: mlen_zero_iff)
      from track_ok_requeue [OF t Some this] False Some assms no show ?thesis
        by (auto simp: timeoutHash_def windup_step_def fetch_track_def)
    qed
  qed
qed

lemma timeoutOne_inv:
  assumes "core_inv f" and "timeoutOne now f peer = Ok f'"
  shows "core_inv f' \<and> waittime f' = waittime f \<and> waitTimer f' = waitTimer f"
proof (cases "\<exists>r. mget (requests f) peer = Some r \<and> (now - r_time r) + 100 * 1000000 > fdFetchTimeout")
  case False
  with assms show ?thesis by (auto simp: timeoutOne_def split: option.splits if_splits)
next
  case True
  then obtain r where r: "mget (requests f) peer = Some r" "(now - r_time r) + 100 * 1000000 > fdFetchTimeout" by blast
  then obtain f1 where f1: "forEach (timeoutHash peer r) f (r_hashes r) = Ok f1"
    and f': "f' = (if lenOf (announces f1) peer = 0 then f1\<lparr> announces := mdel peer (announces f1) \<rparr> else f1)
        \<lparr> requests := mput peer (r\<lparr> r_hashes := [] \<rparr>) (requests f1) \<rparr>"
    using assms(2) by (cases "forEach (timeoutHash peer r) f (r_hashes r)") (auto simp: timeoutOne_def Let_def)
  have req: "req_ok (requests f)" using assms(1) by (simp add: core_inv_def)
  have w: "windup_inv peer {} f f1"
  proof (rule windup_loop [where key = id and skip = "mhas (r_stolen r)" and body = "timeoutHash peer r" and xs = "r_hashes r" and f = f])
    show "distinct (map id (r_hashes r))" using req r by (simp add: req_ok_def)
    show "windup_inv peer {h \<in> id ` set (r_hashes r). \<not> mhas (r_stolen r) h} f f"
      using core_windup [OF assms(1) r(1)] by simp
  qed (use f1 timeoutHash_step in \<open>auto simp: timeoutHash_def\<close>)
  have fr: "waittime f1 = waittime f" "waitTimer f1 = waitTimer f" "requests f1 = requests f"
    using w by (simp_all add: windup_inv_def)
  from windup_core(2) [OF w req r(1)] show ?thesis using fr by (simp add: f' core_inv_def)
qed

text \<open>A turn that handles timeouts keeps the invariant unless it panics.\<close>

lemma onTimeoutTrigger_inv:
  assumes "fetcher_inv f" and "onTimeoutTrigger now ord f = Ok f'"
  shows "fetcher_inv f'"
proof -
  obtain f1 where f1: "forEach (timeoutOne now) (f\<lparr> timeoutTimer := None \<rparr>) (o_reqs ord) = Ok f1"
    using assms(2) unfolding onTimeoutTrigger_def
    by (cases "forEach (timeoutOne now) (f\<lparr> timeoutTimer := None \<rparr>) (o_reqs ord)") auto
  have "core_inv (f\<lparr> timeoutTimer := None \<rparr>)" using assms(1) by (simp add: fetcher_inv_def core_inv_def)
  then have inv1: "core_inv f1 \<and> waittime f1 = waittime f \<and> waitTimer f1 = waitTimer f"
    by (intro forEach_inv_Ok [OF f1, of "\<lambda>g. core_inv g \<and> waittime g = waittime f \<and> waitTimer g = waitTimer f"])
      (auto dest: timeoutOne_inv)
  then obtain f2 where f2: "scheduleFetches now ord None f1 = Ok f2" "core_inv f2" "waittime f2 = waittime f1" "waitTimer f2 = waitTimer f1"
    using scheduleFetches_inv [of f1 now ord None] by blast
  have "f' = rescheduleTimeout now (o_reqs ord) f2"
    using assms(2) by (simp add: onTimeoutTrigger_def f1 f2(1))
  with f2 inv1 assms(1) show ?thesis by (simp add: fetcher_inv_def timer_ok_def)
qed

subsection \<open>Disconnects\<close>

lemma forEach_foldl: "forEach (\<lambda>s x. Ok (g s x)) s xs = Ok (foldl g s xs)"
  by (induction xs arbitrary: s) simp_all

lemma dropHash_step:
  assumes "\<not> mhas (r_stolen request) h" and "fetch_track f"
  shows "windup_step f (dropHash peer request f h) h"
proof -
  have t: "track_ok (waitlist f) (announced f) (alternates f) (fetching f)" using assms(2) by (simp add: fetch_track_def)
  show ?thesis
  proof (cases "\<exists>s p. nonNil (alternates f) h = Some s \<and> mhas (mdel peer s) p")
    case True
    then obtain s p where s: "nonNil (alternates f) h = Some s" "mhas (mdel peer s) p" by blast
    then have "mlen (mdel peer s) \<noteq> 0" using mlen_zero_iff [of "mdel peer s"] by blast
    with track_ok_requeue [OF t s] s(1) assms(1) show ?thesis
      by (simp add: dropHash_def windup_step_def fetch_track_def)
  next
    case False
    then have "mlen (mdel peer s) = 0" if "nonNil (alternates f) h = Some s" for s
      using that mlen_zero_iff [of "mdel peer s"] by blast
    with track_ok_forget [OF t, of h] assms(1) show ?thesis
      by (auto simp: dropHash_def windup_step_def fetch_track_def split: option.splits)
  qed
qed

lemma onDrop_inv:
  assumes "fetcher_inv f"
  shows "\<exists>f'. onDrop now ord peer f = Ok f' \<and> fetcher_inv f'"
proof (cases "mget (requests f) peer")
  case None
  with assms show ?thesis by (simp add: onDrop_def)
next
  case (Some r)
  define f1 where "f1 = foldl (dropHash peer r) f (r_hashes r)"
  have req: "req_ok (requests f)" and core: "core_inv f" using assms by (simp_all add: core_inv_def fetcher_inv_def)
  have w: "windup_inv peer {} f f1"
  proof (rule windup_loop [where key = id and skip = "mhas (r_stolen r)" and body = "\<lambda>f h. Ok (dropHash peer r f h)" and xs = "r_hashes r" and f = f])
    show "distinct (map id (r_hashes r))" using req Some by (simp add: req_ok_def)
    show "windup_inv peer {h \<in> id ` set (r_hashes r). \<not> mhas (r_stolen r) h} f f"
      using core_windup [OF core Some] by simp
    show "forEach (\<lambda>f h. Ok (dropHash peer r f h)) f (r_hashes r) = Ok f1" by (simp add: forEach_foldl f1_def)
  qed (use dropHash_step in \<open>auto simp: dropHash_def\<close>)
  define f2 where "f2 = f1\<lparr> requests := mdel peer (requests f1) \<rparr>"
  have c2: "core_inv f2" unfolding f2_def by (rule windup_core(1) [OF w req])
  have fr: "waittime f2 = waittime f" "waitTimer f2 = waitTimer f" using w by (simp_all add: windup_inv_def f2_def)
  obtain f3 where f3: "scheduleFetches now ord None f2 = Ok f3" "core_inv f3" "waittime f3 = waittime f2" "waitTimer f3 = waitTimer f2"
    using scheduleFetches_inv [OF c2, of now ord None] by blast
  have "onDrop now ord peer f = Ok (rescheduleTimeout now (o_reqs ord) f3)"
    using Some f3(1) by (simp add: onDrop_def f1_def [symmetric] f2_def [symmetric] Let_def)
  with f3 fr assms show ?thesis by (simp add: fetcher_inv_def timer_ok_def)
qed

subsection \<open>Deliveries and their missing hashes\<close>

lemma missingOne_step:
  assumes "\<not> mhas (r_stolen req) h" and "fetch_track f"
  shows "\<exists>f'. missingOne origin req delivered cutoff f (i, h) = Ok f' \<and> windup_step f f' h"
proof (cases "h \<in> set delivered")
  case True
  with assms track_ok_forget [of "waitlist f" "announced f" "alternates f" "fetching f" h] show ?thesis
    by (simp add: missingOne_def windup_step_def fetch_track_def)
next
  case False
  define f1 where "f1 = (if i < cutoff then
      f\<lparr> alternates := (case nonNil (alternates f) h of None \<Rightarrow> alternates f | Some s \<Rightarrow> mput h (Some (mdel origin s)) (alternates f)),
         announces := delMeta origin h (announces f) \<rparr> else f)"
  have t: "track_ok (waitlist f1) (announced f1) (alternates f1) (fetching f1)"
    using assms(2) track_ok_alternate [of "waitlist f" "announced f" "alternates f" "fetching f" h]
    by (auto simp: f1_def fetch_track_def split: option.split)
  have fr: "fetching f1 = fetching f" "waitlist f1 = waitlist f" "waittime f1 = waittime f" "waitslots f1 = waitslots f"
    "requests f1 = requests f" "waitTimer f1 = waitTimer f" "timeoutTimer f1 = timeoutTimer f"
    by (simp_all add: f1_def)
  have eq: "missingOne origin req delivered cutoff f (i, h) =
      bind_outcome (case nonNil (alternates f1) h of None \<Rightarrow> Ok f1
        | Some s \<Rightarrow> if mlen s > 0 then if mhas (announced f1) h then Panic
                                       else Ok (f1\<lparr> announced := mput h (Some s) (announced f1) \<rparr>) else Ok f1)
        (\<lambda>f. Ok (f\<lparr> alternates := mdel h (alternates f), fetching := mdel h (fetching f) \<rparr>))"
    using assms(1) False unfolding missingOne_def prod.case Let_def f1_def [symmetric] by simp
  show ?thesis
  proof (cases "\<exists>s p. nonNil (alternates f1) h = Some s \<and> mhas s p")
    case True
    then obtain s p where s: "nonNil (alternates f1) h = Some s" "mhas s p" by blast
    then have "mlen s > 0" using mlen_pos_iff [of s] by blast
    moreover have "\<not> mhas (announced f1) h" using t s(1) unfolding track_ok_def by auto
    ultimately show ?thesis using track_ok_requeue [OF t s] s(1) fr unfolding eq
      by (simp add: windup_step_def fetch_track_def)
  next
    case False
    then have "mlen s = 0" if "nonNil (alternates f1) h = Some s" for s
      using that mlen_zero_iff [of s] by blast
    then show ?thesis using track_ok_forget [OF t, of h] fr unfolding eq
      by (auto simp: windup_step_def fetch_track_def split: option.splits)
  qed
qed

lemma missing_inv:
  assumes inv: "windup_inv origin {h \<in> set (r_hashes r). \<not> mhas (r_stolen r) h} f f" and dist: "distinct (r_hashes r)"
  shows "\<exists>f'. forEach (missingOne origin r delivered cutoff) f (zip [0..<length (r_hashes r)] (r_hashes r)) = Ok f' \<and>
    windup_inv origin {} f f'"
proof -
  let ?xs = "zip [0..<length (r_hashes r)] (r_hashes r)"
  let ?body = "missingOne origin r delivered cutoff"
  have snd: "map snd ?xs = r_hashes r" by simp
  have keys: "snd ` set ?xs = set (r_hashes r)"
    using arg_cong [OF snd, of set] by (simp only: set_map)
  have skip: "?body g x = Ok g" if "mhas (r_stolen r) (snd x)" for g x
    using that by (cases x) (simp add: missingOne_def)
  have step: "\<exists>g'. ?body g x = Ok g' \<and> windup_step g g' (snd x)" if "\<not> mhas (r_stolen r) (snd x)" "fetch_track g" for g x
    using missingOne_step [OF that, of origin delivered cutoff "fst x"] by simp
  have "\<exists>f'. forEach ?body f ?xs = Ok f' \<and> fetch_track f'"
  proof (rule forEach_inv)
    fix g x assume "fetch_track g"
    then show "\<exists>g'. ?body g x = Ok g' \<and> fetch_track g'"
      using skip [of x g] step [of x g] by (cases "mhas (r_stolen r) (snd x)") (auto simp: windup_step_def)
  qed (use inv in \<open>simp add: windup_inv_def fetch_track_def\<close>)
  then obtain f' where f': "forEach ?body f ?xs = Ok f'" by blast
  have "windup_inv origin {} f f'"
  proof (rule windup_loop [where key = snd and skip = "mhas (r_stolen r)" and body = ?body and xs = ?xs and f = f])
    show "windup_inv origin {h \<in> snd ` set ?xs. \<not> mhas (r_stolen r) h} f f" using inv by (simp add: keys)
    show "distinct (map snd ?xs)" using dist by simp
    show "windup_step g g' (snd x)" if "\<not> mhas (r_stolen r) (snd x)" "fetch_track g" "?body g x = Ok g'" for x g g'
      using step [OF that(1,2)] that(3) by auto
  qed (use f' skip in auto)
  with f' show ?thesis by blast
qed

lemma onCleanup_inv:
  assumes "fetcher_inv f"
  shows "\<exists>f'. onCleanup now ord delivery f = Ok f' \<and> fetcher_inv f'"
proof -
  let ?o = "d_origin delivery" and ?d = "d_direct delivery"
  let ?P = "\<lambda>g. deliver_inv ?o ?d g \<and> waitTimer g = waitTimer f \<and> timeoutTimer g = timeoutTimer f \<and>
    (\<forall>k. mhas (waittime g) k \<longrightarrow> mhas (waittime f) k) \<and> (\<forall>p. mhas (requests g) p = mhas (requests f) p)"
  have "\<exists>g. forEach (deliverOne ?o ?d) f (zip (d_hashes delivery) (d_metas delivery)) = Ok g \<and> ?P g"
  proof (rule forEach_inv)
    show "?P f" using assms by (auto simp: fetcher_inv_def core_inv_def deliver_inv_def link_ok_def)
    fix g x assume "?P g"
    then show "\<exists>g'. deliverOne ?o ?d g x = Ok g' \<and> ?P g'" using deliverOne_inv [of ?o ?d g x] by fastforce
  qed
  then obtain g where g: "forEach (deliverOne ?o ?d) f (zip (d_hashes delivery) (d_metas delivery)) = Ok g" "?P g" by blast
  have tg: "mlen (waittime g) > 0 \<longrightarrow> waitTimer g \<noteq> None" "mlen (requests g) > 0 \<longrightarrow> timeoutTimer g \<noteq> None"
    using g(2) assms by (auto simp: fetcher_inv_def timer_ok_def mlen_pos_iff)
  show ?thesis
  proof (cases "?d \<and> mhas (requests g) ?o")
    case False
    have "mget (fetching g) h = Some p \<longleftrightarrow> pending (requests g) p h" for h p
      using False g(2) pending_mhas [of "requests g" p h] unfolding deliver_inv_def by blast
    then have "core_inv g" using g(2) by (simp add: deliver_inv_def core_inv_def link_ok_def)
    moreover have "onCleanup now ord delivery f = Ok g"
      using g(1) False by (auto simp: onCleanup_def mhas_def)
    ultimately show ?thesis using tg by (simp add: fetcher_inv_def timer_ok_def)
  next
    case True
    then obtain r where r: "mget (requests g) ?o = Some r" by (auto simp: mhas_def)
    define g1 where "g1 = g\<lparr> requests := mdel ?o (requests g) \<rparr>"
    have "link_upto ?o {h \<in> set (r_hashes r). \<not> mhas (r_stolen r) h} (fetching g) (requests g)"
      using g(2) by (intro link_upto_start [OF r]) (auto simp: deliver_inv_def)
    then have "windup_inv ?o {h \<in> set (r_hashes r). \<not> mhas (r_stolen r) h} g1 g1"
      using g(2) by (simp add: windup_inv_def g1_def deliver_inv_def link_upto_mdel)
    moreover have "distinct (r_hashes r)" using g(2) r by (simp add: deliver_inv_def req_ok_def)
    ultimately obtain g2 where g2: "forEach (missingOne ?o r (d_hashes delivery) (cutoffOf (d_hashes delivery) (r_hashes r))) g1
        (zip [0..<length (r_hashes r)] (r_hashes r)) = Ok g2" "windup_inv ?o {} g1 g2"
      using missing_inv by blast
    have "req_ok (mdel ?o (requests g))" using g(2) by (auto simp: deliver_inv_def req_ok_def split: if_splits)
    then have c2: "core_inv g2"
      using g2(2) link_upto_done(1) [of ?o "fetching g2" "requests g"]
      by (auto simp: windup_inv_def core_inv_def g1_def link_upto_mdel)
    have fr: "waittime g2 = waittime g" "waitTimer g2 = waitTimer g" "timeoutTimer g2 = timeoutTimer g"
      "requests g2 = mdel ?o (requests g)"
      using g2(2) by (simp_all add: windup_inv_def g1_def)
    have t2: "mlen (requests g2) > 0 \<longrightarrow> timeoutTimer g2 \<noteq> None"
      using tg(2) fr by (auto simp: mlen_pos_iff)
    obtain f' where f': "scheduleFetches now ord None g2 = Ok f'" "core_inv f'" "waittime f' = waittime g2" "waitTimer f' = waitTimer g2"
      "mlen (requests f') > 0 \<longrightarrow> timeoutTimer f' \<noteq> None"
      using scheduleFetches_inv [OF c2, of now ord None] t2 by metis
    have "onCleanup now ord delivery f = Ok f'"
      using True unfolding onCleanup_def g(1) bind_outcome.simps r option.case Let_def g1_def [symmetric] g2(1) f'(1) by simp
    with f' fr tg show ?thesis by (auto simp: fetcher_inv_def timer_ok_def)
  qed
qed

subsection \<open>Reachable states\<close>

lemma fetcher_inv_start: "fetcher_inv NewFdFetcher"
  by (simp add: fetcher_inv_def core_inv_def NewFdFetcher_def wait_ok_def track_ok_def link_ok_def req_ok_def timer_ok_def)

lemma fetcher_handle_inv:
  assumes "fetcher_inv f" and "fetcher_handle now ord ev f = Ok f'"
  shows "fetcher_inv f'"
proof (cases ev)
  case (EvNotify ann)
  with assms onNotify_inv [OF assms(1), of now ord ann] show ?thesis by auto
next
  case EvWaitTrigger
  with assms onWaitTrigger_inv [OF assms(1), of now ord] show ?thesis by auto
next
  case EvTimeoutTrigger
  with assms onTimeoutTrigger_inv [OF assms(1), of now ord f'] show ?thesis by simp
next
  case (EvCleanup delivery)
  with assms onCleanup_inv [OF assms(1), of now ord delivery] show ?thesis by auto
next
  case (EvDrop peer)
  with assms onDrop_inv [OF assms(1), of now ord peer] show ?thesis by auto
qed

lemma fetcher_reach_inv: "fetcher_reach f \<Longrightarrow> fetcher_inv f"
  by (induction rule: fetcher_reach.induct) (simp_all add: fetcher_inv_start fetcher_handle_inv)

text \<open>
  C1: in every reachable state of the fetcher, a hash is being fetched from a peer exactly
  when that peer's outstanding request contains it and nobody else delivered it (so never
  from two peers at once); a request holds at most 256 distinct hashes; the waiting list
  and the per-peer slots describe the same announcements; and the wait timer is armed
  while a hash is waiting, the timeout timer while a request is outstanding.
\<close>

theorem fetcher_reachable_state:
  assumes "fetcher_reach f"
  shows "(\<forall>h p. mget (fetching f) h = Some p \<longleftrightarrow>
        (\<exists>r. mget (requests f) p = Some r \<and> h \<in> set (r_hashes r) \<and> \<not> mhas (r_stolen r) h)) \<and>
     (\<forall>p r. mget (requests f) p = Some r \<longrightarrow> length (r_hashes r) \<le> 256 \<and> distinct (r_hashes r)) \<and>
     (\<forall>p h. tracks (waitslots f) p h \<longleftrightarrow> (\<exists>s. mget (waitlist f) h = Some s \<and> mhas s p)) \<and>
     (mlen (waittime f) > 0 \<longrightarrow> waitTimer f \<noteq> None) \<and> (mlen (requests f) > 0 \<longrightarrow> timeoutTimer f \<noteq> None)"
  using fetcher_reach_inv [OF assms]
  by (simp add: fetcher_inv_def core_inv_def wait_ok_def link_ok_def pending_def req_ok_def timer_ok_def maxFdRetrievals_def)

theorem fetcher_reachable_state_witness:
  "\<exists>f. fetcher_reach f \<and> mhas (waitlist f) 1 \<and> waitTimer f \<noteq> None"
proof -
  define ord where "ord = \<lparr> o_peers = [''a''], o_anns = (\<lambda>_. [1]), o_reqs = [''a''], o_waits = [1] \<rparr>"
  define ann where "ann = \<lparr> a_origin = ''a'', a_hashes = [1], a_metas = [100] \<rparr>"
  obtain f where f: "onNotify 0 ord ann NewFdFetcher = Ok f" using onNotify_inv [OF fetcher_inv_start] by blast
  then have r: "fetcher_reach f"
    using fetcher_reach.Step [OF fetcher_reach.Start, of 0 ord "EvNotify ann" f] by simp
  have w: "mhas (waitlist f) 1" "mlen (waittime f) > 0"
    using f by (auto simp: onNotify_def ord_def ann_def NewFdFetcher_def announceKept_def announceOne_def lenOf_def
      maxFdAnnounces_def nonNil_def mlen_pos_iff Let_def)
  with fetcher_reachable_state [OF r] r show ?thesis by blast
qed

text \<open>
  C5: in every reachable state every turn of the loop except a timeout completes: the
  panics "announce tracker already contains waitlist item", "alternate tracker already
  contains fetching item" and the one in the delivery case are unreachable, and a stolen
  delivery never dereferences a missing request.
\<close>

theorem fetcher_panics_only_on_timeout:
  assumes "fetcher_reach f" and "ev \<noteq> EvTimeoutTrigger"
  shows "\<exists>f'. fetcher_handle now ord ev f = Ok f'"
proof (cases ev)
  case (EvNotify ann)
  then show ?thesis using onNotify_inv [OF fetcher_reach_inv [OF assms(1)], of now ord ann] by auto
next
  case EvWaitTrigger
  then show ?thesis using onWaitTrigger_inv [OF fetcher_reach_inv [OF assms(1)], of now ord] by auto
next
  case (EvCleanup delivery)
  then show ?thesis using onCleanup_inv [OF fetcher_reach_inv [OF assms(1)], of now ord delivery] by auto
next
  case (EvDrop peer)
  then show ?thesis using onDrop_inv [OF fetcher_reach_inv [OF assms(1)], of now ord peer] by auto
qed (use assms(2) in simp)

theorem fetcher_panics_only_on_timeout_witness:
  "\<exists>f'. fetcher_handle 0 \<lparr> o_peers = [], o_anns = (\<lambda>_. []), o_reqs = [], o_waits = [] \<rparr> (EvDrop ''a'') NewFdFetcher = Ok f'"
  by (rule fetcher_panics_only_on_timeout [OF fetcher_reach.Start]) simp

subsection \<open>The timeouts that panic\<close>

lemma timeoutHash_cases:
  "timeoutHash p r f h = Panic \<longleftrightarrow> \<not> mhas (r_stolen r) h \<and> mhas (announced f) h"
  "timeoutHash p r f h \<noteq> Err e"
  "timeoutHash p r f h = Ok f' \<Longrightarrow> (k \<noteq> h \<or> mhas (r_stolen r) h) \<Longrightarrow> mhas (announced f') k = mhas (announced f) k"
  "timeoutHash p r f h = Ok f' \<Longrightarrow> requests f' = requests f"
  by (auto simp: timeoutHash_def Let_def split: if_splits option.splits)

lemma forEach_timeoutHash:
  assumes "distinct hs"
  shows "(forEach (timeoutHash p r) f hs = Panic \<longleftrightarrow> (\<exists>h\<in>set hs. \<not> mhas (r_stolen r) h \<and> mhas (announced f) h)) \<and>
    forEach (timeoutHash p r) f hs \<noteq> Err e \<and>
    (\<forall>f'. forEach (timeoutHash p r) f hs = Ok f' \<longrightarrow> requests f' = requests f \<and>
       (\<forall>k. k \<notin> set hs \<or> mhas (r_stolen r) k \<longrightarrow> mhas (announced f') k = mhas (announced f) k))"
  using assms
proof (induction hs arbitrary: f)
  case (Cons h hs)
  show ?case
  proof (cases "timeoutHash p r f h")
    case (Ok f1)
    note c = timeoutHash_cases(3,4) [OF Ok]
    have "\<not> (\<not> mhas (r_stolen r) h \<and> mhas (announced f) h)" using Ok timeoutHash_cases(1) [of p r f h] by auto
    moreover have "mhas (announced f1) k = mhas (announced f) k" if "k \<in> set hs" for k
      using c(1) [of k] that Cons.prems by auto
    moreover have "mhas (announced f1) k = mhas (announced f) k" if "k \<notin> set (h # hs) \<or> mhas (r_stolen r) k" for k
      using c(1) [of k] that by (cases "k = h") auto
    ultimately show ?thesis using Ok c(2) Cons.IH [of f1] Cons.prems by auto
  next
    case Panic
    then show ?thesis using timeoutHash_cases(1) [of p r f h] by auto
  qed (use timeoutHash_cases(2) in blast)
qed simp

lemma timeoutOne_doomed:
  assumes inv: "core_inv f"
  shows "timeoutOne now f p = Panic \<longleftrightarrow> doomed now f p" and "timeoutOne now f p \<noteq> Err e"
    and "timeoutOne now f p = Ok f' \<Longrightarrow> doomed now f' q \<longleftrightarrow> doomed now f q"
proof -
  have "(timeoutOne now f p = Panic \<longleftrightarrow> doomed now f p) \<and> timeoutOne now f p \<noteq> Err e \<and>
    (timeoutOne now f p = Ok f' \<longrightarrow> (doomed now f' q \<longleftrightarrow> doomed now f q))"
  proof (cases "\<exists>r. mget (requests f) p = Some r \<and> (now - r_time r) + 100 * 1000000 > fdFetchTimeout")
    case False
    then show ?thesis by (auto simp: timeoutOne_def doomed_def split: option.splits)
  next
    case True
    then obtain r where r: "mget (requests f) p = Some r" "(now - r_time r) + 100 * 1000000 > fdFetchTimeout" by blast
    have "distinct (r_hashes r)" using inv r(1) by (auto simp: core_inv_def req_ok_def)
    note loop = forEach_timeoutHash [OF this, of p r f]
    have d: "doomed now f p \<longleftrightarrow> (\<exists>h\<in>set (r_hashes r). \<not> mhas (r_stolen r) h \<and> mhas (announced f) h)"
      using r by (auto simp: doomed_def)
    show ?thesis
    proof (cases "forEach (timeoutHash p r) f (r_hashes r)")
      case (Ok f1)
      define f2 where "f2 = (if lenOf (announces f1) p = 0 then f1\<lparr> announces := mdel p (announces f1) \<rparr> else f1)
        \<lparr> requests := mput p (r\<lparr> r_hashes := [] \<rparr>) (requests f1) \<rparr>"
      have res: "timeoutOne now f p = Ok f2" using r Ok by (simp add: timeoutOne_def f2_def Let_def)
      have fr: "requests f2 = mput p (r\<lparr> r_hashes := [] \<rparr>) (requests f)" "announced f2 = announced f1"
        using loop Ok by (simp_all add: f2_def)
      have "mhas (announced f1) h = mhas (announced f) h" if "pending (requests f) q h" "q \<noteq> p" for h
      proof -
        have "\<not> pending (requests f) p h" using that inv unfolding core_inv_def link_ok_def by (metis option.inject)
        then have "h \<notin> set (r_hashes r) \<or> mhas (r_stolen r) h" using r(1) by (auto simp: pending_def)
        with loop Ok show ?thesis by blast
      qed
      then have "doomed now f2 q \<longleftrightarrow> doomed now f q" if "q \<noteq> p"
        using that unfolding doomed_def fr pending_def by (auto 0 4)
      moreover have "\<not> doomed now f2 p" by (simp add: doomed_def fr)
      moreover have "\<not> doomed now f p" using d loop Ok by simp
      ultimately have "doomed now f2 q \<longleftrightarrow> doomed now f q" by blast
      with res \<open>\<not> doomed now f p\<close> show ?thesis by auto
    next
      case Panic
      with r loop d show ?thesis by (simp add: timeoutOne_def)
    qed (use loop in blast)
  qed
  then show "timeoutOne now f p = Panic \<longleftrightarrow> doomed now f p" "timeoutOne now f p \<noteq> Err e"
    "timeoutOne now f p = Ok f' \<Longrightarrow> doomed now f' q \<longleftrightarrow> doomed now f q" by blast+
qed

lemma forEach_timeoutOne:
  "core_inv f \<Longrightarrow> (forEach (timeoutOne now) f ps = Panic \<longleftrightarrow> (\<exists>p\<in>set ps. doomed now f p)) \<and>
    forEach (timeoutOne now) f ps \<noteq> Err e \<and> (\<forall>f'. forEach (timeoutOne now) f ps = Ok f' \<longrightarrow> core_inv f')"
proof (induction ps arbitrary: f)
  case (Cons p ps)
  show ?case
  proof (cases "timeoutOne now f p")
    case (Ok f1)
    then have "\<not> doomed now f p" using timeoutOne_doomed(1) [OF Cons.prems, of now p] by simp
    then show ?thesis
      using Ok Cons.IH [of f1] timeoutOne_inv [OF Cons.prems Ok] timeoutOne_doomed(3) [OF Cons.prems Ok] by auto
  next
    case Panic
    then show ?thesis using timeoutOne_doomed(1) [OF Cons.prems, of now p] by simp
  qed (use timeoutOne_doomed(2) [OF Cons.prems] in blast)
qed simp

lemma fetcher_run_reach: "fetcher_reach f \<Longrightarrow> fetcher_run evs f = Ok f' \<Longrightarrow> fetcher_reach f'"
proof (induction evs arbitrary: f)
  case (Cons ev evs)
  obtain now ord e where ev: "ev = (now, ord, e)" by (cases ev)
  with Cons.prems obtain f1 where "fetcher_handle now ord e f = Ok f1" "fetcher_run evs f1 = Ok f'"
    by (cases "fetcher_handle now ord e f") auto
  with Cons.IH [of f1] fetcher_reach.Step [OF Cons.prems(1)] show ?case by blast
qed simp

text \<open>
  C6: the only panic of the loop is the one of the timeout case, and it happens in a
  reachable state exactly when a hash of an overdue request, not yet delivered, is queued
  at the same time.  The witness reaches such a state: peer \<open>a\<close> announces a hash, is asked
  for it and times out; the source keeps the hash among \<open>a\<close>'s announcements, so after
  \<open>a\<close>'s request is dropped the hash is requested from \<open>a\<close> again, now without alternates.
  Peer \<open>b\<close> then announces the same hash, which moves through the waiting list into the
  queue while it is still being fetched, and the next timeout finds it queued.
\<close>

theorem timeout_panics_iff:
  assumes reach: "fetcher_reach f" and order: "set (o_reqs ord) = set (mkeys (requests f))"
  shows "fetcher_handle now ord EvTimeoutTrigger f = Panic \<longleftrightarrow>
    (\<exists>p r h. mget (requests f) p = Some r \<and> (now - r_time r) + 100 * 1000000 > fdFetchTimeout \<and>
       mget (fetching f) h = Some p \<and> mhas (announced f) h)"
proof -
  let ?f = "f\<lparr> timeoutTimer := None \<rparr>"
  have core: "core_inv ?f" and link: "link_ok (fetching f) (requests f)"
    using fetcher_reach_inv [OF reach] by (simp_all add: fetcher_inv_def core_inv_def)
  note loop = forEach_timeoutOne [OF core, of now "o_reqs ord"]
  have "fetcher_handle now ord EvTimeoutTrigger f = Panic \<longleftrightarrow> forEach (timeoutOne now) ?f (o_reqs ord) = Panic"
  proof (cases "forEach (timeoutOne now) ?f (o_reqs ord)")
    case (Ok f1)
    with loop obtain f2 where "scheduleFetches now ord None f1 = Ok f2"
      using scheduleFetches_inv [of f1 now ord None] by blast
    with Ok show ?thesis by (simp add: onTimeoutTrigger_def)
  next
    case Panic
    then show ?thesis by (simp add: onTimeoutTrigger_def)
  qed (use loop in blast)
  also have "\<dots> \<longleftrightarrow> (\<exists>p\<in>set (mkeys (requests f)). doomed now ?f p)" using loop order by simp
  also have "\<dots> \<longleftrightarrow> (\<exists>p. doomed now ?f p)" by (auto simp: doomed_def set_mkeys)
  also have "\<dots> \<longleftrightarrow> (\<exists>p r h. mget (requests f) p = Some r \<and> (now - r_time r) + 100 * 1000000 > fdFetchTimeout \<and>
       mget (fetching f) h = Some p \<and> mhas (announced f) h)"
    using link by (fastforce simp: doomed_def link_ok_def pending_def)
  finally show ?thesis .
qed

theorem timeout_panics_iff_witness:
  "\<exists>f. fetcher_reach f \<and> fetcher_handle (14 * 1000000000)
     \<lparr> o_peers = [''a'', ''b''], o_anns = (\<lambda>_. [1]), o_reqs = [''a''], o_waits = [1] \<rparr> EvTimeoutTrigger f = Panic"
proof -
  define ord where "ord = \<lparr> o_peers = [''a'', ''b''], o_anns = (\<lambda>_. [1]), o_reqs = [''a''], o_waits = [1] \<rparr>"
  define run where "run = fetcher_run
     [(0, ord, EvNotify \<lparr> a_origin = ''a'', a_hashes = [1], a_metas = [100] \<rparr>), (1000000000, ord, EvWaitTrigger),
      (7 * 1000000000, ord, EvTimeoutTrigger), (8 * 1000000000, ord, EvDrop ''a''),
      (9 * 1000000000, ord, EvNotify \<lparr> a_origin = ''b'', a_hashes = [1], a_metas = [100] \<rparr>),
      (10 * 1000000000, ord, EvWaitTrigger)] NewFdFetcher"
  have "case run of Ok f \<Rightarrow> mkeys (requests f) = [''a''] \<and> mget (fetching f) 1 = Some ''a'' \<and> mhas (announced f) 1 \<and>
      mget (requests f) ''a'' = Some \<lparr> r_hashes = [1], r_stolen = [], r_time = 8 * 1000000000 \<rparr> | _ \<Rightarrow> False"
    unfolding run_def ord_def by code_simp
  then obtain f where f: "run = Ok f" "mkeys (requests f) = [''a'']" "mget (fetching f) 1 = Some ''a''" "mhas (announced f) 1"
    "mget (requests f) ''a'' = Some \<lparr> r_hashes = [1], r_stolen = [], r_time = 8 * 1000000000 \<rparr>" by (cases run) auto
  have reach: "fetcher_reach f" using fetcher_run_reach [OF fetcher_reach.Start] f(1) unfolding run_def by blast
  have "set (o_reqs ord) = set (mkeys (requests f))" by (simp add: f ord_def)
  from timeout_panics_iff [OF reach this, of "14 * 1000000000"] f reach show ?thesis
    unfolding ord_def by (fastforce simp: fdFetchTimeout_def)
qed

subsection \<open>Delivered hashes\<close>

lemma untracked_gather:
  assumes "gatherHashes peer anns hs bytes f = Ok (hs', f')" and "untracked h f" and "h \<notin> fst ` set anns"
  shows "untracked h f'"
  using assms
proof (induction peer anns hs bytes f arbitrary: hs' f' rule: gatherHashes.induct)
  case (2 peer k meta rest hs bytes f)
  define f1 where "f1 = f\<lparr> fetching := mput k peer (fetching f),
      alternates := mput k (nonNil (announced f) k) (alternates f), announced := mdel k (announced f) \<rparr>"
  have u1: "untracked h f1" using 2(5,6) by (auto simp: untracked_def f1_def)
  show ?case
  proof (cases "mhas (fetching f) k")
    case True
    with 2 show ?thesis by simp
  next
    case False
    then have al: "\<not> mhas (alternates f) k" using 2(4) by (auto split: if_splits)
    show ?thesis
    proof (cases "maxFdRetrievals \<le> length (hs @ [k])")
      case True
      with False al 2(4) u1 show ?thesis by (simp add: f1_def [symmetric])
    next
      case small: False
      show ?thesis
      proof (cases meta)
        case None
        from 2(2) [OF False al f1_def refl small None _ u1, of hs' f'] 2(4,6) False al small None show ?thesis
          by (simp add: f1_def [symmetric])
      next
        case (Some sz)
        from 2(3) [OF False al f1_def refl small Some refl _ _ u1, of hs' f'] 2(4,6) False al small Some u1 show ?thesis
          by (auto simp: f1_def [symmetric] Let_def split: if_splits)
      qed
    qed
  qed
qed simp

lemma untracked_schedule:
  assumes "scheduleFetches now ord whitelist f = Ok f'" and "untracked h f"
  shows "untracked h f'"
proof -
  have one: "untracked h g'" if "scheduleOne now oa g p = Ok g'" "untracked h g" for oa g p g'
  proof (cases "mget (announces g) p")
    case None
    with that show ?thesis by (simp add: scheduleOne_def split: if_splits)
  next
    case (Some anns)
    have "h \<notin> fst ` set (orderedMetas anns (oa p))"
      using that(2) Some
      by (auto simp: untracked_def tracks_def orderedMetas_def map_filter_def mhas_def split: option.splits)
    with Some that untracked_gather [of p "orderedMetas anns (oa p)" "[]" 0 g] show ?thesis
      by (cases "gatherHashes p (orderedMetas anns (oa p)) [] 0 g")
        (auto simp: scheduleOne_def untracked_def split: if_splits)
  qed
  define xs where "xs = filter (\<lambda>p. p \<in> set (case whitelist of None \<Rightarrow> mkeys (announces f) | Some w \<Rightarrow> w)) (o_peers ord)"
  show ?thesis
  proof (cases "forEach (scheduleOne now (o_anns ord)) f xs")
    case (Ok f1)
    have "untracked h f1" using assms(2) by (rule forEach_inv_Ok [OF Ok, where P = "untracked h"]) (rule one)
    with assms Ok show ?thesis
      unfolding scheduleFetches_def Let_def xs_def [symmetric] by (auto simp: untracked_def split: if_splits)
  qed (use assms in \<open>auto simp: scheduleFetches_def Let_def xs_def [symmetric] split: if_splits\<close>)
qed

lemma untracked_deliverOne:
  assumes "deliverOne origin direct f (k, sz) = Ok f'"
  shows "untracked h f \<Longrightarrow> untracked h f'" and "k = h \<Longrightarrow> \<not> mhas (waitlist f) h \<Longrightarrow> untracked h f'"
    and "\<not> mhas (waitlist f) h \<Longrightarrow> \<not> mhas (waitlist f') h"
  using assms by (auto simp: deliverOne_def untracked_def Let_def mhas_def split: if_splits option.splits)

lemma untracked_delivered:
  assumes "forEach (deliverOne origin direct) f dlvs = Ok f'" and "h \<in> fst ` set dlvs" and "\<not> mhas (waitlist f) h"
  shows "untracked h f'"
  using assms
proof (induction dlvs arbitrary: f)
  case (Cons d dlvs)
  obtain k sz where d: "d = (k, sz)" by fastforce
  obtain f1 where f1: "deliverOne origin direct f (k, sz) = Ok f1" "forEach (deliverOne origin direct) f1 dlvs = Ok f'"
    using Cons.prems(1) d by (cases "deliverOne origin direct f (k, sz)") auto
  show ?case
  proof (cases "k = h")
    case True
    then have "untracked h f1" using untracked_deliverOne(2) [OF f1(1)] Cons.prems(3) by blast
    then show ?thesis
      by (rule forEach_inv_Ok [OF f1(2), where P = "untracked h"]) (metis surj_pair untracked_deliverOne(1))
  next
    case False
    with Cons.prems d have "h \<in> fst ` set dlvs" by auto
    moreover have "\<not> mhas (waitlist f1) h" using untracked_deliverOne(3) [OF f1(1)] Cons.prems(3) by blast
    ultimately show ?thesis using Cons.IH f1(2) by blast
  qed
qed simp

lemma untracked_missingOne:
  assumes "missingOne origin req delivered cutoff f (i, k) = Ok f'" and "untracked h f" and "h \<in> set delivered"
  shows "untracked h f'"
proof (cases "k = h")
  case True
  with assms show ?thesis by (auto simp: missingOne_def untracked_def split: if_splits)
next
  case False
  with assms show ?thesis
    by (cases "nonNil (alternates f) k")
      (auto simp: missingOne_def untracked_def Let_def split: if_splits option.splits)
qed

text \<open>
  C7: a delivery removes every trace of the delivered hashes.  After the turn that handles
  it, a delivered hash that was not in the waiting list is in none of the queues, is not
  being fetched, has no alternates and is announced by no peer, so it is not requested
  again by the scheduling that follows.
\<close>

theorem delivery_untracks:
  assumes run: "onCleanup now ord delivery f = Ok f'"
    and h: "h \<in> set (d_hashes delivery)" and metas: "length (d_metas delivery) = length (d_hashes delivery)"
    and wait: "\<not> mhas (waitlist f) h"
  shows "\<not> mhas (waitlist f') h \<and> \<not> mhas (announced f') h \<and> \<not> mhas (alternates f') h \<and>
    \<not> mhas (fetching f') h \<and> (\<forall>p. \<not> tracks (announces f') p h)"
proof -
  let ?o = "d_origin delivery" and ?d = "d_direct delivery"
  obtain g where g: "forEach (deliverOne ?o ?d) f (zip (d_hashes delivery) (d_metas delivery)) = Ok g"
    using run unfolding onCleanup_def
    by (cases "forEach (deliverOne ?o ?d) f (zip (d_hashes delivery) (d_metas delivery))") auto
  have "h \<in> fst ` set (zip (d_hashes delivery) (d_metas delivery))"
    using h metas by (metis list.set_map map_fst_zip)
  then have u: "untracked h g" by (rule untracked_delivered [OF g _ wait])
  have "untracked h f'"
  proof (cases "?d \<and> mhas (requests g) ?o")
    case False
    with run g u show ?thesis by (auto simp: onCleanup_def mhas_def split: if_splits option.splits)
  next
    case True
    then obtain r where r: "mget (requests g) ?o = Some r" by (auto simp: mhas_def)
    define g1 where "g1 = g\<lparr> requests := mdel ?o (requests g) \<rparr>"
    let ?xs = "zip [0..<length (r_hashes r)] (r_hashes r)" and ?c = "cutoffOf (d_hashes delivery) (r_hashes r)"
    have "untracked h g1" using u by (simp add: untracked_def g1_def)
    moreover obtain g2 where g2: "forEach (missingOne ?o r (d_hashes delivery) ?c) g1 ?xs = Ok g2" "scheduleFetches now ord None g2 = Ok f'"
      using run True unfolding onCleanup_def g bind_outcome.simps r option.case Let_def g1_def [symmetric]
      by (cases "forEach (missingOne ?o r (d_hashes delivery) ?c) g1 ?xs") auto
    ultimately have "untracked h g2"
      using h by (intro forEach_inv_Ok [OF g2(1), of "untracked h"]) (auto intro: untracked_missingOne)
    then show ?thesis by (rule untracked_schedule [OF g2(2)])
  qed
  then show ?thesis by (simp add: untracked_def)
qed

theorem delivery_untracks_witness:
  "\<exists>f'. onCleanup 0 \<lparr> o_peers = [''a''], o_anns = (\<lambda>_. [1]), o_reqs = [''a''], o_waits = [] \<rparr>
      \<lparr> d_origin = ''b'', d_hashes = [1], d_metas = [7], d_direct = False \<rparr>
      (NewFdFetcher\<lparr> announces := [(''a'', [(1, Some 7)])], announced := [(1, Some [(''a'', ())])] \<rparr>) = Ok f' \<and>
    \<not> mhas (announced f') 1"
proof -
  let ?f = "NewFdFetcher\<lparr> announces := [(''a'', [(1, Some 7)])], announced := [(1, Some [(''a'', ())])] \<rparr>"
  let ?d = "\<lparr> d_origin = ''b'', d_hashes = [1], d_metas = [7], d_direct = False \<rparr>"
  let ?ord = "\<lparr> o_peers = [''a''], o_anns = (\<lambda>_. [1]), o_reqs = [''a''], o_waits = [] \<rparr>"
  obtain f' where "onCleanup 0 ?ord ?d ?f = Ok f'"
    by (simp add: onCleanup_def deliverOne_def NewFdFetcher_def Let_def)
  with delivery_untracks [OF this, of 1] show ?thesis by (simp add: NewFdFetcher_def)
qed

subsection \<open>When a waiting hash gets its turn\<close>

lemma earliestWait_bound:
  "earliestWait now insts e0 \<le> e0 \<and>
   (\<forall>i\<in>set insts. earliestWait now insts e0 \<le> i \<or> fdArriveTimeout - (now - earliestWait now insts e0) < fdGatherSlack)"
proof (induction now insts e0 rule: earliestWait.induct)
  case (2 now inst rest e0)
  then show ?case by (cases "e0 > inst"; cases "fdArriveTimeout - (now - inst) < fdGatherSlack") fastforce+
qed simp

text \<open>
  C11: when the wait timer is set, it fires no later than half a second after any waiting
  hash was announced, or else within the next tenth of a second: stopping the scan early
  never delays a hash by more than the slack.
\<close>

theorem wait_timer_deadline:
  assumes "mget (waittime f) h = Some inst" and "h \<in> set order"
  shows "\<exists>t. waitTimer (rescheduleWait now order f) = Some t \<and> (t \<le> inst + fdArriveTimeout \<or> t < now + fdGatherSlack)"
proof -
  let ?insts = "List.map_filter (mget (waittime f)) order"
  have "inst \<in> set ?insts" using assms by (force simp: map_filter_def)
  with earliestWait_bound [of now ?insts now] show ?thesis by (auto simp: rescheduleWait_def Let_def)
qed

theorem wait_timer_deadline_witness:
  "\<exists>t. waitTimer (rescheduleWait 600000000 [1, 2] (NewFdFetcher\<lparr> waittime := [(1, 400000000), (2, 100000000)] \<rparr>)) = Some t \<and>
     (t \<le> 600000000 \<or> t < 700000000)"
  using wait_timer_deadline [of "NewFdFetcher\<lparr> waittime := [(1, 400000000), (2, 100000000)] \<rparr>" 2 100000000 "[1, 2]" 600000000]
  by (simp add: mget_def fdArriveTimeout_def fdGatherSlack_def)

end
