(* ===== verification/Fetcher_Pool.thy ===== *)
theory Fetcher_Pool
  imports Fetcher_Invariants
begin

text \<open>
  The fetcher's view of the pool.  The locale \<open>fd_backend\<close> is the contract of the callback
  \<open>addFds\<close> the fetcher imports records with: how many errors it returns, and that the
  backend's table afterwards is the one the records give when offered one by one.
  \<open>Enqueue\<close> is analysed once against it, and the file-data pool is its interpretation.
\<close>

text \<open>The callback \<open>NewFdFetcher\<close> is given by the node's handler: a remote \<open>Add\<close> on the pool.\<close>

definition poolAddFds :: "'c pool_env \<Rightarrow> 'c heap \<Rightarrow> int \<Rightarrow> FilePool \<Rightarrow> ref list \<Rightarrow> FilePool \<times> fp_err option list" where
  "poolAddFds env hp now fp fds =
     (case fp_Add env hp now False fds fp of Ok r \<Rightarrow> r | Err _ \<Rightarrow> (fp, []) | Panic \<Rightarrow> (fp, []))"

text \<open>\<open>DA.Size\<close>: the length of the encoding, zero when there is none.\<close>

definition DA_Size :: "'c digest_codec \<Rightarrow> 'c DA \<Rightarrow> u64" where
  "DA_Size D da = (case EncodeToBytes (TPtr (daT D)) (VPtr (daVal D da)) of
     Ok b \<Rightarrow> word_of_nat (length b) | Err _ \<Rightarrow> 0 | Panic \<Rightarrow> 0)"

text \<open>The hash and the size \<open>Enqueue\<close> reports for a record.\<close>

definition daInfo :: "'c pool_env \<Rightarrow> 'c heap \<Rightarrow> ref \<Rightarrow> hash \<times> u32" where
  "daInfo env hp fd = (TxHash (hp ! fd), ucast (DA_Size (codec env) (hp ! fd)))"

text \<open>The pool's table with its limit, and a record offered to it.\<close>

definition poolTable :: "FilePool \<Rightarrow> fd_lookup \<times> u64" where
  "poolTable fp = (all fp, GlobalSlots fp)"

definition offer :: "'c da_env \<Rightarrow> 'c heap \<Rightarrow> fd_lookup \<times> u64 \<Rightarrow> ref \<Rightarrow> fd_lookup \<times> u64" where
  "offer env hp t fd = (addOne env hp (snd t) (fst t) fd, snd t)"

locale fd_backend =
  fixes addFds :: "'p \<Rightarrow> 'd list \<Rightarrow> 'p \<times> 'e option list"
    and table :: "'p \<Rightarrow> 't"
    and offerOne :: "'t \<Rightarrow> 'd \<Rightarrow> 't"
    and bad :: "'d \<Rightarrow> bool"
  assumes errs_length: "length (snd (addFds p ds)) = length ds + length (filter bad ds)"
    and table_add: "table (fst (addFds p ds)) = foldl offerOne (table p) ds"
begin

lemma enqueueBatch_outcome:
  "enqueueBatch info batch j errs =
     (if j + length errs \<le> length batch \<or> errs = [] then Ok (map info (take (length errs) (drop j batch))) else Panic)"
proof (induction errs arbitrary: j)
  case (Cons e errs)
  then show ?case by (cases "j < length batch") (auto simp: Cons_nth_drop_Suc [symmetric])
qed simp

lemma enqueueBatch_backend:
  assumes "batch \<noteq> []"
  shows "enqueueBatch info batch 0 (snd (addFds p batch)) =
    (if \<exists>d\<in>set batch. bad d then Panic else Ok (map info batch))"
proof (cases "\<exists>d\<in>set batch. bad d")
  case True
  then have "length (filter bad batch) > 0" by (auto simp: length_greater_0_conv filter_empty_conv)
  with assms True errs_length [of p batch] show ?thesis
    unfolding enqueueBatch_outcome by auto
next
  case False
  then have "filter bad batch = []" by (auto simp: filter_empty_conv)
  with False errs_length [of p batch] show ?thesis unfolding enqueueBatch_outcome by simp
qed

lemma enqueueLoop_backend:
  "if \<exists>d\<in>set fds. bad d then enqueueLoop addFds info fds p = Panic
   else \<exists>p'. enqueueLoop addFds info fds p = Ok (p', map info fds) \<and> table p' = foldl offerOne (table p) fds"
proof (induction fds arbitrary: p rule: length_induct)
  case (1 fds)
  show ?case
  proof (cases "fds = []")
    case True
    then show ?thesis by (simp add: enqueueLoop.simps)
  next
    case False
    define batch where "batch = take 128 fds"
    define rest where "rest = drop 128 fds"
    have split: "fds = batch @ rest" by (simp add: batch_def rest_def)
    have ne: "batch \<noteq> []" using False by (simp add: batch_def)
    obtain p1 errs where add: "addFds p batch = (p1, errs)" by fastforce
    have eq: "enqueueLoop addFds info fds p = bind_outcome (enqueueBatch info batch 0 errs) (\<lambda>added.
        bind_outcome (enqueueLoop addFds info rest p1) (\<lambda>(p, more). Ok (p, added @ more)))"
      using False add by (subst enqueueLoop.simps) (simp add: batch_def [symmetric] rest_def [symmetric])
    have "length rest < length fds" using False by (simp add: rest_def)
    then have IH: "if \<exists>d\<in>set rest. bad d then enqueueLoop addFds info rest p1 = Panic
        else \<exists>p'. enqueueLoop addFds info rest p1 = Ok (p', map info rest) \<and> table p' = foldl offerOne (table p1) rest"
      using 1 by blast
    have b: "enqueueBatch info batch 0 errs = (if \<exists>d\<in>set batch. bad d then Panic else Ok (map info batch))"
      using enqueueBatch_backend [OF ne, of info p] add by simp
    have t: "table p1 = foldl offerOne (table p) batch" using table_add [of p batch] add by simp
    have bads: "(\<exists>d\<in>set fds. bad d) \<longleftrightarrow> (\<exists>d\<in>set batch. bad d) \<or> (\<exists>d\<in>set rest. bad d)"
      and infos: "map info fds = map info batch @ map info rest"
      and folds: "foldl offerOne (table p) fds = foldl offerOne (table p1) rest"
      by (auto simp: split t)
    show ?thesis using IH b unfolding eq bads infos folds by (auto split: if_splits)
  qed
qed

lemma Enqueue_backend:
  "if \<exists>d\<in>set fds. bad d then Enqueue addFds info peer fds direct p = Panic
   else \<exists>p'. Enqueue addFds info peer fds direct p =
       Ok (p', \<lparr> d_origin = peer, d_hashes = map (fst \<circ> info) fds, d_metas = map (snd \<circ> info) fds, d_direct = direct \<rparr>) \<and>
     table p' = foldl offerOne (table p) fds"
  using enqueueLoop_backend [of fds info p] by (auto simp: Enqueue_def split: if_splits)

end

subsection \<open>The pool is a backend\<close>

lemma foldl_offer: "foldl (offer env hp) t fds = (foldl (addOne env hp (snd t)) (fst t) fds, snd t)"
  by (induction fds arbitrary: t) (simp_all add: offer_def)

lemma poolTable_add:
  "poolTable (fst (addFdsLocked env hp now fds fp)) = foldl (offer (da_of env) hp) (poolTable fp) fds"
  by (simp add: poolTable_def foldl_offer addFdsLocked_addOne)

interpretation pool_backend: fd_backend "poolAddFds env hp now" poolTable "offer (da_of env) hp"
    "\<lambda>fd. \<not> fst (validateFileDataSignature env (hp ! fd) False)" for env :: "'c pool_env" and hp and now
proof
  fix p :: FilePool and ds :: "ref list"
  let ?p = "recordDisk (da_of env) hp ds p"
  define r where "r = addFdsLocked env hp now ds ?p"
  have eq: "poolAddFds env hp now p ds = (SendNewFileDataEvent (accepted ds (snd r)) (fst r), snd r @ invalidErrs env hp False ds)"
    using fp_Add_eq [of env hp now ds p "fst r" "snd r" False] by (simp add: poolAddFds_def r_def)
  show "length (snd (poolAddFds env hp now p ds)) =
      length ds + length (filter (\<lambda>fd. \<not> fst (validateFileDataSignature env (hp ! fd) False)) ds)"
    by (simp add: eq r_def length_invalidErrs)
  have "poolTable (fst (poolAddFds env hp now p ds)) = poolTable (fst r)" "poolTable ?p = poolTable p"
    by (simp_all add: eq poolTable_def)
  then show "poolTable (fst (poolAddFds env hp now p ds)) = foldl (offer (da_of env) hp) (poolTable p) ds"
    using poolTable_add [of env hp now ds ?p] by (simp add: r_def)
qed

text \<open>
  Offering records keeps every hash, and the record under it unless that is the commitment
  of an offered record that was new by its transaction hash.
\<close>

lemma addOne_keeps:
  assumes "lookup_Get t h = Some r"
  shows "lookup_Get (foldl (addOne env hp limit) t fds) h = Some r \<or>
    (\<exists>fd\<in>set fds. h = commitHash env (hp ! fd) \<and> TxHash (hp ! fd) \<noteq> 0 \<and> lookup_Get t (TxHash (hp ! fd)) = None \<and>
       lookup_Get (foldl (addOne env hp limit) t fds) h = Some fd)"
proof -
  have mono: "lookup_Get t k \<noteq> None \<Longrightarrow> lookup_Get (foldl (addOne env hp limit) t fds) k \<noteq> None" for t k and fds :: "ref list"
    by (induction fds arbitrary: t) (simp_all add: addOne_def lookup_Get_Add)
  show ?thesis
  proof (induction fds rule: rev_induct)
    case (snoc fd fds)
    let ?t = "foldl (addOne env hp limit) t fds"
    show ?case
    proof (cases "lookup_Get ?t (fdKey env (hp ! fd)) \<noteq> None \<or> slots ?t + 1 > limit \<or> h \<notin> fdKeys env (hp ! fd)")
      case True
      then have "lookup_Get (addOne env hp limit ?t fd) h = lookup_Get ?t h" by (auto simp: addOne_def lookup_Get_Add)
      with snoc show ?thesis by auto
    next
      case False
      then have new: "lookup_Get (addOne env hp limit ?t fd) h = Some fd" by (simp add: addOne_def lookup_Get_Add)
      have "h \<noteq> fdKey env (hp ! fd)" using False mono [of t h fds] assms by auto
      then have "h = commitHash env (hp ! fd)" "TxHash (hp ! fd) \<noteq> 0" "fdKey env (hp ! fd) = TxHash (hp ! fd)"
        using False fdKey_fdKeys [of h env "hp ! fd"] by (auto simp: fdKey_def split: if_splits)
      moreover have "lookup_Get t (TxHash (hp ! fd)) = None" using False mono [of t "TxHash (hp ! fd)" fds] calculation(3) by metis
      ultimately show ?thesis using new by auto
    qed
  qed (use assms in simp)
qed

text \<open>
  C2: importing records a peer sent crashes the node exactly when one of them fails
  validation: the pool returns more errors than records, and \<open>Enqueue\<close> indexes the batch
  with the position of the error.  When every record is valid it reports the records'
  transaction hashes and sizes, in order, and the pool's table is the one the records give
  when offered one by one, whatever the batches.  A hash the pool held finds the record it
  found before, with one exception: when it is the commitment of a delivered record whose
  transaction hash the pool did not hold, it finds the delivered record instead.
\<close>

theorem Enqueue_crashes_on_invalid:
  "if \<exists>fd\<in>set fds. \<not> fst (validateFileDataSignature env (hp ! fd) False)
   then Enqueue (poolAddFds env hp now) (daInfo env hp) peer fds direct fp = Panic
   else \<exists>fp'. Enqueue (poolAddFds env hp now) (daInfo env hp) peer fds direct fp =
       Ok (fp', \<lparr> d_origin = peer, d_hashes = map (\<lambda>fd. TxHash (hp ! fd)) fds,
                 d_metas = map (\<lambda>fd. ucast (DA_Size (codec env) (hp ! fd))) fds, d_direct = direct \<rparr>) \<and>
     all fp' = foldl (addOne (da_of env) hp (GlobalSlots fp)) (all fp) fds \<and>
     (\<forall>h r. fp_get fp h = Some r \<longrightarrow> fp_get fp' h = Some r \<or>
        (\<exists>fd\<in>set fds. h = commitHash (da_of env) (hp ! fd) \<and> TxHash (hp ! fd) \<noteq> 0 \<and>
           \<not> Has fp (TxHash (hp ! fd)) \<and> fp_get fp' h = Some fd))"
proof (cases "\<exists>fd\<in>set fds. \<not> fst (validateFileDataSignature env (hp ! fd) False)")
  case True
  then show ?thesis using pool_backend.Enqueue_backend [where env = env and hp = hp and fds = fds and now = now and info = "daInfo env hp" and peer = peer and direct = direct and p = fp] by simp
next
  case False
  then obtain fp' where fp': "Enqueue (poolAddFds env hp now) (daInfo env hp) peer fds direct fp =
      Ok (fp', \<lparr> d_origin = peer, d_hashes = map (fst \<circ> daInfo env hp) fds, d_metas = map (snd \<circ> daInfo env hp) fds, d_direct = direct \<rparr>)"
    "poolTable fp' = foldl (offer (da_of env) hp) (poolTable fp) fds"
    using pool_backend.Enqueue_backend [where env = env and hp = hp and fds = fds and now = now and info = "daInfo env hp" and peer = peer and direct = direct and p = fp] by (simp split: if_splits) blast
  have t: "all fp' = foldl (addOne (da_of env) hp (GlobalSlots fp)) (all fp) fds"
    using fp'(2) by (simp add: poolTable_def foldl_offer)
  with False fp'(1) show ?thesis using addOne_keeps [of "all fp" _ _ "da_of env" hp "GlobalSlots fp" fds]
    by (simp add: daInfo_def comp_def fp_get_def Has_def)
qed

theorem Enqueue_crashes_on_invalid_witness:
  "let hp = [smallDA, smallDA\<lparr> SignData := [] \<rparr>, smallDA\<lparr> TxHash := 78 \<rparr>];
       fp = (freshPool 2 True ''fileData.rlp'' None ''b'')\<lparr> all := lookup_Add smallEnv hp 0 newLookup \<rparr>
   in Enqueue (poolAddFds smallPoolEnv hp 0) (daInfo smallPoolEnv hp) ''p'' [2, 1] True fp = Panic \<and>
      fp_get fp (commitHash smallEnv smallDA) = Some 0 \<and>
      (\<exists>fp' d. Enqueue (poolAddFds smallPoolEnv hp 0) (daInfo smallPoolEnv hp) ''p'' [2] True fp = Ok (fp', d) \<and>
         d_hashes d = [78] \<and> fp_get fp' (commitHash smallEnv smallDA) = Some 2)"
proof -
  define hp where "hp = [smallDA, smallDA\<lparr> SignData := [] \<rparr>, smallDA\<lparr> TxHash := 78 \<rparr>]"
  define fp where "fp = (freshPool 2 True ''fileData.rlp'' None ''b'')\<lparr> all := lookup_Add smallEnv hp 0 newLookup \<rparr>"
  have hp: "hp ! 0 = smallDA" "hp ! 1 = smallDA\<lparr> SignData := [] \<rparr>" "hp ! 2 = smallDA\<lparr> TxHash := 78 \<rparr>" by (simp_all add: hp_def)
  have env: "da_of smallPoolEnv = smallEnv" by (simp add: smallPoolEnv_def)
  have bad: "\<not> fst (validateFileDataSignature smallPoolEnv (hp ! 1) False)" and ok: "fst (validateFileDataSignature smallPoolEnv (hp ! 2) False)"
    by (simp_all add: hp_def validateFileDataSignature_def smallPoolEnv_def smallDA_def)
  have c: "commitHash smallEnv (smallDA\<lparr> TxHash := 78 \<rparr>) = commitHash smallEnv smallDA" "commitHash smallEnv smallDA = 66051"
    by (simp_all add: commitHash_def smallDA_def) (simp add: smallEnv_def BytesToHash_def setFixed_def hash_of_bytes_def be_nat_replicate_0 be_nat_Cons)
  have get: "fp_get fp h = (if h \<in> {77, 66051} then Some 0 else None)" for h
    using lookup_Get_Add [of smallEnv hp 0 newLookup h] c(2)
    by (simp add: fp_get_def fp_def hp fdKeys_def) (simp add: smallDA_def smallEnv_def lookup_Get_def newLookup_def mget_def)
  have key: "fdKey smallEnv (hp ! 2) = 78" "66051 \<in> fdKeys smallEnv (hp ! 2)" "TxHash (hp ! 2) = 78"
    using c by (simp_all add: hp fdKey_def fdKeys_def) (simp add: smallDA_def smallEnv_def)
  have lim: "GlobalSlots fp = 2" "slots (all fp) = 1" by (simp_all add: fp_def freshPool_def newLookup_def)
  have "lookup_Get (all fp) 78 = None" using get [of 78] by (simp add: fp_get_def)
  then have one: "lookup_Get (addOne smallEnv hp 2 (all fp) 2) 66051 = Some 2"
    using key lim by (simp add: addOne_def lookup_Get_Add)
  have crash: "Enqueue (poolAddFds smallPoolEnv hp 0) (daInfo smallPoolEnv hp) ''p'' [2, 1] True fp = Panic"
    using Enqueue_crashes_on_invalid [of "[2, 1]" smallPoolEnv hp 0 "''p''" True fp] bad by simp
  have "\<exists>fp' d. Enqueue (poolAddFds smallPoolEnv hp 0) (daInfo smallPoolEnv hp) ''p'' [2] True fp = Ok (fp', d) \<and>
      d_hashes d = [78] \<and> fp_get fp' 66051 = Some 2"
    using Enqueue_crashes_on_invalid [of "[2]" smallPoolEnv hp 0 "''p''" True fp] ok one key lim env by (auto simp: fp_get_def)
  with crash get [of 66051] c show ?thesis unfolding Let_def hp_def [symmetric] fp_def [symmetric] by simp
qed

end
