(* ===== verification/Trie_Encoding.thy ===== *)
theory Trie_Encoding
  imports Prelude
begin

text \<open>
  The three key encodings of \<open>trie/encoding.go\<close>: key bytes, one nibble per byte with an
  optional terminator, and the compact (hex prefix) form stored on disk.  The round trips between
  them, and the equality of the in-place compaction with the allocating one.
\<close>

text \<open>\<open>None\<close> is a panic: an index out of range, or the explicit one of \<open>hexToKeybytes\<close>.\<close>

definition hasTerm :: "byte list \<Rightarrow> bool" where
  "hasTerm s = (length s > 0 \<and> s ! (length s - 1) = 16)"

fun prefixLen :: "byte list \<Rightarrow> byte list \<Rightarrow> nat" where
  "prefixLen (x # a) (y # b) = (if x \<noteq> y then 0 else Suc (prefixLen a b))"
| "prefixLen a b = 0"

fun decodeNibbles :: "byte list \<Rightarrow> byte list \<Rightarrow> byte list option" where
  "decodeNibbles (n0 # n1 # nibbles) (b # bytes) =
     map_option (Cons (push_bit 4 n0 OR n1)) (decodeNibbles nibbles bytes)"
| "decodeNibbles [] bytes = Some bytes"
| "decodeNibbles nibbles bytes = None"

definition hexToCompact :: "byte list \<Rightarrow> byte list option" where
  "hexToCompact hex =
     (let (terminator, hex) = (if hasTerm hex then (1 :: byte, take (length hex - 1) hex) else (0, hex));
          tail = replicate (length hex div 2) 0;
          flag = push_bit 5 terminator;
          (flag, hex) = (if odd (length hex) then (flag OR push_bit 4 1 OR hex ! 0, drop 1 hex) else (flag, hex))
      in map_option (Cons flag) (decodeNibbles hex tail))"

function compactLoop :: "nat \<Rightarrow> nat \<Rightarrow> nat \<Rightarrow> byte list \<Rightarrow> byte list" where
  "compactLoop hexLen bi ni hex =
     (if ni < hexLen
      then compactLoop hexLen (bi + 1) (ni + 2) (hex[bi := push_bit 4 (hex ! ni) OR hex ! (ni + 1)])
      else hex)"
  by pat_completeness auto
termination by (relation "measure (\<lambda>(hexLen, bi, ni, hex). hexLen - ni)") auto

declare compactLoop.simps [simp del]

definition hexToCompactInPlace :: "byte list \<Rightarrow> byte list option" where
  "hexToCompactInPlace hex =
     (let hexLen = length hex;
          (firstByte, hexLen) = (if hexLen > 0 \<and> hex ! (hexLen - 1) = 16 then (push_bit 5 1 :: byte, hexLen - 1)
                                 else (0, hexLen));
          binLen = hexLen div 2 + 1;
          (firstByte, ni) = (if odd hexLen then (firstByte OR push_bit 4 1 OR hex ! 0, 1) else (firstByte, 0));
          hex = compactLoop hexLen 1 ni hex
      in if hex = [] then None else Some (take binLen (hex[0 := firstByte])))"

definition keybytesToHex :: "byte list \<Rightarrow> byte list" where
  "keybytesToHex str = concat (map (\<lambda>b. [b div 16, b mod 16]) str) @ [16]"

definition compactToHex :: "byte list \<Rightarrow> byte list" where
  "compactToHex compact =
     (if length compact = 0 then compact
      else
        let base = keybytesToHex compact;
            base = (if base ! 0 < 2 then take (length base - 1) base else base);
            chop = 2 - unat (base ! 0 AND 1)
        in drop chop base)"

definition hexToKeybytes :: "byte list \<Rightarrow> byte list option" where
  "hexToKeybytes hex =
     (let hex = (if hasTerm hex then take (length hex - 1) hex else hex)
      in if odd (length hex) then None
         else decodeNibbles hex (replicate (length hex div 2) 0))"

text \<open>Keys of nibbles, and keys with their terminator.\<close>

definition nibs :: "byte list \<Rightarrow> bool" where
  "nibs k \<longleftrightarrow> (\<forall>x\<in>set k. x < 16)"

definition hexkey :: "byte list \<Rightarrow> bool" where
  "hexkey k \<longleftrightarrow> (\<exists>k'. nibs k' \<and> k = k' @ [16])"

fun joinNibs :: "byte list \<Rightarrow> byte list" where
  "joinNibs (n0 # n1 # ns) = (push_bit 4 n0 OR n1) # joinNibs ns"
| "joinNibs ns = []"

subsection \<open>Nibbles and bytes\<close>

lemma nibs_simps [simp]: "nibs []" "nibs (x # k) \<longleftrightarrow> x < 16 \<and> nibs k" "nibs (k @ k') \<longleftrightarrow> nibs k \<and> nibs k'"
  by (auto simp: nibs_def)

lemma hasTerm_simps [simp]: "\<not> hasTerm []" "hasTerm (k @ [x]) \<longleftrightarrow> x = 16"
  by (simp_all add: hasTerm_def)

lemma nibs_no_term: "nibs k \<Longrightarrow> \<not> hasTerm k"
  by (cases k rule: rev_cases) auto

lemma decodeNibbles_join:
  "even (length ns) \<Longrightarrow> decodeNibbles ns (replicate (length ns div 2) 0) = Some (joinNibs ns)"
  by (induction ns rule: joinNibs.induct) auto

lemma length_joinNibs [simp]: "length (joinNibs ns) = length ns div 2"
  by (induction ns rule: joinNibs.induct) auto

definition spread :: "byte list \<Rightarrow> byte list" where
  "spread bs = concat (map (\<lambda>b. [b div 16, b mod 16]) bs)"

lemma spread_simps [simp]: "spread [] = []" "spread (b # bs) = b div 16 # b mod 16 # spread bs"
  by (simp_all add: spread_def)

lemma keybytesToHex_spread: "keybytesToHex bs = spread bs @ [16]"
  by (simp add: keybytesToHex_def spread_def)

lemma join_div_mod:
  fixes a b :: byte
  assumes "a < 16" "b < 16"
  shows "(push_bit 4 a OR b) div 16 = a" "(push_bit 4 a OR b) mod 16 = b"
proof -
  have u: "unat (push_bit 4 a OR b) = 16 * unat a + unat b" by (rule unat_nib_or [OF assms])
  have "unat b < 16" using assms by (simp add: word_less_nat_alt)
  with u show "(push_bit 4 a OR b) div 16 = a" "(push_bit 4 a OR b) mod 16 = b"
    by (simp_all add: word_unat_eq_iff unat_div_distrib unat_mod_distrib)
qed

lemma nibs_spread [simp]: "nibs (spread bs)"
proof (induction bs)
  case (Cons b bs)
  have "unat b < 256" using unsigned_less [of b] by simp
  then have "b div 16 < 16" by (simp add: word_less_nat_alt unat_div_distrib)
  moreover have "b mod 16 < 16" by (simp add: word_mod_less_divisor)
  ultimately show ?case using Cons by simp
qed simp

lemma length_spread [simp]: "length (spread bs) = 2 * length bs"
  by (induction bs) simp_all

lemma join_spread [simp]: "joinNibs (spread bs) = bs"
  by (induction bs) (simp_all add: byte_split)

lemma spread_join: "nibs ns \<Longrightarrow> even (length ns) \<Longrightarrow> spread (joinNibs ns) = ns"
  by (induction ns rule: joinNibs.induct) (auto simp: join_div_mod)

lemma hexkey_keybytes: "hexkey (keybytesToHex k)"
  unfolding hexkey_def keybytesToHex_spread by (intro exI [of _ "spread k"]) simp

lemma keybytesToHex_inject: "keybytesToHex k = keybytesToHex j \<longleftrightarrow> k = j"
  unfolding keybytesToHex_spread by (metis append1_eq_conv join_spread)

lemma take_prefixLen: "take (prefixLen a b) a = take (prefixLen a b) b"
  by (induction a b rule: prefixLen.induct) auto

lemma prefixLen_le: "prefixLen a b \<le> length a" "prefixLen a b \<le> length b"
  by (induction a b rule: prefixLen.induct) auto

lemma prefixLen_differ:
  "prefixLen a b < length a \<Longrightarrow> prefixLen a b < length b \<Longrightarrow> a ! prefixLen a b \<noteq> b ! prefixLen a b"
  by (induction a b rule: prefixLen.induct) auto

subsection \<open>The compact form\<close>

text \<open>The flag byte holds the terminator and the parity, and the first nibble of an odd key.\<close>

definition compact_of :: "bool \<Rightarrow> byte list \<Rightarrow> byte list" where
  "compact_of t k =
     (if odd (length k) then (push_bit 4 (if t then 3 else 1) OR hd k) # joinNibs (tl k)
      else push_bit 4 (if t then 2 else 0) # joinNibs k)"

definition key_of :: "bool \<Rightarrow> byte list \<Rightarrow> byte list" where
  "key_of t k = k @ (if t then [16] else [])"

lemma hexToCompact_key_of:
  assumes "t \<or> \<not> hasTerm k"
  shows "hexToCompact (key_of t k) = Some (compact_of t k)"
proof (cases "odd (length k)")
  case True
  then obtain x ks where k: "k = x # ks" by (cases k) auto
  then have "even (length ks)" using True by simp
  moreover have "(32::byte) OR (16 OR x) = 48 OR x" by (simp add: or.assoc [symmetric] del: or.assoc)
  ultimately show ?thesis using assms decodeNibbles_join [of ks]
    by (cases t) (simp_all add: hexToCompact_def key_of_def k compact_of_def Let_def hasTerm_def nth_append
        split: if_splits)
next
  case False
  with decodeNibbles_join [of k] show ?thesis using assms
    by (cases t) (simp_all add: hexToCompact_def key_of_def compact_of_def Let_def)
qed

lemma key_of_cases:
  obtains t k where "h = key_of t k" "t \<or> \<not> hasTerm k"
proof (cases "hasTerm h")
  case True
  then obtain k where "h = k @ [16]" by (cases h rule: rev_cases) auto
  then show ?thesis using that [of True k] by (simp add: key_of_def)
next
  case False
  then show ?thesis using that [of False h] by (simp add: key_of_def)
qed

lemma compact_of_inverse:
  assumes "nibs k"
  shows "compactToHex (compact_of t k) = key_of t k"
proof (cases "odd (length k)")
  case True
  then obtain x ks where k: "k = x # ks" by (cases k) auto
  then have x: "x < 16" "nibs ks" "even (length ks)" using True assms by simp_all
  let ?f = "if t then 3 else 1 :: byte"
  have "(push_bit 4 ?f OR x) div 16 = ?f" "(push_bit 4 ?f OR x) mod 16 = x"
    using x(1) by (intro join_div_mod; simp)+
  then show ?thesis using x k
    by (cases t) (simp_all add: compactToHex_def compact_of_def keybytesToHex_spread key_of_def spread_join Let_def)
next
  case False
  then show ?thesis using assms
    by (cases t) (simp_all add: compactToHex_def compact_of_def keybytesToHex_spread key_of_def spread_join Let_def)
qed

subsection \<open>Compaction in place\<close>

text \<open>The writes stay at or behind the position of the reads, so no nibble is overwritten before it is read.\<close>

lemma compactLoop_result:
  assumes "ni \<le> L" "L \<le> length hex" "even (L - ni)" "bi \<le> ni + 1" "bi \<le> length hex"
  shows "compactLoop L bi ni hex =
    take bi hex @ joinNibs (take (L - ni) (drop ni hex)) @ drop (bi + (L - ni) div 2) hex"
  using assms
proof (induction L bi ni hex rule: compactLoop.induct)
  case (1 L bi ni hex)
  show ?case
  proof (cases "ni < L")
    case True
    then have n2: "ni + 2 \<le> L" using "1.prems"(3) by presburger
    let ?v = "push_bit 4 (hex ! ni) OR hex ! (ni + 1)"
    have ev: "even (L - (ni + 2))" using "1.prems"(3) n2 by presburger
    have nx: "bi + 1 + (L - (ni + 2)) div 2 = bi + (L - ni) div 2" using n2 by presburger
    have "bi < bi + 1 + (L - (ni + 2)) div 2" by simp
    then have d: "drop (bi + 1 + (L - (ni + 2)) div 2) (hex[bi := ?v]) = drop (bi + (L - ni) div 2) hex"
      unfolding nx by simp
    have "compactLoop L (bi + 1) (ni + 2) (hex[bi := ?v]) =
      take (bi + 1) (hex[bi := ?v]) @ joinNibs (take (L - (ni + 2)) (drop (ni + 2) (hex[bi := ?v]))) @
      drop (bi + 1 + (L - (ni + 2)) div 2) (hex[bi := ?v])"
      using "1.prems" n2 ev by (intro "1.IH" [OF True]) simp_all
    moreover have "take (bi + 1) (hex[bi := ?v]) = take bi hex @ [?v]"
      using "1.prems" n2 by (simp add: take_Suc_conv_app_nth)
    moreover have "drop (ni + 2) (hex[bi := ?v]) = drop (ni + 2) hex"
      using "1.prems"(4) by simp
    moreover have "take (L - ni) (drop ni hex) = hex ! ni # hex ! (ni + 1) # take (L - (ni + 2)) (drop (ni + 2) hex)"
      using "1.prems"(2) n2 by (simp add: Cons_nth_drop_Suc [symmetric] take_Cons' numeral_2_eq_2)
    ultimately show ?thesis using True d by (subst compactLoop.simps) simp
  next
    case False
    then show ?thesis using "1.prems" by (subst compactLoop.simps) simp
  qed
qed

text \<open>
  C35: The in-place compaction overwrites the buffer it reads from, and yet computes the same
  compact key as the allocating \<open>hexToCompact\<close> on every non-empty key; on the empty key, for which
  \<open>hexToCompact\<close> returns the flag byte zero, it panics.
\<close>

theorem hexToCompactInPlace_eq:
  "hexToCompactInPlace hex = (if hex = [] then None else hexToCompact hex)"
proof (cases "hex = []")
  case False
  obtain t k where h: "hex = key_of t k" "t \<or> \<not> hasTerm k" by (rule key_of_cases)
  have L: "(if length hex > 0 \<and> hex ! (length hex - 1) = 16 then (push_bit 5 1, length hex - 1) else (0, length hex)) =
      (if t then 32 else 0 :: byte, length k)"
    using h False by (cases t) (auto simp: key_of_def hasTerm_def)
  have lk: "length k \<le> length hex" "1 \<le> length hex" using False by (simp_all add: h Suc_le_eq key_of_def)
  have "hexToCompactInPlace hex = Some (compact_of t k)"
  proof (cases "odd (length k)")
    case True
    then obtain x ks where k: "k = x # ks" by (cases k) auto
    then have ev: "even (length ks)" using True by simp
    obtain r where r: "hex = x # r" "drop 1 hex = ks @ (if t then [16] else [])" by (simp add: h key_of_def k)
    have "compactLoop (length k) 1 1 hex = x # joinNibs ks @ drop (1 + length ks div 2) hex"
      using ev lk r compactLoop_result [of 1 "length k" hex 1] by (simp add: k)
    moreover have "(32::byte) OR (16 OR x) = 48 OR x" by (simp add: or.assoc [symmetric] del: or.assoc)
    ultimately show ?thesis unfolding hexToCompactInPlace_def Let_def L using True ev
      by (cases t) (simp_all add: k r compact_of_def)
  next
    case ev: False
    have "compactLoop (length k) 1 0 hex = take 1 hex @ joinNibs k @ drop (1 + length k div 2) hex"
      using ev lk compactLoop_result [of 0 "length k" hex 1] by (simp add: h key_of_def)
    then show ?thesis unfolding hexToCompactInPlace_def Let_def L using ev False
      by (cases hex; cases t) (simp_all add: compact_of_def)
  qed
  with hexToCompact_key_of [OF h(2)] False show ?thesis by (simp add: h(1))
qed (simp add: hexToCompactInPlace_def compactLoop.simps)

text \<open>
  C34: The key encodings are inverse to each other: a key of nibbles, with or without terminator,
  survives the compact form stored on disk, and the bytes of a key survive the nibble form used
  in memory.
\<close>

theorem key_encodings_roundtrip:
  assumes "nibs k"
  shows "(case hexToCompact (k @ (if t then [16] else [])) of
      None \<Rightarrow> False | Some c \<Rightarrow> compactToHex c = k @ (if t then [16] else [])) \<and>
    hexToKeybytes (keybytesToHex b) = Some b"
proof -
  have "t \<or> \<not> hasTerm k" using nibs_no_term [OF assms] by simp
  from hexToCompact_key_of [OF this] compact_of_inverse [OF assms, of t] show ?thesis
    using decodeNibbles_join [of "spread b"]
    by (simp add: key_of_def hexToKeybytes_def keybytesToHex_spread Let_def)
qed

theorem key_encodings_roundtrip_witness:
  "(case hexToCompact ([1, 2, 3] @ (if True then [16] else [])) of
      None \<Rightarrow> False | Some c \<Rightarrow> compactToHex c = [1, 2, 3] @ (if True then [16] else [])) \<and>
    hexToKeybytes (keybytesToHex [0x12]) = Some [0x12]"
  by (rule key_encodings_roundtrip) simp

end
