(* ===== verification/Trie_Node.thy ===== *)
theory Trie_Node
  imports Trie_Encoding Rlp_Raw Hexcodec
begin

text \<open>
  Trie nodes and their storage form: the node types of \<open>trie/node.go\<close>, their RLP encoding
  (\<open>trie/node_enc.go\<close>) over the encoder buffer of \<open>Rlp_Codec\<close>, and the decoder with its checks.
\<close>

text \<open>\<open>NilN\<close> is the nil node; the 17 children of a full node are a list.\<close>

record nodeFlag =
  nf_hash :: "byte list option"
  nf_dirty :: bool

datatype node = NilN | Full "node list" nodeFlag | Short "byte list" node nodeFlag
  | HashN "byte list" | ValueN "byte list"

definition newFlag :: nodeFlag where
  "newFlag = \<lparr> nf_hash = None, nf_dirty = True \<rparr>"

fun cache :: "node \<Rightarrow> byte list option \<times> bool" where
  "cache (Full cs f) = (nf_hash f, nf_dirty f)"
| "cache (Short k v f) = (nf_hash f, nf_dirty f)"
| "cache n = (None, True)"

subsection \<open>Encoding\<close>

text \<open>A nil child is written as the empty string by the loops over the children.\<close>

fun node_encode :: "node \<Rightarrow> encBuffer \<Rightarrow> encBuffer" where
  "node_encode NilN w = buf_append [0x80] w"
| "node_encode (Full cs f) w = (case list_start w of (w, off) \<Rightarrow> listEnd off (fold node_encode cs w))"
| "node_encode (Short k v f) w =
     (case list_start w of (w, off) \<Rightarrow> listEnd off (node_encode v (writeBytes k w)))"
| "node_encode (HashN h) w = writeBytes h w"
| "node_encode (ValueN v) w = writeBytes v w"

definition nodeToBytes :: "node \<Rightarrow> byte list option" where
  "nodeToBytes n = makeBytes (node_encode n enc_reset)"

subsection \<open>Decoding\<close>

datatype node_err = NodeEOF | NodeRlp rlp_err | NodeCount nat | NodeOversized nat | NodeRefSize nat

type_synonym 'a ndec = "byte list \<Rightarrow> (node_err + 'a) option"

text \<open>
  The decoders call \<open>decodeNode\<close> on embedded nodes; it is their first argument.  \<open>None\<close> stands for
  fuel that ran out.
\<close>

definition decodeRef :: "node ndec \<Rightarrow> (node \<times> byte list) ndec" where
  "decodeRef dec buf =
     (case Split buf of
        Inl e \<Rightarrow> Some (Inl (NodeRlp e))
      | Inr (kind, val, rest) \<Rightarrow>
          if kind = List then
            let sz = length buf - length rest in
            if sz > 32 then Some (Inl (NodeOversized sz))
            else map_option (map_sum id (\<lambda>n. (n, rest))) (dec buf)
          else if kind = String \<and> length val = 0 then Some (Inr (NilN, rest))
          else if kind = String \<and> length val = 32 then Some (Inr (HashN val, rest))
          else Some (Inl (NodeRefSize (length val))))"

definition decodeShort :: "node ndec \<Rightarrow> byte list option \<Rightarrow> node ndec" where
  "decodeShort dec hash elems =
     (case SplitString elems of
        Inl e \<Rightarrow> Some (Inl (NodeRlp e))
      | Inr (kbuf, rest) \<Rightarrow>
          let flag = \<lparr> nf_hash = hash, nf_dirty = False \<rparr>;
              key = compactToHex kbuf
          in if hasTerm key then
               (case SplitString rest of
                  Inl e \<Rightarrow> Some (Inl (NodeRlp e))
                | Inr (val, _) \<Rightarrow> Some (Inr (Short key (ValueN val) flag)))
             else map_option (map_sum id (\<lambda>(r, _). Short key r flag)) (decodeRef dec rest))"

primrec decodeKids :: "node ndec \<Rightarrow> nat \<Rightarrow> (node list \<times> byte list) ndec" where
  "decodeKids dec 0 elems = Some (Inr ([], elems))"
| "decodeKids dec (Suc i) elems =
     (case decodeRef dec elems of
        None \<Rightarrow> None
      | Some (Inl e) \<Rightarrow> Some (Inl e)
      | Some (Inr (cld, rest)) \<Rightarrow> map_option (map_sum id (\<lambda>(cs, rest). (cld # cs, rest))) (decodeKids dec i rest))"

definition decodeFull :: "node ndec \<Rightarrow> byte list option \<Rightarrow> node ndec" where
  "decodeFull dec hash elems =
     (case decodeKids dec 16 elems of
        None \<Rightarrow> None
      | Some (Inl e) \<Rightarrow> Some (Inl e)
      | Some (Inr (cs, elems)) \<Rightarrow>
          (case SplitString elems of
             Inl e \<Rightarrow> Some (Inl (NodeRlp e))
           | Inr (val, _) \<Rightarrow>
               Some (Inr (Full (cs @ [if length val > 0 then ValueN val else NilN])
                 \<lparr> nf_hash = hash, nf_dirty = False \<rparr>))))"

definition decodeNodeUnsafe :: "node ndec \<Rightarrow> byte list option \<Rightarrow> node ndec" where
  "decodeNodeUnsafe dec hash buf =
     (if length buf = 0 then Some (Inl NodeEOF)
      else
        (case SplitList buf of
           Inl e \<Rightarrow> Some (Inl (NodeRlp e))
         | Inr (elems, _) \<Rightarrow>
             let c = (case CountValues elems of Some (Inr c) \<Rightarrow> c | _ \<Rightarrow> 0) in
             if c = 2 then decodeShort dec hash elems
             else if c = 17 then decodeFull dec hash elems
             else Some (Inl (NodeCount c))))"

primrec decodeNodeFuel :: "nat \<Rightarrow> byte list option \<Rightarrow> node ndec" where
  "decodeNodeFuel 0 hash buf = None"
| "decodeNodeFuel (Suc fuel) hash buf = decodeNodeUnsafe (decodeNodeFuel fuel None) hash buf"

definition decodeNode :: "byte list option \<Rightarrow> node ndec" where
  "decodeNode hash buf = decodeNodeFuel (Suc (length buf)) hash buf"

subsection \<open>The reference encoding\<close>

fun nodeEnc :: "node \<Rightarrow> byte list" where
  "nodeEnc NilN = [0x80]"
| "nodeEnc (Full cs f) = frame List (concat (map nodeEnc cs))"
| "nodeEnc (Short k v f) = frame List (encStr k @ nodeEnc v)"
| "nodeEnc (HashN h) = encStr h"
| "nodeEnc (ValueN v) = encStr v"

text \<open>The node with its keys in compact form, as it is stored.\<close>

fun compactKeys :: "node \<Rightarrow> node" where
  "compactKeys (Full cs f) = Full (map compactKeys cs) f"
| "compactKeys (Short k v f) = Short (the (hexToCompact k)) (compactKeys v) f"
| "compactKeys n = n"

text \<open>The flags decoding leaves: the hash at the top, nothing below.\<close>

fun reflag :: "byte list option \<Rightarrow> node \<Rightarrow> node" where
  "reflag h (Full cs f) = Full (map (reflag None) cs) \<lparr> nf_hash = h, nf_dirty = False \<rparr>"
| "reflag h (Short k v f) = Short k (reflag None v) \<lparr> nf_hash = h, nf_dirty = False \<rparr>"
| "reflag h n = n"

text \<open>
  Nodes as they are stored: a leaf with a terminated key, an extension to a hash or a small
  embedded node, a full node with 16 references and an optional value.
\<close>

fun isRef :: "node \<Rightarrow> bool" where
  "isRef NilN = False"
| "isRef (HashN h) = (length h = 32)"
| "isRef (ValueN v) = False"
| "isRef n = (length (nodeEnc (compactKeys n)) < 32)"

fun stored :: "node \<Rightarrow> bool" where
  "stored (Full cs f) =
     (length cs = 17 \<and> list_all stored cs \<and> (\<forall>c\<in>set (take 16 cs). c = NilN \<or> isRef c) \<and>
      (case cs ! 16 of NilN \<Rightarrow> True | ValueN v \<Rightarrow> v \<noteq> [] | _ \<Rightarrow> False))"
| "stored (Short k v f) =
     (case v of ValueN b \<Rightarrow> hexkey k | _ \<Rightarrow> nibs k \<and> isRef v \<and> stored v)"
| "stored n = True"

subsection \<open>The encoder writes the reference encoding\<close>

lemma length_frame_le: "length c \<le> length (frame k c)"
  by (cases k) simp_all

lemma length_encStr_le: "length c \<le> length (encStr c)"
  by simp

lemma renders_fold:
  "(\<And>c w. c \<in> set cs \<Longrightarrow> renders w (node_encode c w) (nodeEnc c)) \<Longrightarrow>
    renders w (fold node_encode cs w) (concat (map nodeEnc cs))"
proof (induction cs arbitrary: w)
  case Nil
  show ?case by (simp add: renders_refl)
next
  case (Cons c cs)
  then have "renders w (node_encode c w) (nodeEnc c)"
    "renders (node_encode c w) (fold node_encode cs (node_encode c w)) (concat (map nodeEnc cs))" by simp_all
  from renders_trans [OF this] show ?case by simp
qed

lemma length_in_concat: "x \<in> set xs \<Longrightarrow> length (f x) \<le> length (concat (map f xs))"
  by (induction xs) auto

lemma renders_node: "length (nodeEnc n) < 2 ^ 63 \<Longrightarrow> renders w (node_encode n w) (nodeEnc n)"
proof (induction n arbitrary: w)
  case NilN
  show ?case using renders_append [of w "[0x80]"] by simp
next
  case (Full cs f)
  let ?c = "concat (map nodeEnc cs)"
  have c: "length ?c < 2 ^ 63" using Full.prems length_frame_le [of ?c List] by (simp del: frame.simps)
  obtain w1 off where w1: "list_start w = (w1, off)" by fastforce
  have "renders w1 (fold node_encode cs w1) ?c"
    using Full.IH c length_in_concat [of _ cs nodeEnc] by (intro renders_fold) fastforce
  from renders_list [OF w1 this c] show ?case by (simp add: w1)
next
  case (Short k v f)
  let ?c = "encStr k @ nodeEnc v"
  have c: "length ?c < 2 ^ 63"
    using Short.prems length_frame_le [of ?c List] by (simp del: frame.simps encStr.simps)
  then have kv: "length k < 2 ^ 63" "length (nodeEnc v) < 2 ^ 63"
    using length_encStr_le [of k] by (simp_all del: encStr.simps)
  obtain w1 off where w1: "list_start w = (w1, off)" by fastforce
  have "renders w1 (node_encode v (writeBytes k w1)) ?c"
    by (rule renders_trans [OF renders_writeBytes [OF kv(1)] Short.IH [OF kv(2)]])
  from renders_list [OF w1 this c] show ?case by (simp add: w1)
next
  case (HashN h)
  then show ?case using length_encStr_le [of h] by (simp add: renders_writeBytes del: encStr.simps)
next
  case (ValueN v)
  then show ?case using length_encStr_le [of v] by (simp add: renders_writeBytes del: encStr.simps)
qed

lemma nodeToBytes_nodeEnc: "length (nodeEnc n) < 2 ^ 63 \<Longrightarrow> nodeToBytes n = Some (nodeEnc n)"
  unfolding nodeToBytes_def by (rule renders_makeBytes(1) [OF renders_node])

subsection \<open>Decoding returns\<close>

lemma Split_lengths:
  assumes "Split b = Inr (k, c, rest)" "length b < 2 ^ 64"
  shows "length rest < length b" "length c \<le> length b" "k = List \<Longrightarrow> length c < length b"
proof -
  have b: "b = frame k c @ rest" "frame_ok k c" using Split_canon [OF assms] by auto
  then show "length rest < length b" using frame_nonempty by fastforce
  show "length c \<le> length b" using b(1) length_frame_le [of c k] by simp
  show "length c < length b" if "k = List"
    using b(1) that by (simp add: length_puthead headsize_def)
qed

lemma decodeRef_returns:
  assumes "\<forall>b. length b \<le> N \<longrightarrow> dec b \<noteq> None" "length buf \<le> N" "N < 2 ^ 64"
  shows "\<exists>r. decodeRef dec buf = Some r \<and> (\<forall>n rest. r = Inr (n, rest) \<longrightarrow> length rest \<le> N)"
proof (cases "Split buf")
  case (Inr x)
  obtain k c rest where x: "x = (k, c, rest)" by (metis prod.exhaust)
  have "length rest < length buf" using Split_lengths(1) [of buf k c rest] Inr x assms by simp
  moreover obtain d where "dec buf = Some d" using assms(1,2) by auto
  ultimately show ?thesis using Inr x assms(2) by (cases d) (auto simp: decodeRef_def Let_def)
qed (simp add: decodeRef_def)

lemma decodeKids_returns:
  assumes "\<forall>b. length b \<le> N \<longrightarrow> dec b \<noteq> None" "N < 2 ^ 64"
  shows "length buf \<le> N \<Longrightarrow> decodeKids dec i buf \<noteq> None"
proof (induction i arbitrary: buf)
  case (Suc i)
  obtain r where r: "decodeRef dec buf = Some r" "\<forall>n rest. r = Inr (n, rest) \<longrightarrow> length rest \<le> N"
    using decodeRef_returns [OF assms(1) Suc.prems assms(2)] by blast
  show ?case
  proof (cases r)
    case (Inr x)
    obtain n rest where x: "x = (n, rest)" by fastforce
    then show ?thesis using Suc.IH [of rest] r Inr by auto
  qed (simp add: r)
qed simp

lemma decodeNodeUnsafe_returns:
  assumes "\<And>b. length b < length buf \<Longrightarrow> dec b \<noteq> None" "length buf < 2 ^ 64"
  shows "decodeNodeUnsafe dec h buf \<noteq> None"
proof (cases "SplitList buf")
  case (Inr x)
  obtain elems rest where x: "x = (elems, rest)" by fastforce
  then have l: "length elems < length buf"
    using Inr assms(2) by (auto simp: SplitList_def split: sum.splits if_splits dest: Split_lengths(3))
  then have N: "\<forall>b. length b \<le> length elems \<longrightarrow> dec b \<noteq> None" "length elems < 2 ^ 64"
    using assms by simp_all
  have "decodeShort dec h elems \<noteq> None"
  proof (cases "SplitString elems")
    case (Inr y)
    obtain kb r where y: "y = (kb, r)" by fastforce
    have "length r \<le> length elems" using Inr y N(2)
      by (auto simp: SplitString_def split: sum.splits if_splits dest: Split_lengths(1))
    from decodeRef_returns [OF N(1) this N(2)] Inr y show ?thesis
      by (auto simp: decodeShort_def Let_def split: sum.splits)
  qed (simp add: decodeShort_def)
  moreover have "decodeFull dec h elems \<noteq> None"
    using decodeKids_returns [OF N, of elems 16] by (auto simp: decodeFull_def split: sum.splits)
  ultimately show ?thesis using Inr x by (simp add: decodeNodeUnsafe_def Let_def)
qed (simp add: decodeNodeUnsafe_def)

lemma decodeNodeFuel_returns: "length buf < fuel \<Longrightarrow> length buf < 2 ^ 64 \<Longrightarrow> decodeNodeFuel fuel h buf \<noteq> None"
proof (induction fuel arbitrary: buf h)
  case (Suc fuel)
  show ?case unfolding decodeNodeFuel.simps
    using Suc.prems by (intro decodeNodeUnsafe_returns Suc.IH) simp_all
qed simp

lemma decodeNode_returns: "length buf < 2 ^ 64 \<Longrightarrow> \<exists>r. decodeNode h buf = Some r"
  using decodeNodeFuel_returns [of buf "Suc (length buf)" h] by (auto simp: decodeNode_def)

subsection \<open>Decoding inverts encoding\<close>

lemma encStr_is_frame: "\<exists>k. k \<noteq> List \<and> encStr c = frame k c \<and> frame_ok k c"
proof (cases "length c = 1 \<and> c ! 0 < 0x80")
  case True
  then show ?thesis by (intro exI [of _ Byte]) simp
next
  case False
  then show ?thesis by (intro exI [of _ String]) auto
qed

lemma encStr_Nil: "encStr [] = [0x80]"
  by (simp add: puthead_def)

lemma nil_frame: "[0x80] = frame String []" "frame_ok String []"
  by (simp_all add: puthead_def)

lemma nodeEnc_frame: "\<exists>k c. nodeEnc n = frame k c \<and> frame_ok k c"
proof (cases n)
  case NilN
  then show ?thesis by (intro exI [of _ String] exI [of _ "[]"]) (simp add: puthead_def)
next
  case (Full cs f)
  then show ?thesis by (intro exI [of _ List] exI [of _ "concat (map nodeEnc cs)"]) simp
next
  case (Short k v f)
  then show ?thesis by (intro exI [of _ List] exI [of _ "encStr k @ nodeEnc v"]) simp
next
  case (HashN h)
  then show ?thesis using encStr_is_frame [of h] by (auto simp del: encStr.simps frame.simps frame_ok.simps)
next
  case (ValueN v)
  then show ?thesis using encStr_is_frame [of v] by (auto simp del: encStr.simps frame.simps frame_ok.simps)
qed

lemma CountValues_concat:
  assumes "length (concat ws) < 2 ^ 64" "\<forall>w\<in>set ws. \<exists>k c. w = frame k c \<and> frame_ok k c"
  shows "CountValues (concat ws) = Some (Inr (length ws))"
  unfolding CountValues_def
  using countFrom_frames [OF assms(1), of "Suc (length (concat ws))" 0 "length ws"] assms(2) by auto

lemma SplitString_encStr: "length (encStr c @ rest) < 2 ^ 64 \<Longrightarrow> SplitString (encStr c @ rest) = Inr (c, rest)"
  using SplitString_iff by blast

lemma SplitList_frame: "length (frame List c @ rest) < 2 ^ 64 \<Longrightarrow> SplitList (frame List c @ rest) = Inr (c, rest)"
  unfolding SplitList_def using Split_frame [of List c rest] by simp

lemma decodeRef_Nil: "length rest < 2 ^ 63 \<Longrightarrow> decodeRef dec (0x80 # rest) = Some (Inr (NilN, rest))"
  using Split_frame [of String "[]" rest] by (simp add: decodeRef_def puthead_def)

lemma decodeRef_Hash:
  "length h = 32 \<Longrightarrow> length (encStr h @ rest) < 2 ^ 64 \<Longrightarrow> decodeRef dec (encStr h @ rest) = Some (Inr (HashN h, rest))"
proof -
  assume h: "length h = 32" "length (encStr h @ rest) < 2 ^ 64"
  then have "encStr h = frame String h" "frame_ok String h" by simp_all
  then have "Split (encStr h @ rest) = Inr (String, h, rest)" using Split_frame h(2) by metis
  then show ?thesis using h(1) by (cases h) (simp_all add: decodeRef_def del: encStr.simps)
qed

lemma decodeRef_embedded:
  assumes "length (frame List c @ rest) < 2 ^ 64" "length (frame List c) < 32"
    and "dec (frame List c @ rest) = Some (Inr n)"
  shows "decodeRef dec (frame List c @ rest) = Some (Inr (n, rest))"
  using assms Split_frame [of List c rest] by (simp add: decodeRef_def Let_def del: frame.simps)

text \<open>A child that can be read back by \<open>decodeRef\<close>.\<close>

definition reads_ref :: "node ndec \<Rightarrow> node \<Rightarrow> bool" where
  "reads_ref dec c \<longleftrightarrow> (\<forall>rest. length (nodeEnc (compactKeys c) @ rest) < 2 ^ 63 \<longrightarrow>
     decodeRef dec (nodeEnc (compactKeys c) @ rest) = Some (Inr (reflag None c, rest)))"

lemma decodeKids_reads:
  assumes "\<forall>c\<in>set cs. reads_ref dec c" "length (concat (map (\<lambda>c. nodeEnc (compactKeys c)) cs) @ rest) < 2 ^ 63"
  shows "decodeKids dec (length cs) (concat (map (\<lambda>c. nodeEnc (compactKeys c)) cs) @ rest)
    = Some (Inr (map (reflag None) cs, rest))"
  using assms
proof (induction cs)
  case (Cons c cs)
  let ?r = "concat (map (\<lambda>c. nodeEnc (compactKeys c)) cs) @ rest"
  have "decodeRef dec (nodeEnc (compactKeys c) @ ?r) = Some (Inr (reflag None c, ?r))"
    using Cons.prems unfolding reads_ref_def by simp
  with Cons show ?case by simp
qed simp

definition decodes_node :: "node ndec \<Rightarrow> byte list option \<Rightarrow> node \<Rightarrow> bool" where
  "decodes_node dec h n \<longleftrightarrow> (\<forall>rest. length (nodeEnc (compactKeys n) @ rest) < 2 ^ 63 \<longrightarrow>
     dec (nodeEnc (compactKeys n) @ rest) = Some (Inr (reflag h n)))"

lemma reads_refI:
  assumes "c = NilN \<or> isRef c" "c = NilN \<or> (\<exists>h. c = HashN h) \<or> decodes_node dec None c"
  shows "reads_ref dec c"
  unfolding reads_ref_def
proof (intro allI impI)
  fix rest
  assume l: "length (nodeEnc (compactKeys c) @ rest) < 2 ^ 63"
  show "decodeRef dec (nodeEnc (compactKeys c) @ rest) = Some (Inr (reflag None c, rest))"
  proof (cases c)
    case NilN
    then show ?thesis using l by (simp add: decodeRef_Nil)
  next
    case (HashN h)
    then show ?thesis using l assms(1) by (simp add: decodeRef_Hash del: encStr.simps)
  next
    case (Full cs f)
    then show ?thesis using l assms unfolding decodes_node_def
      by (simp del: frame.simps) (rule decodeRef_embedded, simp_all del: frame.simps)
  next
    case (Short k v f)
    then show ?thesis using l assms unfolding decodes_node_def
      by (simp del: frame.simps encStr.simps) (rule decodeRef_embedded, simp_all del: frame.simps encStr.simps)
  next
    case (ValueN v)
    then show ?thesis using assms(1) by simp
  qed
qed

lemma length_frame_less: "length c < length (frame List c)"
  by (simp add: length_puthead headsize_def)

lemma decode_Full:
  assumes "length cs = 17" "\<forall>c\<in>set (take 16 cs). reads_ref dec c"
    "cs ! 16 = NilN \<or> (\<exists>v. cs ! 16 = ValueN v \<and> v \<noteq> [])"
  shows "decodes_node (decodeNodeUnsafe dec h) h (Full cs f)"
  unfolding decodes_node_def
proof (intro allI impI)
  fix rest
  obtain ds d where cs: "cs = ds @ [d]" "length ds = 16" using assms(1) by (cases cs rule: rev_cases) auto
  then have ds: "\<forall>c\<in>set ds. reads_ref dec c" and d: "d = NilN \<or> (\<exists>v. d = ValueN v \<and> v \<noteq> [])"
    using assms(2,3) by (simp_all add: nth_append)
  let ?E = "\<lambda>c. nodeEnc (compactKeys c)"
  let ?c = "concat (map ?E ds) @ ?E d"
  have E: "nodeEnc (compactKeys (Full cs f)) = frame List ?c" by (simp add: comp_def cs)
  assume l: "length (nodeEnc (compactKeys (Full cs f)) @ rest) < 2 ^ 63"
  have S: "SplitList (frame List ?c @ rest) = Inr (?c, rest)" using l unfolding E by (intro SplitList_frame) simp
  have c: "length ?c < 2 ^ 63" using l length_frame_less [of ?c] unfolding E by simp
  have "CountValues (concat (map ?E (ds @ [d]))) = Some (Inr (length (map ?E (ds @ [d]))))"
    using c nodeEnc_frame by (intro CountValues_concat) auto
  then have n: "CountValues ?c = Some (Inr 17)" using cs(2) by simp
  have "decodeKids dec 16 ?c = Some (Inr (map (reflag None) ds, ?E d))"
    using decodeKids_reads [OF ds, of "?E d"] c unfolding cs(2) by simp
  moreover have "SplitString (?E d) = Inr (case d of ValueN v \<Rightarrow> v | _ \<Rightarrow> [], [])"
    using d SplitString_encStr [of _ "[]"] c by (auto simp: encStr_Nil [symmetric] simp del: encStr.simps)
  ultimately have "decodeFull dec h ?c = Some (Inr (reflag h (Full cs f)))"
    using d by (auto simp: decodeFull_def cs)
  then show "decodeNodeUnsafe dec h (nodeEnc (compactKeys (Full cs f)) @ rest) = Some (Inr (reflag h (Full cs f)))"
    unfolding E using S n frame_nonempty [of List ?c] by (simp add: decodeNodeUnsafe_def del: frame.simps reflag.simps)
qed

lemma decode_Short:
  assumes "case v of ValueN b \<Rightarrow> hexkey k | _ \<Rightarrow> nibs k \<and> reads_ref dec v"
  shows "decodes_node (decodeNodeUnsafe dec h) h (Short k v f)"
  unfolding decodes_node_def
proof (intro allI impI)
  fix rest
  let ?v = "nodeEnc (compactKeys v)"
  obtain t k' where k: "k = key_of t k'" "nibs k'" "t \<longleftrightarrow> (\<exists>b. v = ValueN b)"
  proof (cases "\<exists>b. v = ValueN b")
    case True
    then show ?thesis using that [of True] assms by (auto simp: hexkey_def key_of_def)
  next
    case False
    then show ?thesis using that [of False k] assms by (auto simp: key_of_def split: node.splits)
  qed
  then have kc: "hexToCompact k = Some (compact_of t k')" "compactToHex (compact_of t k') = k"
    using hexToCompact_key_of nibs_no_term compact_of_inverse by auto
  let ?c = "encStr (compact_of t k') @ ?v"
  have E: "nodeEnc (compactKeys (Short k v f)) = frame List ?c" by (simp add: kc del: encStr.simps frame.simps)
  assume l: "length (nodeEnc (compactKeys (Short k v f)) @ rest) < 2 ^ 63"
  have S: "SplitList (frame List ?c @ rest) = Inr (?c, rest)" using l unfolding E by (intro SplitList_frame) simp
  have c: "length ?c < 2 ^ 63" using l length_frame_less [of ?c] unfolding E by simp
  have "CountValues (concat [encStr (compact_of t k'), ?v]) = Some (Inr (length [encStr (compact_of t k'), ?v]))"
    using c nodeEnc_frame [of "compactKeys v"] encStr_is_frame [of "compact_of t k'"]
    by (intro CountValues_concat) (auto simp del: encStr.simps frame.simps frame_ok.simps)
  then have n: "CountValues ?c = Some (Inr 2)" by (simp del: encStr.simps)
  have K: "SplitString ?c = Inr (compact_of t k', ?v)" using c by (intro SplitString_encStr) simp
  have T: "hasTerm k \<longleftrightarrow> t" using k(1,2) nibs_no_term by (cases t) (simp_all add: key_of_def)
  have "decodeShort dec h ?c = Some (Inr (reflag h (Short k v f)))"
  proof (cases t)
    case True
    then obtain b where b: "v = ValueN b" using k(3) by blast
    have "SplitString ?v = Inr (b, [])" using SplitString_encStr [of b "[]"] c b by (simp del: encStr.simps)
    then show ?thesis using K T True kc b by (simp add: decodeShort_def Let_def del: encStr.simps)
  next
    case False
    then have "reads_ref dec v" using assms k(3) by (auto split: node.splits)
    then have "decodeRef dec ?v = Some (Inr (reflag None v, []))" using c unfolding reads_ref_def
      by (metis append_Nil2 le_less_trans length_append le_add2)
    then show ?thesis using K T False kc by (simp add: decodeShort_def Let_def del: encStr.simps)
  qed
  then show "decodeNodeUnsafe dec h (nodeEnc (compactKeys (Short k v f)) @ rest) = Some (Inr (reflag h (Short k v f)))"
    unfolding E using S n frame_nonempty [of List ?c]
    by (simp add: decodeNodeUnsafe_def del: frame.simps reflag.simps encStr.simps)
qed

lemma decode_stored:
  "stored n \<Longrightarrow> n \<noteq> NilN \<Longrightarrow> (\<forall>x. n \<noteq> HashN x \<and> n \<noteq> ValueN x) \<Longrightarrow> length (nodeEnc (compactKeys n)) < fuel \<Longrightarrow>
    decodes_node (decodeNodeFuel fuel h) h n"
proof (induction n arbitrary: fuel h)
  case (Full cs f)
  obtain fl where fl: "fuel = Suc fl" using Full.prems by (cases fuel) auto
  let ?E = "\<lambda>c. nodeEnc (compactKeys c)"
  have lt: "length (?E c) < fl" if "c \<in> set cs" for c
    using length_in_concat [OF that, of ?E] length_frame_less [of "concat (map ?E cs)"] Full.prems(4) fl
    by (simp add: comp_def del: frame.simps)
  have "reads_ref (decodeNodeFuel fl None) c" if "c \<in> set (take 16 cs)" for c
  proof (rule reads_refI)
    have c: "c \<in> set cs" using that by (rule in_set_takeD)
    then have "stored c" using Full.prems(1) by (auto simp: list_all_iff)
    show r: "c = NilN \<or> isRef c" using Full.prems(1) that by simp
    show "c = NilN \<or> (\<exists>h. c = HashN h) \<or> decodes_node (decodeNodeFuel fl None) None c"
      using Full.IH [OF c \<open>stored c\<close> _ _ lt [OF c]] r by (cases c) auto
  qed
  moreover have "cs ! 16 = NilN \<or> (\<exists>v. cs ! 16 = ValueN v \<and> v \<noteq> [])"
    using Full.prems(1) by (auto split: node.splits)
  ultimately show ?case unfolding fl decodeNodeFuel.simps(2)
    using decode_Full [of cs "decodeNodeFuel fl None" h f] Full.prems(1) by (simp add: decodes_node_def)
next
  case (Short k v f)
  obtain fl where fl: "fuel = Suc fl" using Short.prems by (cases fuel) auto
  have lt: "length (nodeEnc (compactKeys v)) < fl"
    using length_frame_less [of "encStr (the (hexToCompact k)) @ nodeEnc (compactKeys v)"] Short.prems(4) fl
    by (simp del: frame.simps encStr.simps)
  have "case v of ValueN b \<Rightarrow> hexkey k | _ \<Rightarrow> nibs k \<and> reads_ref (decodeNodeFuel fl None) v"
  proof (cases "\<exists>b. v = ValueN b")
    case False
    then have v: "nibs k" "isRef v" "stored v" using Short.prems(1) by (auto split: node.splits)
    then have "reads_ref (decodeNodeFuel fl None) v"
      using Short.IH [OF v(3) _ _ lt, of None] False by (intro reads_refI) (cases v; auto)+
    then show ?thesis using v False by (auto split: node.splits)
  qed (use Short.prems(1) in auto)
  from decode_Short [OF this, of h f] show ?case unfolding fl by (simp add: decodes_node_def)
qed auto

lemma decode_stored_node:
  assumes "stored n" "n \<noteq> NilN" "\<forall>x. n \<noteq> HashN x \<and> n \<noteq> ValueN x" "length (nodeEnc (compactKeys n)) < 2 ^ 63"
  shows "decodeNode h (nodeEnc (compactKeys n)) = Some (Inr (reflag h n))"
proof -
  have "decodes_node (decodeNodeFuel (Suc (length (nodeEnc (compactKeys n)))) h) h n"
    by (rule decode_stored [OF assms(1-3)]) simp
  then show ?thesis using assms(4) unfolding decodes_node_def decodeNode_def by (metis append_Nil2)
qed

text \<open>
  C33: Storing a trie node loses nothing: the bytes \<open>nodeToBytes\<close> writes for a node in storage form,
  with its keys compacted, are decoded by \<open>decodeNode\<close> to the node itself, marked clean and with
  the hash it was looked up by; and \<open>decodeNode\<close> returns a node or an error on every input.
\<close>

theorem decodeNode_nodeToBytes:
  assumes "stored n" and "n \<noteq> NilN" and "\<forall>x. n \<noteq> HashN x \<and> n \<noteq> ValueN x"
    and "length (nodeEnc (compactKeys n)) < 2 ^ 63"
  shows "(\<exists>b. nodeToBytes (compactKeys n) = Some b \<and> decodeNode h b = Some (Inr (reflag h n))) \<and>
    (\<forall>buf. length buf < 2 ^ 64 \<longrightarrow> (\<exists>r. decodeNode h buf = Some r))"
  using nodeToBytes_nodeEnc [OF assms(4)] decode_stored_node [OF assms] decodeNode_returns by blast

theorem decodeNode_nodeToBytes_witness:
  "\<exists>b. nodeToBytes (compactKeys (Short [1, 2, 16] (ValueN [7]) newFlag)) = Some b \<and>
    decodeNode None b = Some (Inr (Short [1, 2, 16] (ValueN [7]) \<lparr> nf_hash = None, nf_dirty = False \<rparr>))"
proof -
  have "hexkey [1, 2, 16]" unfolding hexkey_def by (intro exI [of _ "[1, 2]"]) simp
  moreover have "length (nodeEnc (compactKeys (Short [1, 2, 16] (ValueN [7]) newFlag))) < 2 ^ 63"
    by (simp add: hexToCompact_def hasTerm_def puthead_def)
  ultimately show ?thesis using decodeNode_nodeToBytes [of "Short [1, 2, 16] (ValueN [7]) newFlag" None] by simp
qed

end
