(* ===== verification/Trie_Ops.thy ===== *)
theory Trie_Ops
  imports Trie_Node
begin

text \<open>
  The operations of \<open>trie/trie.go\<close> on a trie whose nodes are partly loaded: reading, inserting
  and deleting, with the nodes that are only known by their hash loaded from the reader on the
  way, and with the tracer (\<open>trie/tracer.go\<close>) that records what was read, inserted and deleted.
\<close>

subsection \<open>The tracer\<close>

record tracer =
  inserts :: "(byte list, unit) gomap"
  deletes :: "(byte list, unit) gomap"
  accessList :: "(byte list, byte list) gomap"

definition newTracer :: tracer where
  "newTracer = \<lparr> inserts = [], deletes = [], accessList = [] \<rparr>"

definition onRead :: "byte list \<Rightarrow> byte list \<Rightarrow> tracer \<Rightarrow> tracer" where
  "onRead path val t = t\<lparr> accessList := mput path val (accessList t) \<rparr>"

definition onInsert :: "byte list \<Rightarrow> tracer \<Rightarrow> tracer" where
  "onInsert path t =
     (if mhas (deletes t) path then t\<lparr> deletes := mdel path (deletes t) \<rparr>
      else t\<lparr> inserts := mput path () (inserts t) \<rparr>)"

definition onDelete :: "byte list \<Rightarrow> tracer \<Rightarrow> tracer" where
  "onDelete path t =
     (if mhas (inserts t) path then t\<lparr> inserts := mdel path (inserts t) \<rparr>
      else t\<lparr> deletes := mput path () (deletes t) \<rparr>)"

definition tracer_reset :: "tracer \<Rightarrow> tracer" where
  "tracer_reset t = newTracer"

definition deletedNodes :: "tracer \<Rightarrow> byte list list" where
  "deletedNodes t = filter (\<lambda>path. mhas (accessList t) path) (mkeys (deletes t))"

subsection \<open>The reader\<close>

text \<open>
  The backing store is a parameter: \<open>Node owner path hash\<close>, \<open>None\<close> for an error.  \<open>banned\<close> is the
  test hook of the source.
\<close>

datatype trie_err = MissingNodeError hash hash "byte list" | ErrCommitted | ErrNonConsensus

record trieReader =
  tr_owner :: hash
  tr_reader :: "(hash \<Rightarrow> byte list \<Rightarrow> hash \<Rightarrow> byte list option) option"
  banned :: "byte list list"

definition reader_node :: "trieReader \<Rightarrow> byte list \<Rightarrow> hash \<Rightarrow> trie_err + byte list" where
  "reader_node r path hash =
     (if path \<in> set (banned r) then Inl (MissingNodeError (tr_owner r) hash path)
      else
        (case tr_reader r of
           None \<Rightarrow> Inl (MissingNodeError (tr_owner r) hash path)
         | Some nd \<Rightarrow>
             (case nd (tr_owner r) path hash of
                None \<Rightarrow> Inl (MissingNodeError (tr_owner r) hash path)
              | Some blob \<Rightarrow>
                  if length blob = 0 then Inl (MissingNodeError (tr_owner r) hash path) else Inr blob)))"

subsection \<open>Computations on a trie\<close>

text \<open>
  A computation changes the tracer and returns, fails or panics; \<open>None\<close> is fuel that ran out.
\<close>

type_synonym 'a tm = "tracer \<Rightarrow> ((trie_err, 'a) outcome \<times> tracer) option"

definition tret :: "'a \<Rightarrow> 'a tm" where
  "tret x t = Some (Ok x, t)"

definition tpanic :: "'a tm" where
  "tpanic t = Some (Panic, t)"

definition ttrace :: "(tracer \<Rightarrow> tracer) \<Rightarrow> unit tm" where
  "ttrace f t = Some (Ok (), f t)"

definition tbind :: "'a tm \<Rightarrow> ('a \<Rightarrow> 'b tm) \<Rightarrow> 'b tm" where
  "tbind m f t =
     (case m t of
        None \<Rightarrow> None
      | Some (Ok x, t) \<Rightarrow> f x t
      | Some (Err e, t) \<Rightarrow> Some (Err e, t)
      | Some (Panic, t) \<Rightarrow> Some (Panic, t))"

definition resolveAndTrack :: "trieReader \<Rightarrow> byte list \<Rightarrow> byte list \<Rightarrow> node tm" where
  "resolveAndTrack r n prefix t =
     (case reader_node r prefix (BytesToHash n) of
        Inl e \<Rightarrow> Some (Err e, t)
      | Inr blob \<Rightarrow>
          let t = onRead prefix blob t in
          (case decodeNode (Some n) blob of
             None \<Rightarrow> None
           | Some (Inl e) \<Rightarrow> Some (Panic, t)
           | Some (Inr n) \<Rightarrow> Some (Ok n, t)))"

definition resolve :: "trieReader \<Rightarrow> node \<Rightarrow> byte list \<Rightarrow> node tm" where
  "resolve r n prefix = (case n of HashN h \<Rightarrow> resolveAndTrack r h prefix | _ \<Rightarrow> tret n)"

subsection \<open>Reading\<close>

text \<open>The value, the node with what was loaded, and whether something was loaded.\<close>

primrec get :: "nat \<Rightarrow> trieReader \<Rightarrow> node \<Rightarrow> byte list \<Rightarrow> nat \<Rightarrow> (byte list option \<times> node \<times> bool) tm" where
  "get 0 r n key pos = (\<lambda>t. None)"
| "get (Suc fuel) r n key pos =
     (case n of
        NilN \<Rightarrow> tret (None, NilN, False)
      | ValueN v \<Rightarrow> tret (Some v, n, False)
      | Short nk nv nf \<Rightarrow>
          if length key - pos < length nk \<or> nk \<noteq> take (length nk) (drop pos key) then tret (None, n, False)
          else
            tbind (get fuel r nv key (pos + length nk)) (\<lambda>(v, newnode, didResolve).
              tret (v, if didResolve then Short nk newnode nf else n, didResolve))
      | Full cs nf \<Rightarrow>
          if pos < length key \<and> unat (key ! pos) < length cs then
            tbind (get fuel r (cs ! unat (key ! pos)) key (pos + 1)) (\<lambda>(v, newnode, didResolve).
              tret (v, if didResolve then Full (cs[unat (key ! pos) := newnode]) nf else n, didResolve))
          else tpanic
      | HashN h \<Rightarrow>
          tbind (resolveAndTrack r h (take pos key)) (\<lambda>child.
            tbind (get fuel r child key pos) (\<lambda>(v, newnode, _). tret (v, newnode, True))))"

text \<open>A computation whose error is a value, for code that goes on after it.\<close>

definition tcatch :: "'a tm \<Rightarrow> (trie_err + 'a) tm" where
  "tcatch m t =
     (case m t of
        None \<Rightarrow> None
      | Some (Ok x, t) \<Rightarrow> Some (Ok (Inr x), t)
      | Some (Err e, t) \<Rightarrow> Some (Ok (Inl e), t)
      | Some (Panic, t) \<Rightarrow> Some (Panic, t))"

text \<open>
  \<open>getNode\<close> returns the stored bytes of the node at a path, the node with what was loaded, the
  number of nodes it loaded, and the error; the number is counted up on the way back from an
  error as well.
\<close>

primrec getNode :: "nat \<Rightarrow> trieReader \<Rightarrow> node \<Rightarrow> byte list \<Rightarrow> nat
    \<Rightarrow> (byte list option \<times> node \<times> nat \<times> trie_err option) tm" where
  "getNode 0 r n path pos = (\<lambda>t. None)"
| "getNode (Suc fuel) r n path pos =
     (if n = NilN then tret (None, NilN, 0, None)
      else if length path \<le> pos then
        (case (case n of HashN h \<Rightarrow> Some h | _ \<Rightarrow> fst (cache n)) of
           None \<Rightarrow> tret (None, n, 0, Some ErrNonConsensus)
         | Some hash \<Rightarrow>
             (case reader_node r path (BytesToHash hash) of
                Inl e \<Rightarrow> tret (None, n, 1, Some e)
              | Inr blob \<Rightarrow> tret (Some blob, n, 1, None)))
      else
        (case n of
           ValueN v \<Rightarrow> tret (None, NilN, 0, None)
         | Short nk nv nf \<Rightarrow>
             if length path - pos < length nk \<or> nk \<noteq> take (length nk) (drop pos path) then tret (None, n, 0, None)
             else
               tbind (getNode fuel r nv path (pos + length nk)) (\<lambda>(item, newnode, resolved, err).
                 tret (item, if err = None \<and> resolved > 0 then Short nk newnode nf else n, resolved, err))
         | Full cs nf \<Rightarrow>
             if unat (path ! pos) < length cs then
               tbind (getNode fuel r (cs ! unat (path ! pos)) path (pos + 1)) (\<lambda>(item, newnode, resolved, err).
                 tret (item, if err = None \<and> resolved > 0 then Full (cs[unat (path ! pos) := newnode]) nf else n, resolved, err))
             else tpanic
         | HashN h \<Rightarrow>
             tbind (tcatch (resolveAndTrack r h (take pos path))) (\<lambda>res.
               case res of
                 Inl e \<Rightarrow> tret (None, n, 1, Some e)
               | Inr child \<Rightarrow>
                   tbind (getNode fuel r child path pos) (\<lambda>(item, newnode, resolved, err).
                     tret (item, newnode, resolved + 1, err)))
         | NilN \<Rightarrow> tpanic))"

subsection \<open>Inserting\<close>

primrec insertAt :: "nat \<Rightarrow> trieReader \<Rightarrow> node \<Rightarrow> byte list \<Rightarrow> byte list \<Rightarrow> node \<Rightarrow> (bool \<times> node) tm" where
  "insertAt 0 r n prefix key value = (\<lambda>t. None)"
| "insertAt (Suc fuel) r n prefix key value =
     (if key = [] then
        (case n of
           ValueN v \<Rightarrow> (case value of ValueN w \<Rightarrow> tret (v \<noteq> w, value) | _ \<Rightarrow> tpanic)
         | _ \<Rightarrow> tret (True, value))
      else
        (case n of
           Short nk nv nf \<Rightarrow>
             let matchlen = prefixLen key nk in
             if matchlen = length nk then
               tbind (insertAt fuel r nv (prefix @ take matchlen key) (drop matchlen key) value) (\<lambda>(dirty, nn).
                 if \<not> dirty then tret (False, n) else tret (True, Short nk nn newFlag))
             else
               tbind (insertAt fuel r NilN (prefix @ take (matchlen + 1) nk) (drop (matchlen + 1) nk) nv) (\<lambda>(_, c1).
                 if length key \<le> matchlen \<or> 17 \<le> unat (nk ! matchlen) \<or> 17 \<le> unat (key ! matchlen) then tpanic
                 else
                   tbind (insertAt fuel r NilN (prefix @ take (matchlen + 1) key) (drop (matchlen + 1) key) value) (\<lambda>(_, c2).
                     let branch = Full ((replicate 17 NilN)[unat (nk ! matchlen) := c1, unat (key ! matchlen) := c2]) newFlag
                     in if matchlen = 0 then tret (True, branch)
                        else
                          tbind (ttrace (onInsert (prefix @ take matchlen key)))
                            (\<lambda>_. tret (True, Short (take matchlen key) branch newFlag))))
         | Full cs nf \<Rightarrow>
             if unat (key ! 0) < length cs then
               tbind (insertAt fuel r (cs ! unat (key ! 0)) (prefix @ [key ! 0]) (drop 1 key) value) (\<lambda>(dirty, nn).
                 if \<not> dirty then tret (False, n) else tret (True, Full (cs[unat (key ! 0) := nn]) newFlag))
             else tpanic
         | NilN \<Rightarrow> tbind (ttrace (onInsert prefix)) (\<lambda>_. tret (True, Short key value newFlag))
         | HashN h \<Rightarrow>
             tbind (resolveAndTrack r h prefix) (\<lambda>rn.
               tbind (insertAt fuel r rn prefix key value) (\<lambda>(dirty, nn).
                 if \<not> dirty then tret (False, rn) else tret (True, nn)))
         | ValueN v \<Rightarrow> tpanic))"

subsection \<open>Deleting\<close>

text \<open>
  The scan for the only child left: its index, -1 if there is none, -2 if there are several.
\<close>

fun onlyChild :: "nat \<Rightarrow> int \<Rightarrow> node list \<Rightarrow> int" where
  "onlyChild i pos [] = pos"
| "onlyChild i pos (c # cs) =
     (if c \<noteq> NilN then if pos = -1 then onlyChild (i + 1) (int i) cs else -2
      else onlyChild (i + 1) pos cs)"

text \<open>What is left of a full node when one of its children disappears.\<close>

definition reduce :: "trieReader \<Rightarrow> node list \<Rightarrow> byte list \<Rightarrow> (bool \<times> node) tm" where
  "reduce r cs prefix =
     (let pos = onlyChild 0 (-1) cs in
      if pos \<ge> 0 then
        let only = tret (True, Short [word_of_int pos] (cs ! nat pos) newFlag) in
        if pos \<noteq> 16 then
          tbind (resolve r (cs ! nat pos) (prefix @ [word_of_int pos])) (\<lambda>cnode.
            case cnode of
              Short ck cv cf \<Rightarrow>
                tbind (ttrace (onDelete (prefix @ [word_of_int pos])))
                  (\<lambda>_. tret (True, Short (word_of_int pos # ck) cv newFlag))
            | _ \<Rightarrow> only)
        else only
      else tret (True, Full cs newFlag))"

primrec delete :: "nat \<Rightarrow> trieReader \<Rightarrow> node \<Rightarrow> byte list \<Rightarrow> byte list \<Rightarrow> (bool \<times> node) tm" where
  "delete 0 r n prefix key = (\<lambda>t. None)"
| "delete (Suc fuel) r n prefix key =
     (case n of
        Short nk nv nf \<Rightarrow>
          let matchlen = prefixLen key nk in
          if matchlen < length nk then tret (False, n)
          else if matchlen = length key then tbind (ttrace (onDelete prefix)) (\<lambda>_. tret (True, NilN))
          else
            tbind (delete fuel r nv (prefix @ take (length nk) key) (drop (length nk) key)) (\<lambda>(dirty, child).
              if \<not> dirty then tret (False, n)
              else
                (case child of
                   Short ck cv cf \<Rightarrow>
                     tbind (ttrace (onDelete (prefix @ nk))) (\<lambda>_. tret (True, Short (nk @ ck) cv newFlag))
                 | _ \<Rightarrow> tret (True, Short nk child newFlag)))
      | Full cs nf \<Rightarrow>
          if key \<noteq> [] \<and> unat (key ! 0) < length cs then
            tbind (delete fuel r (cs ! unat (key ! 0)) (prefix @ [key ! 0]) (drop 1 key)) (\<lambda>(dirty, nn).
              if \<not> dirty then tret (False, n)
              else
                let cs = cs[unat (key ! 0) := nn]
                in if nn \<noteq> NilN then tret (True, Full cs newFlag) else reduce r cs prefix)
          else tpanic
      | ValueN v \<Rightarrow> tret (True, NilN)
      | NilN \<Rightarrow> tret (False, NilN)
      | HashN h \<Rightarrow>
          tbind (resolveAndTrack r h prefix) (\<lambda>rn.
            tbind (delete fuel r rn prefix key) (\<lambda>(dirty, nn).
              if \<not> dirty then tret (False, rn) else tret (True, nn))))"

subsection \<open>The trie\<close>

text \<open>
  Two units of fuel per nibble cover a descent that loads every node on its way, with some to spare.
\<close>

record Trie =
  root :: node
  owner :: hash
  committed :: bool
  unhashed :: nat
  reader :: trieReader
  trace :: tracer

definition fuel_for :: "byte list \<Rightarrow> nat" where
  "fuel_for k = 2 * length k + 2"

definition trie_Get :: "Trie \<Rightarrow> byte list \<Rightarrow> ((trie_err, byte list option) outcome \<times> Trie) option" where
  "trie_Get t key =
     (if committed t then Some (Err ErrCommitted, t)
      else
        let k = keybytesToHex key in
        (case get (fuel_for k) (reader t) (root t) k 0 (trace t) of
           None \<Rightarrow> None
         | Some (Ok (v, newroot, didResolve), tr) \<Rightarrow>
             Some (Ok v, t\<lparr> trace := tr, root := if didResolve then newroot else root t \<rparr>)
         | Some (Err e, tr) \<Rightarrow> Some (Err e, t\<lparr> trace := tr \<rparr>)
         | Some (Panic, tr) \<Rightarrow> Some (Panic, t\<lparr> trace := tr \<rparr>)))"

definition trie_GetNode :: "Trie \<Rightarrow> byte list
    \<Rightarrow> ((trie_err, byte list option \<times> nat \<times> trie_err option) outcome \<times> Trie) option" where
  "trie_GetNode t path =
     (if committed t then Some (Ok (None, 0, Some ErrCommitted), t)
      else
        let k = compactToHex path in
        (case getNode (fuel_for k) (reader t) (root t) k 0 (trace t) of
           None \<Rightarrow> None
         | Some (Ok (item, newroot, resolved, err), tr) \<Rightarrow>
             if err \<noteq> None then Some (Ok (None, resolved, err), t\<lparr> trace := tr \<rparr>)
             else Some (Ok (item, resolved, None), t\<lparr> trace := tr, root := if resolved > 0 then newroot else root t \<rparr>)
         | Some (Err e, tr) \<Rightarrow> Some (Err e, t\<lparr> trace := tr \<rparr>)
         | Some (Panic, tr) \<Rightarrow> Some (Panic, t\<lparr> trace := tr \<rparr>)))"

text \<open>The result of an update: the new root, or the error with the tracer as far as it got.\<close>

definition set_root :: "Trie \<Rightarrow> ((trie_err, bool \<times> node) outcome \<times> tracer) option
    \<Rightarrow> ((trie_err, unit) outcome \<times> Trie) option" where
  "set_root t res =
     (case res of
        None \<Rightarrow> None
      | Some (Ok (_, n), tr) \<Rightarrow> Some (Ok (), t\<lparr> trace := tr, root := n \<rparr>)
      | Some (Err e, tr) \<Rightarrow> Some (Err e, t\<lparr> trace := tr \<rparr>)
      | Some (Panic, tr) \<Rightarrow> Some (Panic, t\<lparr> trace := tr \<rparr>))"

definition trie_Delete :: "Trie \<Rightarrow> byte list \<Rightarrow> ((trie_err, unit) outcome \<times> Trie) option" where
  "trie_Delete t key =
     (if committed t then Some (Err ErrCommitted, t)
      else
        let t = t\<lparr> unhashed := unhashed t + 1 \<rparr>; k = keybytesToHex key
        in set_root t (delete (fuel_for k) (reader t) (root t) [] k (trace t)))"

definition trie_Update :: "Trie \<Rightarrow> byte list \<Rightarrow> byte list \<Rightarrow> ((trie_err, unit) outcome \<times> Trie) option" where
  "trie_Update t key val =
     (if committed t then Some (Err ErrCommitted, t)
      else
        let t = t\<lparr> unhashed := unhashed t + 1 \<rparr>; k = keybytesToHex key
        in if length val \<noteq> 0 then set_root t (insertAt (fuel_for k) (reader t) (root t) [] k (ValueN val) (trace t))
           else set_root t (delete (fuel_for k) (reader t) (root t) [] k (trace t)))"

text \<open>The wrappers that log an error and go on; a panic or an endless descent leaves no trie.\<close>

definition MustGet :: "Trie \<Rightarrow> byte list \<Rightarrow> (byte list option \<times> Trie) option" where
  "MustGet t key =
     (case trie_Get t key of
        Some (Ok v, t) \<Rightarrow> Some (v, t) | Some (Err e, t) \<Rightarrow> Some (None, t) | _ \<Rightarrow> None)"

definition MustUpdate :: "Trie \<Rightarrow> byte list \<Rightarrow> byte list \<Rightarrow> Trie option" where
  "MustUpdate t key val =
     (case trie_Update t key val of Some (Ok _, t) \<Rightarrow> Some t | Some (Err e, t) \<Rightarrow> Some t | _ \<Rightarrow> None)"

definition MustDelete :: "Trie \<Rightarrow> byte list \<Rightarrow> Trie option" where
  "MustDelete t key =
     (case trie_Delete t key of Some (Ok _, t) \<Rightarrow> Some t | Some (Err e, t) \<Rightarrow> Some t | _ \<Rightarrow> None)"

subsection \<open>Well-formed tries and their content\<close>

definition resolves :: "trieReader \<Rightarrow> byte list \<Rightarrow> byte list \<Rightarrow> node \<Rightarrow> bool" where
  "resolves r h p n \<longleftrightarrow>
     (\<exists>blob. reader_node r p (BytesToHash h) = Inr blob \<and> decodeNode (Some h) blob = Some (Inr n))"

fun inner :: "node \<Rightarrow> bool" where
  "inner (Full cs f) = True"
| "inner (Short k v f) = True"
| "inner n = False"

definition isFull :: "trieReader \<Rightarrow> byte list \<Rightarrow> node \<Rightarrow> bool" where
  "isFull r p n \<longleftrightarrow> (\<exists>cs f. n = Full cs f) \<or> (\<exists>h cs f. n = HashN h \<and> resolves r h p (Full cs f))"

text \<open>
  A well-formed node at path \<open>p\<close> in minimal form: leaves hold a value under the rest of the key and
  its terminator, extensions lead to full nodes, full nodes have at least two children, and what is
  only known by its hash can be loaded.
\<close>

inductive tok :: "trieReader \<Rightarrow> byte list \<Rightarrow> node \<Rightarrow> bool" for r where
  tk_leaf: "nibs k \<Longrightarrow> v \<noteq> [] \<Longrightarrow> tok r p (Short (k @ [16]) (ValueN v) f)"
| tk_ext: "k \<noteq> [] \<Longrightarrow> nibs k \<Longrightarrow> isFull r (p @ k) c \<Longrightarrow> tok r (p @ k) c \<Longrightarrow> tok r p (Short k c f)"
| tk_full: "length cs = 17 \<Longrightarrow> (\<And>x. x < 16 \<Longrightarrow> cs ! unat x = NilN \<or> tok r (p @ [x]) (cs ! unat x)) \<Longrightarrow>
    cs ! 16 = NilN \<or> (\<exists>v. cs ! 16 = ValueN v \<and> v \<noteq> []) \<Longrightarrow>
    (\<exists>i j. i < j \<and> j < 17 \<and> cs ! i \<noteq> NilN \<and> cs ! j \<noteq> NilN) \<Longrightarrow> tok r p (Full cs f)"
| tk_hash: "resolves r h p n \<Longrightarrow> inner n \<Longrightarrow> tok r p n \<Longrightarrow> tok r p (HashN h)"

text \<open>The entries below a node: the rest of the key and the value.\<close>

inductive entry :: "trieReader \<Rightarrow> byte list \<Rightarrow> node \<Rightarrow> byte list \<Rightarrow> byte list \<Rightarrow> bool" for r where
  e_value: "entry r p (ValueN v) [] v"
| e_short: "entry r (p @ k) c k' v \<Longrightarrow> entry r p (Short k c f) (k @ k') v"
| e_full: "unat x < length cs \<Longrightarrow> entry r (p @ [x]) (cs ! unat x) k v \<Longrightarrow> entry r p (Full cs f) (x # k) v"
| e_hash: "resolves r h p n \<Longrightarrow> entry r p n k v \<Longrightarrow> entry r p (HashN h) k v"

inductive_simps tok_simps:
  "tok r p NilN" "tok r p (ValueN v)" "tok r p (Short k c f)" "tok r p (Full cs f)" "tok r p (HashN h)"

inductive_simps entry_simps [simp]:
  "entry r p NilN k v" "entry r p (ValueN w) k v" "entry r p (Short nk c f) k v" "entry r p (Full cs f) [] v"
  "entry r p (Full cs f) (x # k) v" "entry r p (HashN h) k v"

lemma tok_not_value [simp]: "\<not> tok r p NilN" "\<not> tok r p (ValueN v)"
  by (simp_all add: tok_simps)

lemma resolves_unique: "resolves r h p n \<Longrightarrow> resolves r h p n' \<Longrightarrow> n = n'"
  by (auto simp: resolves_def)

lemma resolveAndTrack_resolves:
  "resolves r h p n \<Longrightarrow> \<exists>t'. resolveAndTrack r h p t = Some (Ok n, t')"
  by (auto simp: resolves_def resolveAndTrack_def Let_def)

lemma entry_unique: "entry r p n k v \<Longrightarrow> entry r p n k w \<Longrightarrow> v = w"
proof (induction arbitrary: w rule: entry.induct)
  case (e_hash h p n k v)
  from e_hash.prems obtain n' where "resolves r h p n'" "entry r p n' k w" by auto
  then show ?case using resolves_unique [OF e_hash.hyps(1)] e_hash.IH by blast
qed auto

lemma tok_hash_inner: "tok r p (HashN h) \<Longrightarrow> \<exists>n. resolves r h p n \<and> inner n \<and> tok r p n"
  by (simp add: tok_simps)

lemma isFull_simps [simp]: "isFull r p (Full cs f)" "\<not> isFull r p (Short k c f)" "\<not> isFull r p NilN"
  "\<not> isFull r p (ValueN v)"
  by (simp_all add: isFull_def)

lemma isFull_resolved: "isFull r p (HashN h) \<Longrightarrow> resolves r h p n \<Longrightarrow> isFull r p n"
  by (auto simp: isFull_def dest: resolves_unique)

subsection \<open>Facts on keys\<close>

lemma nibs_16: "nibs k \<Longrightarrow> 16 \<notin> set k"
  by (auto simp: nibs_def)

lemma hexkey_ne [simp]: "\<not> hexkey []"
  by (simp add: hexkey_def)

lemma hexkey_Cons: "hexkey (x # k) \<longleftrightarrow> (x = 16 \<and> k = []) \<or> (x < 16 \<and> hexkey k)"
proof
  assume "hexkey (x # k)"
  then obtain k' where "nibs k'" "x # k = k' @ [16]" unfolding hexkey_def by blast
  then show "(x = 16 \<and> k = []) \<or> (x < 16 \<and> hexkey k)" by (cases k') (auto simp: hexkey_def)
next
  assume "(x = 16 \<and> k = []) \<or> (x < 16 \<and> hexkey k)"
  then show "hexkey (x # k)"
  proof
    assume "x = 16 \<and> k = []"
    then show ?thesis unfolding hexkey_def by (intro exI [of _ "[]"]) simp
  next
    assume "x < 16 \<and> hexkey k"
    then obtain k' where "nibs k'" "k = k' @ [16]" "x < 16" unfolding hexkey_def by blast
    then show ?thesis unfolding hexkey_def by (intro exI [of _ "x # k'"]) simp
  qed
qed

lemma hexkey_append: "nibs a \<Longrightarrow> hexkey (a @ b) \<longleftrightarrow> hexkey b"
  by (induction a) (auto simp: hexkey_Cons)

lemma hexkey_nibs: "hexkey k \<Longrightarrow> nibs k \<Longrightarrow> False"
  unfolding hexkey_def by auto

lemma hexkey_prefix: "hexkey a \<Longrightarrow> hexkey (a @ b) \<Longrightarrow> b = []"
  by (induction a) (auto simp: hexkey_Cons)

lemma nib_16: "x < 16 \<Longrightarrow> (x::byte) \<noteq> 16"
  by auto

lemma unat_nib: "x < 16 \<Longrightarrow> unat (x::byte) < 16"
  by (simp add: word_less_nat_alt)

lemma nib_unat_eq: "unat (x::byte) = unat y \<longleftrightarrow> x = y"
  by (simp add: word_unat_eq_iff)

end
