(* ===== verification/Trie_Map.thy ===== *)
theory Trie_Map
  imports Trie_Ops
begin

text \<open>
  The trie as a map: reading returns the entry of a key, inserting and deleting change exactly
  that entry, every operation keeps the trie well formed and in minimal form, and no operation
  fails, panics or runs out of fuel on a well-formed trie.
\<close>

subsection \<open>Replacing a child\<close>

lemma unat_nib_17: "x < 16 \<Longrightarrow> unat (x::byte) < 17"
  using unat_nib [of x] by simp

lemma upd_not_Nil: "cs ! i \<noteq> NilN \<Longrightarrow> c \<noteq> NilN \<Longrightarrow> cs[m := c] ! i \<noteq> NilN"
proof (cases "m = i")
  case True
  then show "cs ! i \<noteq> NilN \<Longrightarrow> c \<noteq> NilN \<Longrightarrow> cs[m := c] ! i \<noteq> NilN"
    by (cases "i < length cs") (simp_all add: list_update_beyond)
qed simp

lemma tok_Full_child:
  assumes "tok r p (Full cs f)" "x < 16" "tok r (p @ [x]) c"
  shows "tok r p (Full (cs[unat x := c]) f')"
proof (rule tk_full)
  have F: "length cs = 17" "\<And>y. y < 16 \<Longrightarrow> cs ! unat y = NilN \<or> tok r (p @ [y]) (cs ! unat y)"
    "cs ! 16 = NilN \<or> (\<exists>v. cs ! 16 = ValueN v \<and> v \<noteq> [])"
    using assms(1) by (auto simp: tok_simps)
  obtain i j where ij: "i < j" "j < 17" "cs ! i \<noteq> NilN" "cs ! j \<noteq> NilN" using assms(1) by (auto simp: tok_simps)
  have x: "unat x < 16" using assms(2) by (rule unat_nib)
  have c: "c \<noteq> NilN" using assms(3) by auto
  show "length (cs[unat x := c]) = 17" using F(1) by simp
  show "cs[unat x := c] ! unat y = NilN \<or> tok r (p @ [y]) (cs[unat x := c] ! unat y)" if "y < 16" for y
    using F(2) [OF that] assms(3) x F(1) by (cases "y = x") (simp_all add: nth_list_update nib_unat_eq)
  show "cs[unat x := c] ! 16 = NilN \<or> (\<exists>v. cs[unat x := c] ! 16 = ValueN v \<and> v \<noteq> [])"
    using F(3) x by simp
  show "\<exists>i j. i < j \<and> j < 17 \<and> cs[unat x := c] ! i \<noteq> NilN \<and> cs[unat x := c] ! j \<noteq> NilN"
    using ij c upd_not_Nil by blast
qed

lemma tok_Full_value:
  assumes "tok r p (Full cs f)" "v \<noteq> []"
  shows "tok r p (Full (cs[16 := ValueN v]) f')"
proof (rule tk_full)
  have F: "length cs = 17" "\<And>y. y < 16 \<Longrightarrow> cs ! unat y = NilN \<or> tok r (p @ [y]) (cs ! unat y)"
    using assms(1) by (auto simp: tok_simps)
  obtain i j where ij: "i < j" "j < 17" "cs ! i \<noteq> NilN" "cs ! j \<noteq> NilN" using assms(1) by (auto simp: tok_simps)
  show "length (cs[16 := ValueN v]) = 17" using F(1) by simp
  show "cs[16 := ValueN v] ! unat y = NilN \<or> tok r (p @ [y]) (cs[16 := ValueN v] ! unat y)" if "y < 16" for y
    using F(2) [OF that] unat_nib [OF that] by simp
  show "cs[16 := ValueN v] ! 16 = NilN \<or> (\<exists>w. cs[16 := ValueN v] ! 16 = ValueN w \<and> w \<noteq> [])"
    using F(1) assms(2) by simp
  show "\<exists>i j. i < j \<and> j < 17 \<and> cs[16 := ValueN v] ! i \<noteq> NilN \<and> cs[16 := ValueN v] ! j \<noteq> NilN"
    using ij upd_not_Nil by blast
qed

lemma entry_Full_upd:
  "entry r p (Full (cs[unat x := c]) f') (y # k) w \<longleftrightarrow>
    (if y = x then unat x < length cs \<and> entry r (p @ [x]) c k w else entry r p (Full cs f) (y # k) w)"
  by (auto simp: nth_list_update nib_unat_eq)

lemma entry_Full_flag: "entry r p (Full cs f) k w \<longleftrightarrow> entry r p (Full cs f') k w"
  by (cases k) auto

lemma tok_Short_cases:
  assumes "tok r p (Short k c f)"
  obtains (leaf) k' v where "k = k' @ [16]" "nibs k'" "c = ValueN v" "v \<noteq> []"
  | (ext) "k \<noteq> []" "nibs k" "isFull r (p @ k) c" "tok r (p @ k) c"
  using assms by (auto simp: tok_simps)

lemma tok_Short_ne: "tok r p (Short k c f) \<Longrightarrow> 0 < length k"
  by (erule tok_Short_cases) auto

lemma tok_Short_child:
  assumes "tok r p (Short k c f)" "tok r (p @ k) c" "tok r (p @ k) c'" "isFull r (p @ k) c \<longrightarrow> isFull r (p @ k) c'"
  shows "tok r p (Short k c' f')"
  using assms by (elim tok_Short_cases) (auto intro: tk_ext)

lemma tok_flag: "tok r p (Short k c f) \<Longrightarrow> tok r p (Short k c f')" "tok r p (Full cs f) \<Longrightarrow> tok r p (Full cs f')"
  by (simp_all add: tok_simps)

text \<open>What a key looks like at a short node and below a full node.\<close>

lemma key_below_short:
  assumes "tok r p (Short nk c f)" "hexkey (nk @ k)"
  shows "(k = [] \<and> (\<exists>v. c = ValueN v \<and> v \<noteq> [])) \<or> (hexkey k \<and> tok r (p @ nk) c \<and> nibs nk)"
  using assms(1)
proof (cases rule: tok_Short_cases)
  case (leaf k' v)
  then have "hexkey nk" by (auto simp: hexkey_def)
  with assms(2) hexkey_prefix leaf show ?thesis by blast
next
  case ext
  then show ?thesis using assms(2) hexkey_append by blast
qed

definition weight :: "node \<Rightarrow> nat" where
  "weight n = (case n of HashN h \<Rightarrow> 1 | _ \<Rightarrow> 0)"

lemma weight_simps [simp]: "weight NilN = 0" "weight (Full cs f) = 0" "weight (Short k c f) = 0"
  "weight (ValueN v) = 0" "weight (HashN h) = 1" "weight n \<le> 1" "inner n \<Longrightarrow> weight n = 0"
  by (simp_all add: weight_def split: node.splits) (cases n; simp)

subsection \<open>Reading\<close>

definition same_content :: "trieReader \<Rightarrow> byte list \<Rightarrow> node \<Rightarrow> node \<Rightarrow> bool" where
  "same_content r p n n' \<longleftrightarrow> (\<forall>k w. entry r p n k w \<longleftrightarrow> entry r p n' k w)"

definition got :: "trieReader \<Rightarrow> byte list \<Rightarrow> node \<Rightarrow> byte list \<Rightarrow> byte list option \<times> node \<times> bool \<Rightarrow> bool" where
  "got r p n key res = (case res of (v, n', d) \<Rightarrow>
     (\<forall>w. v = Some w \<longleftrightarrow> entry r p n key w) \<and> tok r p n' \<and> same_content r p n n' \<and>
     (isFull r p n \<longrightarrow> isFull r p n') \<and> (\<not> d \<longrightarrow> n' = n))"

lemma entry_hash_iff: "resolves r h p n \<Longrightarrow> entry r p (HashN h) k w \<longleftrightarrow> entry r p n k w"
  by (auto dest: resolves_unique)

lemma entry_Short_append: "entry r p (Short nk c f) (nk @ k) w \<longleftrightarrow> entry r (p @ nk) c k w"
  by simp

lemma same_content_refl [simp]: "same_content r p n n"
  by (simp add: same_content_def)

lemma same_content_Short: "same_content r (p @ nk) c c' \<Longrightarrow> same_content r p (Short nk c f) (Short nk c' f')"
  by (simp add: same_content_def)

lemma same_content_Full:
  assumes "same_content r (p @ [x]) (cs ! unat x) c" "unat x < length cs"
  shows "same_content r p (Full cs f) (Full (cs[unat x := c]) f')"
  unfolding same_content_def
proof (intro allI)
  fix k w
  show "entry r p (Full cs f) k w \<longleftrightarrow> entry r p (Full (cs[unat x := c]) f') k w"
    using assms by (cases k) (auto simp: same_content_def nth_list_update nib_unat_eq)
qed

lemma got_Short:
  assumes "got r (p @ nk) nv k (v, n', d)" "tok r p (Short nk nv nf)" "tok r (p @ nk) nv"
  shows "got r p (Short nk nv nf) (nk @ k) (v, if d then Short nk n' nf else Short nk nv nf, d)"
proof -
  note g = assms(1) [unfolded got_def prod.case]
  have "tok r p (Short nk n' nf)" using tok_Short_child [OF assms(2,3)] g by blast
  moreover have "same_content r p (Short nk nv nf) (Short nk n' nf)" using same_content_Short g by blast
  ultimately show ?thesis unfolding got_def prod.case entry_Short_append using g assms(2) by simp
qed

lemma got_Full:
  assumes "got r (p @ [x]) (cs ! unat x) k (v, n', d)" "tok r p (Full cs nf)" "x < 16"
  shows "got r p (Full cs nf) (x # k) (v, if d then Full (cs[unat x := n']) nf else Full cs nf, d)"
proof -
  note g = assms(1) [unfolded got_def prod.case]
  have l: "unat x < length cs" using assms(2) unat_nib_17 [OF assms(3)] by (simp add: tok_simps)
  have "tok r p (Full (cs[unat x := n']) nf)" using tok_Full_child [OF assms(2,3)] g by blast
  moreover have "same_content r p (Full cs nf) (Full (cs[unat x := n']) nf)"
    using same_content_Full [OF _ l] g by blast
  moreover have "entry r p (Full cs nf) (x # k) w \<longleftrightarrow> entry r (p @ [x]) (cs ! unat x) k w" for w
    using l by simp
  ultimately show ?thesis unfolding got_def prod.case using g assms(2) by simp
qed

lemma get_ok:
  assumes "tok r (take pos key) n" "pos \<le> length key" "hexkey (drop pos key)"
    "2 * (length key - pos) + weight n < fuel"
  shows "\<exists>res t'. get fuel r n key pos t = Some (Ok res, t') \<and> got r (take pos key) n (drop pos key) res"
  using assms
proof (induction fuel arbitrary: n pos t)
  case (Suc fuel)
  let ?p = "take pos key" and ?k = "drop pos key"
  show ?case
  proof (cases n)
    case (Short nk nv nf)
    have nk: "0 < length nk" using tok_Short_ne Suc.prems(1) Short by blast
    show ?thesis
    proof (cases "length key - pos < length nk \<or> nk \<noteq> take (length nk) ?k")
      case True
      have "length nk \<le> length key - pos \<and> nk = take (length nk) ?k" if "?k = nk @ k'" for k'
        using that by (metis append_eq_conv_conj length_append length_drop le_add1)
      then have "\<not> entry r ?p n ?k w" for w using True by (auto simp: Short)
      then show ?thesis using True Suc.prems(1) by (simp add: Short tret_def got_def same_content_def)
    next
      case False
      then have k: "?k = nk @ drop (pos + length nk) key" and le: "pos + length nk \<le> length key"
        using Suc.prems(2) by (metis add.commute append_take_drop_id drop_drop, linarith)
      have p: "take (pos + length nk) key = ?p @ nk" using False by (simp add: take_add)
      let ?j = "pos + length nk"
      show ?thesis using key_below_short [OF Suc.prems(1) [unfolded Short] Suc.prems(3) [unfolded k]]
      proof (elim disjE conjE exE)
        fix v assume "drop ?j key = []" "nv = ValueN v" "v \<noteq> []"
        then show ?thesis using False Suc.prems(1,4) k nk
          by (cases fuel) (auto simp: Short tret_def tbind_def got_def same_content_def)
      next
        assume j: "hexkey (drop ?j key)" "tok r (?p @ nk) nv" "nibs nk"
        have "2 * (length key - pos) < Suc fuel" using Suc.prems(4) by (simp add: Short)
        then have "2 * (length key - ?j) + weight nv < fuel"
          using le nk weight_simps(6) [of nv] by arith
        then obtain v n' d t' where g: "get fuel r nv key ?j t = Some (Ok (v, n', d), t')"
          "got r (?p @ nk) nv (drop ?j key) (v, n', d)"
          using Suc.IH [of ?j nv t, unfolded p, OF j(2) le j(1)] by auto
        have "get (Suc fuel) r n key pos t = Some (Ok (v, if d then Short nk n' nf else n, d), t')"
          unfolding get.simps Short node.case if_not_P [OF False] by (simp add: tbind_def tret_def g(1))
        then show ?thesis using got_Short [OF g(2) Suc.prems(1) [unfolded Short] j(2)] unfolding k Short by blast
      qed
    qed
  next
    case (Full cs nf)
    have F: "length cs = 17" "\<And>x. x < 16 \<Longrightarrow> cs ! unat x = NilN \<or> tok r (?p @ [x]) (cs ! unat x)"
      "cs ! 16 = NilN \<or> (\<exists>v. cs ! 16 = ValueN v \<and> v \<noteq> [])"
      using Suc.prems(1) by (auto simp: Full tok_simps)
    have lt: "pos < length key" using Suc.prems(2,3) by (metis drop_all hexkey_ne linorder_not_le)
    define x where "x = key ! pos"
    have k: "?k = x # drop (pos + 1) key" and p: "take (pos + 1) key = ?p @ [x]"
      using lt by (simp_all add: x_def Cons_nth_drop_Suc take_Suc_conv_app_nth)
    have "2 * (length key - (pos + 1)) + 1 < fuel" using Suc.prems(4) lt unfolding Full by simp
    then have w: "2 * (length key - (pos + 1)) + weight c < fuel" for c
      using weight_simps(6) [of c] by linarith
    obtain fl where fl: "fuel = Suc fl" using w by (cases fuel) auto
    have nil: ?thesis if "cs ! unat x = NilN" "unat x < 17"
      using that lt F(1) Suc.prems(1) k
      by (simp add: Full fl x_def [symmetric] tret_def tbind_def got_def same_content_def)
    show ?thesis using Suc.prems(3) [unfolded k hexkey_Cons]
    proof (elim disjE conjE)
      assume x: "x = 16" "drop (pos + 1) key = []"
      show ?thesis using F(3)
      proof (elim disjE exE conjE)
        fix v assume "cs ! 16 = ValueN v" "v \<noteq> []"
        then show ?thesis using x k lt F(1) Suc.prems(1)
          by (auto simp: Full fl x_def [symmetric] tret_def tbind_def got_def same_content_def)
      qed (use nil x in simp)
    next
      assume x: "x < 16" "hexkey (drop (pos + 1) key)"
      show ?thesis using F(2) [OF x(1)]
      proof
        assume c: "tok r (?p @ [x]) (cs ! unat x)"
        obtain v n' d t' where g: "get fuel r (cs ! unat x) key (pos + 1) t = Some (Ok (v, n', d), t')"
          "got r (?p @ [x]) (cs ! unat x) (drop (pos + 1) key) (v, n', d)"
          using Suc.IH [of "pos + 1" "cs ! unat x" t, unfolded p, OF c _ x(2) w] lt by auto
        have "get (Suc fuel) r n key pos t = Some (Ok (v, if d then Full (cs[unat x := n']) nf else n, d), t')"
          using lt unat_nib_17 [OF x(1)] F(1) by (simp add: Full x_def [symmetric] tbind_def tret_def g(1) [simplified])
        then show ?thesis using got_Full [OF g(2) Suc.prems(1) [unfolded Full] x(1)] unfolding k Full by blast
      qed (use nil unat_nib_17 [OF x(1)] in simp)
    qed
  next
    case (HashN h)
    obtain n1 where n1: "resolves r h ?p n1" "inner n1" "tok r ?p n1"
      using tok_hash_inner Suc.prems(1) HashN by blast
    obtain t1 where t1: "resolveAndTrack r h ?p t = Some (Ok n1, t1)"
      using resolveAndTrack_resolves [OF n1(1)] by blast
    have "2 * (length key - pos) + weight n1 < fuel" using Suc.prems(4) n1(2) unfolding HashN by simp
    then obtain v n' d t' where g: "get fuel r n1 key pos t1 = Some (Ok (v, n', d), t')" "got r ?p n1 ?k (v, n', d)"
      using Suc.IH [OF n1(3) Suc.prems(2,3), of t1] by auto
    have "got r ?p (HashN h) ?k (v, n', True)"
      using g(2) isFull_resolved [OF _ n1(1)] unfolding got_def same_content_def entry_hash_iff [OF n1(1)] by auto
    then show ?thesis using g(1) t1 by (auto simp: HashN tret_def tbind_def)
  qed (use Suc.prems(1) in auto)
qed simp

subsection \<open>Inserting\<close>

definition upd_content :: "trieReader \<Rightarrow> byte list \<Rightarrow> node \<Rightarrow> byte list \<Rightarrow> byte list \<Rightarrow> node \<Rightarrow> bool" where
  "upd_content r p n key v n' \<longleftrightarrow>
     (\<forall>k w. entry r p n' k w \<longleftrightarrow> (if k = key then w = v else entry r p n k w))"

definition inserted :: "trieReader \<Rightarrow> byte list \<Rightarrow> node \<Rightarrow> byte list \<Rightarrow> byte list \<Rightarrow> bool \<times> node \<Rightarrow> bool" where
  "inserted r p n key v res = (case res of (d, n') \<Rightarrow>
     tok r p n' \<and> upd_content r p n key v n' \<and> (isFull r p n \<longrightarrow> isFull r p n') \<and> (\<not> d \<longrightarrow> entry r p n key v))"

lemma upd_content_present: "entry r p n key v \<Longrightarrow> upd_content r p n key v n"
  using entry_unique by (auto simp: upd_content_def)

lemma upd_content_Short:
  "upd_content r (p @ nk) c k v c' \<Longrightarrow> upd_content r p (Short nk c f) (nk @ k) v (Short nk c' f')"
  by (auto simp: upd_content_def)

lemma upd_content_Full:
  assumes "upd_content r (p @ [x]) (cs ! unat x) k v c" "unat x < length cs"
  shows "upd_content r p (Full cs f) (x # k) v (Full (cs[unat x := c]) f')"
  unfolding upd_content_def
proof (intro allI)
  fix j w
  show "entry r p (Full (cs[unat x := c]) f') j w \<longleftrightarrow> (if j = x # k then w = v else entry r p (Full cs f) j w)"
    using assms by (cases j) (auto simp: upd_content_def nth_list_update nib_unat_eq)
qed

definition mk :: "byte list \<Rightarrow> node \<Rightarrow> node" where
  "mk k n = (if k = [] then n else Short k n newFlag)"

lemma insertAt_NilN: "\<exists>t'. insertAt (Suc fuel) r NilN p k n t = Some (Ok (True, mk k n), t')"
  by (simp add: mk_def tret_def tbind_def ttrace_def)

definition child_ok :: "trieReader \<Rightarrow> byte list \<Rightarrow> byte \<Rightarrow> node \<Rightarrow> bool" where
  "child_ok r q x c \<longleftrightarrow> (x = 16 \<and> (\<exists>v. c = ValueN v \<and> v \<noteq> [])) \<or> (x < 16 \<and> tok r (q @ [x]) c)"

lemma child_ok_ne: "child_ok r q x c \<Longrightarrow> c \<noteq> NilN" "child_ok r q x c \<Longrightarrow> unat x < 17"
  using unat_nib_17 by (auto simp: child_ok_def)

lemma tok_branch:
  assumes "child_ok r q x c1" "child_ok r q y c2" "x \<noteq> y"
  shows "tok r q (Full ((replicate 17 NilN)[unat x := c1, unat y := c2]) f)"
proof (rule tk_full)
  let ?cs = "(replicate 17 NilN)[unat x := c1, unat y := c2]"
  note l = child_ok_ne(2) [OF assms(1)] child_ok_ne(2) [OF assms(2)]
  have xy: "unat x \<noteq> unat y" using assms(3) by (simp add: nib_unat_eq)
  have at: "?cs ! i = (if i = unat y then c2 else if i = unat x then c1 else NilN)" if "i < 17" for i
    using that l by (auto simp: nth_list_update)
  show "length ?cs = 17" by simp
  show "?cs ! unat z = NilN \<or> tok r (q @ [z]) (?cs ! unat z)" if "z < 16" for z
    using at [OF unat_nib_17 [OF that]] assms(1,2) nib_16 [OF that] by (auto simp: child_ok_def nib_unat_eq)
  have "unat z = 16 \<longleftrightarrow> z = 16" for z :: byte using nib_unat_eq [of z 16] by simp
  then show "?cs ! 16 = NilN \<or> (\<exists>v. ?cs ! 16 = ValueN v \<and> v \<noteq> [])"
    using at [of 16] assms(1,2) by (auto simp: child_ok_def)
  show "\<exists>i j. i < j \<and> j < 17 \<and> ?cs ! i \<noteq> NilN \<and> ?cs ! j \<noteq> NilN"
  proof (cases "unat x < unat y")
    case True
    then show ?thesis using at l child_ok_ne(1) assms(1,2) by (intro exI [of _ "unat x"] exI [of _ "unat y"]) auto
  next
    case False
    then have "unat y < unat x" using xy by simp
    then show ?thesis using at l child_ok_ne(1) assms(1,2) xy
      by (rule_tac x = "unat y" in exI, rule_tac x = "unat x" in exI) auto
  qed
qed

lemma entry_branch:
  assumes "unat x < 17" "unat y < 17" "x \<noteq> y"
  shows "entry r q (Full ((replicate 17 NilN)[unat x := c1, unat y := c2]) f) k w \<longleftrightarrow>
    (\<exists>k'. k = x # k' \<and> entry r (q @ [x]) c1 k' w) \<or> (\<exists>k'. k = y # k' \<and> entry r (q @ [y]) c2 k' w)"
proof (cases k)
  case (Cons z k')
  have "(replicate 17 NilN)[unat x := c1, unat y := c2] ! unat z =
      (if z = y then c2 else if z = x then c1 else NilN)" if "unat z < 17"
    using that assms by (auto simp: nth_list_update nib_unat_eq)
  then show ?thesis using Cons assms by (auto split: if_splits)
qed simp

lemma nibs_take: "nibs k \<Longrightarrow> nibs (take m k)"
  by (auto simp: nibs_def dest: in_set_takeD)

lemma short_prefix_nibs:
  assumes "tok r p (Short nk c f)" "m < length nk"
  shows "nibs (take m nk)"
  using assms by (elim tok_Short_cases) (auto intro: nibs_take)

lemma entry_mk: "entry r p (mk k c) j w \<longleftrightarrow> (\<exists>j'. j = k @ j' \<and> entry r (p @ k) c j' w)"
  by (simp add: mk_def)

lemma moved_child:
  assumes "tok r p (Short nk nv nf)" "m < length nk"
  shows "child_ok r (p @ take m nk) (nk ! m) (mk (drop (m + 1) nk) nv)"
    and "entry r p (Short nk nv nf) (take m nk @ k) w \<longleftrightarrow>
      (\<exists>k'. k = nk ! m # k' \<and> entry r ((p @ take m nk) @ [nk ! m]) (mk (drop (m + 1) nk) nv) k' w)"
proof -
  have nk: "nk = take m nk @ nk ! m # drop (m + 1) nk" using assms(2) by (simp add: Cons_nth_drop_Suc)
  have path: "((p @ take m nk) @ [nk ! m]) @ drop (m + 1) nk = p @ nk"
    by (subst (3) nk) simp
  show "child_ok r (p @ take m nk) (nk ! m) (mk (drop (m + 1) nk) nv)"
    using assms(1)
  proof (cases rule: tok_Short_cases)
    case (leaf k' v)
    show ?thesis
    proof (cases "m = length k'")
      case True
      then show ?thesis using leaf by (simp add: child_ok_def mk_def)
    next
      case False
      then have "m < length k'" using assms(2) leaf(1) by simp
      moreover have "nibs (drop (m + 1) k')" using leaf(2) by (auto simp: nibs_def dest: in_set_dropD)
      ultimately show ?thesis using leaf
        by (auto simp: child_ok_def mk_def nth_append nibs_def intro!: tk_leaf)
    qed
  next
    case ext
    have x: "nk ! m < 16" using ext(2) assms(2) by (simp add: nibs_def)
    have "nibs (drop (m + 1) nk)" using ext(2) by (auto simp: nibs_def dest: in_set_dropD)
    then have "tok r ((p @ take m nk) @ [nk ! m]) (mk (drop (m + 1) nk) nv)"
      using ext path by (auto simp: mk_def intro!: tk_ext)
    then show ?thesis using x by (simp add: child_ok_def)
  qed
  have "take m nk @ k = nk @ k'' \<longleftrightarrow> k = nk ! m # drop (m + 1) nk @ k''" for k''
    by (subst (2) nk) simp
  then show "entry r p (Short nk nv nf) (take m nk @ k) w \<longleftrightarrow>
      (\<exists>k'. k = nk ! m # k' \<and> entry r ((p @ take m nk) @ [nk ! m]) (mk (drop (m + 1) nk) nv) k' w)"
    unfolding entry_mk path entry_simps(3) by auto
qed

lemma new_child:
  assumes "hexkey key" "m < length key" "nibs (take m key)" "v \<noteq> []"
  shows "child_ok r q (key ! m) (mk (drop (m + 1) key) (ValueN v))"
    and "entry r q' (mk (drop (m + 1) key) (ValueN v)) k w \<longleftrightarrow> k = drop (m + 1) key \<and> w = v"
proof -
  have key: "key = take m key @ key ! m # drop (m + 1) key" using assms(2) by (simp add: Cons_nth_drop_Suc)
  then have "hexkey (key ! m # drop (m + 1) key)" using assms(1,3) hexkey_append by metis
  then consider "key ! m = 16" "drop (m + 1) key = []" | "key ! m < 16" "hexkey (drop (m + 1) key)"
    unfolding hexkey_Cons by blast
  then show "child_ok r q (key ! m) (mk (drop (m + 1) key) (ValueN v))"
  proof cases
    case 1
    then show ?thesis using assms(4) by (simp add: child_ok_def mk_def)
  next
    case 2
    then obtain k' where "drop (m + 1) key = k' @ [16]" "nibs k'" by (auto simp: hexkey_def)
    then show ?thesis using 2 assms(4) tk_leaf [of k' v r "q @ [key ! m]" newFlag]
      by (simp add: child_ok_def mk_def)
  qed
  show "entry r q' (mk (drop (m + 1) key) (ValueN v)) k w \<longleftrightarrow> k = drop (m + 1) key \<and> w = v"
    by (auto simp: entry_mk)
qed

text \<open>The branch that separates an old short node from a new key.\<close>

lemma inserted_branch:
  fixes key nk :: "byte list"
  defines "m \<equiv> prefixLen key nk"
  assumes "tok r p (Short nk nv nf)" "hexkey key" "v \<noteq> []" "m \<noteq> length nk"
  defines "B \<equiv> Full ((replicate 17 NilN)[unat (nk ! m) := mk (drop (m + 1) nk) nv,
      unat (key ! m) := mk (drop (m + 1) key) (ValueN v)]) newFlag"
  shows "m < length key" "unat (nk ! m) < 17" "unat (key ! m) < 17"
    and "inserted r p (Short nk nv nf) key v (True, if m = 0 then B else Short (take m key) B newFlag)"
proof -
  have lt: "m < length nk" using assms(5) prefixLen_le(2) [of key nk] by (simp add: m_def)
  have same: "take m key = take m nk" unfolding m_def by (rule take_prefixLen)
  have nib: "nibs (take m key)" using short_prefix_nibs [OF assms(2) lt] same by simp
  show l: "m < length key"
  proof (rule ccontr)
    assume "\<not> m < length key"
    then have "take m key = key" by simp
    then show False using nib assms(3) hexkey_nibs by simp
  qed
  have ne: "nk ! m \<noteq> key ! m" using prefixLen_differ [of key nk] l lt by (simp add: m_def)
  let ?q = "p @ take m key"
  note c1 = moved_child [OF assms(2) lt, unfolded same [symmetric]] and c2 = new_child [OF assms(3) l nib assms(4)]
  show x: "unat (nk ! m) < 17" using child_ok_ne(2) [OF c1(1)] .
  show y: "unat (key ! m) < 17" using child_ok_ne(2) [OF c2(1)] .
  have tB: "tok r ?q B" unfolding B_def by (rule tok_branch [OF c1(1) c2(1) ne])
  have eB: "entry r ?q B k w \<longleftrightarrow> (if k = drop m key then w = v else entry r p (Short nk nv nf) (take m key @ k) w)" for k w
  proof -
    have "drop m key = key ! m # drop (m + 1) key" using l by (simp add: Cons_nth_drop_Suc)
    then show ?thesis unfolding B_def entry_branch [OF x y ne] c1(2) c2(2) using ne by auto
  qed
  have "upd_content r p (Short nk nv nf) key v (mk (take m key) B)"
    unfolding upd_content_def entry_mk eB
  proof (intro allI)
    fix j w
    have "nk @ k' = take m key @ drop m nk @ k'" for k' unfolding same by simp
    moreover have "key = take m key @ drop m key" by simp
    ultimately have "\<exists>k. j = take m key @ k" if "entry r p (Short nk nv nf) j w \<or> j = key"
      using that unfolding entry_simps(3) by metis
    then show "(\<exists>k. j = take m key @ k \<and>
        (if k = drop m key then w = v else entry r p (Short nk nv nf) (take m key @ k) w)) \<longleftrightarrow>
        (if j = key then w = v else entry r p (Short nk nv nf) j w)"
      using append_take_drop_id [of m key] by (metis append_same_eq same_append_eq)
  qed
  moreover have "tok r p (mk (take m key) B)"
    using tB nib by (auto simp: mk_def B_def intro: tk_ext)
  moreover have "mk (take m key) B = (if m = 0 then B else Short (take m key) B newFlag)"
    using l by (auto simp: mk_def)
  ultimately show "inserted r p (Short nk nv nf) key v (True, if m = 0 then B else Short (take m key) B newFlag)"
    unfolding inserted_def prod.case by simp
qed

lemma inserted_unchanged: "tok r p n \<Longrightarrow> entry r p n key v \<Longrightarrow> inserted r p n key v (False, n)"
  by (simp add: inserted_def upd_content_present)

lemma inserted_NilN: "hexkey key \<Longrightarrow> v \<noteq> [] \<Longrightarrow> inserted r p NilN key v (True, Short key (ValueN v) f)"
  by (auto simp: inserted_def upd_content_def hexkey_def intro: tk_leaf)

lemma inserted_Short:
  assumes "inserted r (p @ nk) c k v (d, c')" "tok r p (Short nk c f)" "tok r (p @ nk) c"
  shows "inserted r p (Short nk c f) (nk @ k) v (if d then (True, Short nk c' newFlag) else (False, Short nk c f))"
proof (cases d)
  case True
  note g = assms(1) [unfolded inserted_def prod.case]
  have "tok r p (Short nk c' newFlag)" using tok_Short_child [OF assms(2,3)] g by blast
  then show ?thesis using True g upd_content_Short by (simp add: inserted_def del: entry_simps)
next
  case False
  then have "entry r p (Short nk c f) (nk @ k) v" using assms(1) by (simp add: inserted_def)
  then show ?thesis using False assms(2) by (simp add: inserted_unchanged)
qed

lemma inserted_leaf:
  assumes "tok r p (Short nk (ValueN u) f)" "hexkey nk" "v \<noteq> []"
  shows "inserted r p (Short nk (ValueN u) f) nk v
    (if ValueN u \<noteq> ValueN v then (True, Short nk (ValueN v) newFlag) else (False, Short nk (ValueN u) f))"
  using assms by (auto simp: inserted_def upd_content_def hexkey_def intro: tk_leaf)

lemma inserted_Full_value:
  assumes "tok r p (Full cs f)" "cs ! 16 = NilN \<or> cs ! 16 = ValueN u" "v \<noteq> []"
  shows "inserted r p (Full cs f) [16] v
    (if cs ! 16 \<noteq> ValueN v then (True, Full (cs[16 := ValueN v]) newFlag) else (False, Full cs f))"
proof -
  have l: "length cs = 17" using assms(1) by (simp add: tok_simps)
  have "upd_content r (p @ [16]) (cs ! unat (16::byte)) [] v (ValueN v)"
    using assms(2) by (auto simp: upd_content_def)
  from upd_content_Full [OF this, of f newFlag] l
  have "upd_content r p (Full cs f) [16] v (Full (cs[16 := ValueN v]) newFlag)" by simp
  moreover have "entry r p (Full cs f) [16] v" if "cs ! 16 = ValueN v" using that l by simp
  ultimately show ?thesis
    using tok_Full_value [OF assms(1,3)] inserted_unchanged [OF assms(1)] assms(1) by (auto simp: inserted_def)
qed

lemma inserted_Full:
  assumes "inserted r (p @ [x]) (cs ! unat x) k v (d, c')" "tok r p (Full cs f)" "x < 16"
  shows "inserted r p (Full cs f) (x # k) v (if d then (True, Full (cs[unat x := c']) newFlag) else (False, Full cs f))"
proof (cases d)
  case True
  note g = assms(1) [unfolded inserted_def prod.case]
  have l: "unat x < length cs" using assms(2) unat_nib_17 [OF assms(3)] by (simp add: tok_simps)
  have "tok r p (Full (cs[unat x := c']) newFlag)" using tok_Full_child [OF assms(2,3)] g by blast
  then show ?thesis using True g upd_content_Full [OF _ l] by (simp add: inserted_def del: entry_simps)
next
  case False
  have l: "unat x < length cs" using assms(2) unat_nib_17 [OF assms(3)] by (simp add: tok_simps)
  then have "entry r p (Full cs f) (x # k) v" using False assms(1) by (simp add: inserted_def)
  then show ?thesis using False assms(2) by (simp add: inserted_unchanged)
qed

lemma inserted_hash:
  assumes "inserted r p n1 key v (d, n')" "resolves r h p n1" "tok r p n1"
  shows "inserted r p (HashN h) key v (if d then (True, n') else (False, n1))"
proof -
  have e: "entry r p (HashN h) k w \<longleftrightarrow> entry r p n1 k w" for k w by (rule entry_hash_iff [OF assms(2)])
  have u: "upd_content r p (HashN h) key v n \<longleftrightarrow> upd_content r p n1 key v n" for n
    unfolding upd_content_def e ..
  show ?thesis using assms(1,3) isFull_resolved [OF _ assms(2)] upd_content_present
    unfolding inserted_def by (cases d) (auto simp: u e simp del: entry_simps)
qed

text \<open>The value positions: below a leaf key and in the 17th child.\<close>

lemma insertAt_value:
  "n = NilN \<or> n = ValueN u \<Longrightarrow>
    insertAt (Suc fuel) r n p [] (ValueN v) t = Some (Ok (n \<noteq> ValueN v, ValueN v), t)"
  by (auto simp: tret_def)

lemma insertAt_ok:
  assumes "n = NilN \<or> tok r p n" "hexkey key" "v \<noteq> []" "2 * length key + weight n < fuel"
  shows "\<exists>res t'. insertAt fuel r n p key (ValueN v) t = Some (Ok res, t') \<and> inserted r p n key v res"
  using assms
proof (induction fuel arbitrary: n p key t)
  case (Suc fuel)
  have key: "key \<noteq> []" using Suc.prems(2) by auto
  have f2: "2 \<le> fuel" using Suc.prems(4) key by (cases key) simp_all
  then obtain fl where fl: "fuel = Suc fl" by (cases fuel) auto
  show ?case
  proof (cases n)
    case NilN
    then show ?thesis using inserted_NilN [OF Suc.prems(2,3)] key by (simp add: tbind_def tret_def ttrace_def)
  next
    case (ValueN u)
    then show ?thesis using Suc.prems(1) by simp
  next
    case (HashN h)
    have "tok r p (HashN h)" using Suc.prems(1) HashN by simp
    then obtain n1 where n1: "resolves r h p n1" "inner n1" "tok r p n1" using tok_hash_inner by blast
    obtain t1 where t1: "resolveAndTrack r h p t = Some (Ok n1, t1)"
      using resolveAndTrack_resolves [OF n1(1)] by blast
    have "2 * length key + weight n1 < fuel" using Suc.prems(4) n1(2) HashN by simp
    then obtain d n' t' where g: "insertAt fuel r n1 p key (ValueN v) t1 = Some (Ok (d, n'), t')"
      "inserted r p n1 key v (d, n')"
      using Suc.IH [OF disjI2 [OF n1(3)] Suc.prems(2,3), of t1] by auto
    from inserted_hash [OF g(2) n1(1,3)] g(1) t1 key show ?thesis
      by (cases d) (auto simp: HashN tbind_def tret_def)
  next
    case (Short nk nv nf)
    then have tn: "tok r p (Short nk nv nf)" using Suc.prems(1) by simp
    define m where "m = prefixLen key nk"
    show ?thesis
    proof (cases "m = length nk")
      case True
      define k where "k = drop m key"
      have nk: "take m key = nk" using take_prefixLen [of key nk] True by (simp add: m_def [symmetric])
      then have kk: "key = nk @ k" by (metis append_take_drop_id k_def)
      have body: "insertAt (Suc fuel) r n p key (ValueN v) t =
        tbind (insertAt fuel r nv (p @ nk) k (ValueN v)) (\<lambda>(dirty, nn).
          if \<not> dirty then tret (False, Short nk nv nf) else tret (True, Short nk nn newFlag)) t"
        using key True nk by (simp add: Short m_def [symmetric] k_def)
      show ?thesis using key_below_short [OF tn Suc.prems(2) [unfolded kk]]
      proof (elim disjE conjE exE)
        fix u assume u: "k = []" "nv = ValueN u" "u \<noteq> []"
        then have "hexkey nk" using Suc.prems(2) kk by simp
        moreover have "insertAt (Suc fuel) r n p key (ValueN v) t = Some (Ok (if ValueN u \<noteq> ValueN v
            then (True, Short nk (ValueN v) newFlag) else (False, Short nk (ValueN u) nf)), t)"
          unfolding body unfolding fl u tbind_def insertAt_value [OF disjI2 [OF refl]] by (simp add: tret_def)
        ultimately show ?thesis using inserted_leaf [OF tn [unfolded u(2)] _ Suc.prems(3)]
          unfolding kk Short u append_Nil2 by blast
      next
        assume c: "hexkey k" "tok r (p @ nk) nv" "nibs nk"
        have "2 * length nk + 2 * length k < Suc fuel" using Suc.prems(4) by (simp add: kk Short)
        then have "2 * length k + weight nv < fuel"
          using tok_Short_ne [OF tn] weight_simps(6) [of nv] by arith
        then obtain d c' t' where g: "insertAt fuel r nv (p @ nk) k (ValueN v) t = Some (Ok (d, c'), t')"
          "inserted r (p @ nk) nv k v (d, c')"
          using Suc.IH [OF disjI2 [OF c(2)] c(1) Suc.prems(3), of t] by auto
        have "insertAt (Suc fuel) r n p key (ValueN v) t = Some (Ok (if d
            then (True, Short nk c' newFlag) else (False, Short nk nv nf)), t')"
          unfolding body tbind_def g(1) by (simp add: tret_def)
        then show ?thesis using inserted_Short [OF g(2) tn c(2)] unfolding kk Short by blast
      qed
    next
      case False
      note b = inserted_branch [OF tn Suc.prems(2,3), folded m_def, OF False]
      obtain t1 where t1: "insertAt fuel r NilN (p @ take (m + 1) nk) (drop (m + 1) nk) nv t =
          Some (Ok (True, mk (drop (m + 1) nk) nv), t1)"
        using insertAt_NilN unfolding fl by blast
      obtain t2 where t2: "insertAt fuel r NilN (p @ take (m + 1) key) (drop (m + 1) key) (ValueN v) t1 =
          Some (Ok (True, mk (drop (m + 1) key) (ValueN v)), t2)"
        using insertAt_NilN unfolding fl by blast
      define B where "B = Full ((replicate 17 NilN)[unat (nk ! m) := mk (drop (m + 1) nk) nv,
        unat (key ! m) := mk (drop (m + 1) key) (ValueN v)]) newFlag"
      have "\<exists>t'. insertAt (Suc fuel) r n p key (ValueN v) t =
          Some (Ok (True, if m = 0 then B else Short (take m key) B newFlag), t')"
        using key False b(1-3) by (simp add: Short m_def [symmetric] Let_def tbind_def tret_def ttrace_def not_le
            t1 [simplified] t2 [simplified] B_def)
      then show ?thesis using b(4) unfolding B_def Short by blast
    qed
  next
    case (Full cs nf)
    then have tn: "tok r p (Full cs nf)" using Suc.prems(1) by simp
    have F: "length cs = 17" "\<And>x. x < 16 \<Longrightarrow> cs ! unat x = NilN \<or> tok r (p @ [x]) (cs ! unat x)"
      "cs ! 16 = NilN \<or> (\<exists>v. cs ! 16 = ValueN v \<and> v \<noteq> [])"
      using tn by (auto simp: tok_simps)
    obtain x k where xk: "key = x # k" using key by (cases key) auto
    have body: "insertAt (Suc fuel) r n p key (ValueN v) t =
      tbind (insertAt fuel r (cs ! unat x) (p @ [x]) k (ValueN v)) (\<lambda>(dirty, nn).
        if \<not> dirty then tret (False, Full cs nf) else tret (True, Full (cs[unat x := nn]) newFlag)) t"
      if "unat x < 17" using that F(1) by (simp add: Full xk cong: if_cong)
    show ?thesis using Suc.prems(2) [unfolded xk hexkey_Cons]
    proof (elim disjE conjE)
      assume x: "x = 16" "k = []"
      obtain u where u: "cs ! 16 = NilN \<or> cs ! 16 = ValueN u" using F(3) by blast
      have "insertAt (Suc fuel) r n p key (ValueN v) t = Some (Ok (if cs ! 16 \<noteq> ValueN v
          then (True, Full (cs[16 := ValueN v]) newFlag) else (False, Full cs nf)), t)"
        using body x insertAt_value [OF u, of fl r "p @ [16]" v t]
        by (simp add: fl tbind_def tret_def del: insertAt.simps)
      then show ?thesis using inserted_Full_value [OF tn u Suc.prems(3)] unfolding xk x Full by blast
    next
      assume x: "x < 16" "hexkey k"
      have "2 * length k + 2 < Suc fuel" using Suc.prems(4) by (simp add: xk Full)
      then have "2 * length k + weight (cs ! unat x) < fuel" using weight_simps(6) [of "cs ! unat x"] by arith
      then obtain d c' t' where g: "insertAt fuel r (cs ! unat x) (p @ [x]) k (ValueN v) t = Some (Ok (d, c'), t')"
        "inserted r (p @ [x]) (cs ! unat x) k v (d, c')"
        using Suc.IH [OF F(2) [OF x(1)] x(2) Suc.prems(3), of t] by auto
      have "insertAt (Suc fuel) r n p key (ValueN v) t = Some (Ok (if d
          then (True, Full (cs[unat x := c']) newFlag) else (False, Full cs nf)), t')"
        unfolding body [OF unat_nib_17 [OF x(1)]] tbind_def g(1) by (simp add: tret_def)
      then show ?thesis using inserted_Full [OF g(2) tn x(1)] unfolding xk Full by blast
    qed
  qed
qed simp

subsection \<open>Deleting\<close>

definition del_content :: "trieReader \<Rightarrow> byte list \<Rightarrow> node \<Rightarrow> byte list \<Rightarrow> node \<Rightarrow> bool" where
  "del_content r p n key n' \<longleftrightarrow> (\<forall>k w. entry r p n' k w \<longleftrightarrow> k \<noteq> key \<and> entry r p n k w)"

definition deleted :: "trieReader \<Rightarrow> byte list \<Rightarrow> node \<Rightarrow> byte list \<Rightarrow> bool \<times> node \<Rightarrow> bool" where
  "deleted r p n key res = (case res of (d, n') \<Rightarrow>
     (n' = NilN \<or> tok r p n') \<and> del_content r p n key n' \<and>
     (if d then (n' = NilN \<or> inner n') \<and> (isFull r p n \<longrightarrow> n' \<noteq> NilN)
      else (\<forall>w. \<not> entry r p n key w)))"

lemma deleted_unchanged:
  "n = NilN \<or> tok r p n \<Longrightarrow> (\<And>w. \<not> entry r p n key w) \<Longrightarrow> deleted r p n key (False, n)"
  by (auto simp: deleted_def del_content_def)

lemma del_content_Short:
  "del_content r (p @ nk) c k c' \<Longrightarrow> del_content r p (Short nk c f) (nk @ k) (Short nk c' f')"
  by (auto simp: del_content_def)

lemma del_content_Full:
  assumes "del_content r (p @ [x]) (cs ! unat x) k c" "unat x < length cs"
  shows "del_content r p (Full cs f) (x # k) (Full (cs[unat x := c]) f')"
  unfolding del_content_def
proof (intro allI)
  fix j w
  show "entry r p (Full (cs[unat x := c]) f') j w \<longleftrightarrow> j \<noteq> x # k \<and> entry r p (Full cs f) j w"
    using assms by (cases j) (auto simp: del_content_def nth_list_update nib_unat_eq)
qed

lemma entry_merge: "entry r p (Short (a @ b) c f) k w \<longleftrightarrow> entry r p (Short a (Short b c f') f'') k w"
  by auto

lemma tok_merge:
  assumes "nibs a" "tok r (p @ a) (Short b c f)"
  shows "tok r p (Short (a @ b) c f')"
  using assms(2)
proof (cases rule: tok_Short_cases)
  case (leaf k v)
  then show ?thesis using assms(1) tk_leaf [of "a @ k" v r p f'] by simp
next
  case ext
  then show ?thesis using assms(1) by (intro tk_ext) simp_all
qed

lemma deleted_Short:
  assumes "deleted r (p @ nk) c k (True, c')" "tok r p (Short nk c f)" "nibs nk" "isFull r (p @ nk) c"
  shows "deleted r p (Short nk c f) (nk @ k)
    (True, case c' of Short ck cv cf \<Rightarrow> Short (nk @ ck) cv newFlag | _ \<Rightarrow> Short nk c' newFlag)"
proof -
  note d = assms(1) [unfolded deleted_def prod.case if_True]
  have c': "inner c'" "tok r (p @ nk) c'" using d assms(4) by auto
  have D: "del_content r p (Short nk c f) (nk @ k) (Short nk c' newFlag)" using d del_content_Short by blast
  show ?thesis
  proof (cases c')
    case (Short ck cv cf)
    have "del_content r p (Short nk c f) (nk @ k) (Short (nk @ ck) cv newFlag)"
      using D unfolding del_content_def Short entry_merge [where f = newFlag and f' = cf and f'' = newFlag] .
    then show ?thesis using tok_merge [OF assms(3)] c' Short by (auto simp: deleted_def)
  next
    case (Full cs cf)
    moreover have "nk \<noteq> []" using tok_Short_ne [OF assms(2)] by simp
    ultimately have "tok r p (Short nk c' newFlag)" using c' assms(3) by (intro tk_ext) simp_all
    then show ?thesis using D Full by (simp add: deleted_def)
  qed (use c' in auto)
qed

lemma onlyChild_pos: "0 \<le> pos \<Longrightarrow> onlyChild i pos cs = (if \<forall>c\<in>set cs. c = NilN then pos else -2)"
  by (induction cs arbitrary: i) auto

lemma onlyChild_cases:
  obtains (none) "onlyChild i (-1) cs = -1" "\<forall>c\<in>set cs. c = NilN"
  | (one) j where "onlyChild i (-1) cs = int (i + j)" "j < length cs" "cs ! j \<noteq> NilN"
      "\<forall>j'<length cs. j' \<noteq> j \<longrightarrow> cs ! j' = NilN"
  | (more) j j' where "onlyChild i (-1) cs = -2" "j < j'" "j' < length cs" "cs ! j \<noteq> NilN" "cs ! j' \<noteq> NilN"
proof (induction cs arbitrary: i thesis)
  case Nil
  then show ?case by simp
next
  case (Cons c cs)
  show ?case
  proof (cases "c = NilN")
    case True
    show ?thesis
    proof (rule Cons.IH [of "i + 1"])
      assume "onlyChild (i + 1) (- 1) cs = - 1" "\<forall>c\<in>set cs. c = NilN"
      then show ?thesis using True Cons.prems(1) by simp
    next
      fix j assume j: "onlyChild (i + 1) (- 1) cs = int (i + 1 + j)" "j < length cs" "cs ! j \<noteq> NilN"
        "\<forall>j'<length cs. j' \<noteq> j \<longrightarrow> cs ! j' = NilN"
      then have "\<forall>j'<length (c # cs). j' \<noteq> Suc j \<longrightarrow> (c # cs) ! j' = NilN"
        using True by (auto simp: nth_Cons split: nat.splits)
      then show ?thesis using Cons.prems(2) [of "Suc j"] j True by simp
    next
      fix j j' assume "onlyChild (i + 1) (- 1) cs = - 2" "j < j'" "j' < length cs" "cs ! j \<noteq> NilN" "cs ! j' \<noteq> NilN"
      then show ?thesis using Cons.prems(3) [of "Suc j" "Suc j'"] True by simp
    qed
  next
    case False
    show ?thesis
    proof (cases "\<forall>c\<in>set cs. c = NilN")
      case True
      then have "\<forall>j'<length (c # cs). j' \<noteq> 0 \<longrightarrow> (c # cs) ! j' = NilN" by (auto simp: nth_Cons split: nat.splits)
      then show ?thesis using Cons.prems(2) [of 0] True False by (simp add: onlyChild_pos)
    next
      case nf: False
      then obtain j where "j < length cs" "cs ! j \<noteq> NilN" by (auto simp: in_set_conv_nth)
      then show ?thesis using Cons.prems(3) [of 0 "Suc j"] nf False by (simp add: onlyChild_pos)
    qed
  qed
qed

lemma entry_one_child:
  assumes "unat y < length cs" "\<forall>j<length cs. j \<noteq> unat y \<longrightarrow> cs ! j = NilN"
  shows "entry r p (Full cs f) k w \<longleftrightarrow> entry r p (Short [y] (cs ! unat y) f') k w"
proof (cases k)
  case (Cons z k')
  then show ?thesis using assms by (cases "z = y") (auto simp: nib_unat_eq)
qed simp

lemma resolve_ok:
  assumes "tok r p n"
  shows "\<exists>c t'. resolve r n p t = Some (Ok c, t') \<and> inner c \<and> tok r p c \<and> same_content r p n c \<and>
    (isFull r p c \<longrightarrow> isFull r p n)"
proof (cases n)
  case (HashN h)
  then obtain n1 where n1: "resolves r h p n1" "inner n1" "tok r p n1" using assms tok_hash_inner by blast
  moreover have "same_content r p (HashN h) n1" unfolding same_content_def entry_hash_iff [OF n1(1)] by simp
  moreover have "isFull r p n1 \<longrightarrow> isFull r p (HashN h)" using n1 by (cases n1) (auto simp: isFull_def)
  ultimately show ?thesis using resolveAndTrack_resolves [OF n1(1), of t] HashN by (auto simp: resolve_def)
qed (use assms in \<open>auto simp: resolve_def tret_def same_content_def\<close>)

lemma reduce_one:
  assumes "length cs = 17" "j < 17" "onlyChild 0 (-1) cs = int j" "\<forall>j'<length cs. j' \<noteq> j \<longrightarrow> cs ! j' = NilN"
    "child_ok r p (word_of_nat j) (cs ! j)"
  shows "\<exists>n' t'. reduce r cs p t = Some (Ok (True, n'), t') \<and> tok r p n' \<and> inner n' \<and>
    same_content r p (Full cs newFlag) n'"
proof -
  define y :: byte where "y = word_of_nat j"
  have y: "unat y = j" "word_of_int (int j) = y" using assms(2) by (simp_all add: y_def unat_of_nat)
  have e: "entry r p (Full cs newFlag) k w \<longleftrightarrow> entry r p (Short [y] (cs ! j) newFlag) k w" for k w
    using entry_one_child [of y cs r p newFlag k w newFlag] assms(1,2,4) y by simp
  then have sc: "same_content r p (Full cs newFlag) (Short [y] (cs ! j) newFlag)" by (simp add: same_content_def)
  show ?thesis
  proof (cases "j = 16")
    case True
    then have y16: "y = 16" by (simp add: y_def)
    then obtain v where v: "cs ! 16 = ValueN v" "v \<noteq> []" using assms(5) True by (auto simp: child_ok_def)
    then have "tok r p (Short [16] (ValueN v) newFlag)" using tk_leaf [of "[]" v r p newFlag] by simp
    then show ?thesis using sc True v y16 assms(3) by (auto simp: reduce_def Let_def tret_def)
  next
    case False
    then have "y \<noteq> 16" using y(1) by auto
    then have c: "y < 16" "tok r (p @ [y]) (cs ! j)" using assms(5) by (auto simp: child_ok_def y_def)
    obtain c t1 where c1: "resolve r (cs ! j) (p @ [y]) t = Some (Ok c, t1)" "inner c" "tok r (p @ [y]) c"
      "same_content r (p @ [y]) (cs ! j) c" "isFull r (p @ [y]) c \<longrightarrow> isFull r (p @ [y]) (cs ! j)"
      using resolve_ok [OF c(2)] by blast
    have r: "reduce r cs p t = (case c of Short ck cv cf \<Rightarrow>
          tbind (ttrace (onDelete (p @ [y]))) (\<lambda>_. tret (True, Short (y # ck) cv newFlag))
        | _ \<Rightarrow> tret (True, Short [y] (cs ! j) newFlag)) t1"
      using False assms(3) c1(1) y by (simp add: reduce_def Let_def tbind_def)
    show ?thesis
    proof (cases c)
      case (Short ck cv cf)
      have "tok r p (Short ([y] @ ck) cv newFlag)" using tok_merge [of "[y]" r p ck cv cf] c1(3) c(1) Short by simp
      moreover have "same_content r p (Full cs newFlag) (Short (y # ck) cv newFlag)"
        unfolding same_content_def e using same_content_Short [OF c1(4), of newFlag newFlag] unfolding Short same_content_def
        by (simp add: entry_merge [of r p "[y]" ck cv newFlag _ _ cf newFlag, simplified])
      ultimately show ?thesis unfolding r Short by (simp add: tbind_def ttrace_def tret_def)
    next
      case (Full cs1 cf)
      then have "tok r p (Short [y] (cs ! j) newFlag)" using c c1(5) by (intro tk_ext) simp_all
      then show ?thesis unfolding r Full using sc by (simp add: tret_def)
    qed (use c1(2) in auto)
  qed
qed

lemma full_child_ok:
  assumes "tok r p (Full cs f)" "j < 17" "cs ! j \<noteq> NilN"
  shows "child_ok r p (word_of_nat j) (cs ! j)"
proof (cases "j = 16")
  case True
  then show ?thesis using assms by (auto simp: child_ok_def tok_simps)
next
  case False
  then have u: "unat (word_of_nat j :: byte) = j" "(word_of_nat j :: byte) < 16"
    using assms(2) by (simp_all add: unat_of_nat word_less_nat_alt)
  moreover have "\<And>x. x < 16 \<Longrightarrow> cs ! unat x = NilN \<or> tok r (p @ [x]) (cs ! unat x)"
    using assms(1) by (simp add: tok_simps)
  ultimately show ?thesis using assms(3) by (fastforce simp: child_ok_def)
qed

lemma reduce_ok:
  assumes "tok r p (Full cs f)" "unat x < 17"
  defines "cs' \<equiv> cs[unat x := NilN]"
  shows "\<exists>n' t'. reduce r cs' p t = Some (Ok (True, n'), t') \<and> tok r p n' \<and> inner n' \<and>
    same_content r p (Full cs' newFlag) n'"
proof -
  have l: "length cs' = 17" "length cs = 17" using assms(1) by (simp_all add: tok_simps cs'_def)
  have c: "cs' ! j = cs ! j" if "cs' ! j \<noteq> NilN" "j < 17" for j
    using that l by (cases "j = unat x") (simp_all add: cs'_def)
  have ok: "child_ok r p (word_of_nat j) (cs' ! j)" if "cs' ! j \<noteq> NilN" "j < 17" for j
    using full_child_ok [OF assms(1), of j] c [OF that] that by simp
  show ?thesis
  proof (cases rule: onlyChild_cases [of 0 cs'])
    case none
    obtain i j where "i < j" "j < 17" "cs ! i \<noteq> NilN" "cs ! j \<noteq> NilN" using assms(1) by (auto simp: tok_simps)
    then obtain j where j: "j < 17" "j \<noteq> unat x" "cs ! j \<noteq> NilN" by (metis less_trans nat_neq_iff)
    then have "cs' ! j = cs ! j" by (simp add: cs'_def)
    then have False using none(2) j l by (metis nth_mem)
    then show ?thesis ..
  next
    case (one j)
    then show ?thesis using reduce_one [of cs' j r p t] l ok by simp
  next
    case (more j j')
    have "tok r p (Full cs' newFlag)"
    proof (rule tk_full)
      show "cs' ! unat z = NilN \<or> tok r (p @ [z]) (cs' ! unat z)" if "z < 16" for z
        using ok [of "unat z"] unat_nib_17 [OF that] nib_16 [OF that] by (auto simp: child_ok_def)
      show "cs' ! 16 = NilN \<or> (\<exists>v. cs' ! 16 = ValueN v \<and> v \<noteq> [])" using ok [of 16] by (auto simp: child_ok_def)
    qed (use more l in auto)
    then show ?thesis using more(1) by (simp add: reduce_def tret_def)
  qed
qed

lemma delete_Full_body:
  "unat x < length cs \<Longrightarrow> delete (Suc fuel) r (Full cs nf) p (x # k) =
    tbind (delete fuel r (cs ! unat x) (p @ [x]) k) (\<lambda>(dirty, nn).
      if \<not> dirty then tret (False, Full cs nf)
      else if nn \<noteq> NilN then tret (True, Full (cs[unat x := nn]) newFlag)
      else reduce r (cs[unat x := nn]) p)"
  by (simp add: Let_def cong: if_cong)

lemma prefixLen_append: "prefixLen (a @ b) a = length a"
  by (induction a) simp_all

lemma deleted_hash:
  assumes "deleted r p n1 key (d, n')" "resolves r h p n1" "tok r p n1"
  shows "deleted r p (HashN h) key (if d then (True, n') else (False, n1))"
proof -
  have e: "entry r p (HashN h) k w \<longleftrightarrow> entry r p n1 k w" for k w by (rule entry_hash_iff [OF assms(2)])
  show ?thesis using assms(1,3) isFull_resolved [OF _ assms(2)]
    unfolding deleted_def del_content_def by (cases d) (auto simp: e simp del: entry_simps)
qed

lemma deleted_leaf:
  "deleted r p (Short nk (ValueN v) f) nk (True, NilN)"
  by (auto simp: deleted_def del_content_def)

lemma deleted_Full:
  assumes "del_content r (p @ [x]) (cs ! unat x) k c'" "tok r p (Full cs f)" "unat x < 17"
    "c' \<noteq> NilN \<Longrightarrow> x < 16 \<and> tok r (p @ [x]) c'"
  shows "\<exists>res t'. (if c' \<noteq> NilN then tret (True, Full (cs[unat x := c']) newFlag) else reduce r (cs[unat x := c']) p) t
    = Some (Ok res, t') \<and> deleted r p (Full cs f) (x # k) res"
proof -
  have l: "unat x < length cs" using assms(2,3) by (simp add: tok_simps)
  have D: "del_content r p (Full cs f) (x # k) (Full (cs[unat x := c']) newFlag)"
    by (rule del_content_Full [OF assms(1) l])
  show ?thesis
  proof (cases "c' = NilN")
    case True
    obtain n' t' where r: "reduce r (cs[unat x := NilN]) p t = Some (Ok (True, n'), t')" "tok r p n'" "inner n'"
      "same_content r p (Full (cs[unat x := NilN]) newFlag) n'" using reduce_ok [OF assms(2,3)] by blast
    have "del_content r p (Full cs f) (x # k) n'" using D r(4) unfolding True del_content_def same_content_def by blast
    moreover have "n' \<noteq> NilN" using r(2) by auto
    ultimately have "deleted r p (Full cs f) (x # k) (True, n')" using r by (simp add: deleted_def)
    then show ?thesis using True r(1) by simp
  next
    case False
    then have "tok r p (Full (cs[unat x := c']) newFlag)" using assms(4) tok_Full_child [OF assms(2)] by blast
    then show ?thesis using False D by (simp add: deleted_def tret_def)
  qed
qed

lemma delete_ok:
  assumes "n = NilN \<or> tok r p n" "hexkey key" "2 * length key + weight n < fuel"
  shows "\<exists>res t'. delete fuel r n p key t = Some (Ok res, t') \<and> deleted r p n key res"
  using assms
proof (induction fuel arbitrary: n p key t)
  case (Suc fuel)
  have key: "key \<noteq> []" using Suc.prems(2) by auto
  have f2: "2 \<le> fuel" using Suc.prems(3) key by (cases key) simp_all
  then obtain fl where fl: "fuel = Suc fl" by (cases fuel) auto
  show ?case
  proof (cases n)
    case NilN
    then show ?thesis by (auto simp: tret_def deleted_unchanged)
  next
    case (ValueN u)
    then show ?thesis using Suc.prems(1) by simp
  next
    case (HashN h)
    have "tok r p (HashN h)" using Suc.prems(1) HashN by simp
    then obtain n1 where n1: "resolves r h p n1" "inner n1" "tok r p n1" using tok_hash_inner by blast
    obtain t1 where t1: "resolveAndTrack r h p t = Some (Ok n1, t1)"
      using resolveAndTrack_resolves [OF n1(1)] by blast
    have "2 * length key + weight n1 < fuel" using Suc.prems(3) n1(2) HashN by simp
    then obtain d n' t' where g: "delete fuel r n1 p key t1 = Some (Ok (d, n'), t')" "deleted r p n1 key (d, n')"
      using Suc.IH [OF disjI2 [OF n1(3)] Suc.prems(2), of t1] by auto
    from deleted_hash [OF g(2) n1(1,3)] g(1) t1 key show ?thesis
      by (cases d) (auto simp: HashN tbind_def tret_def)
  next
    case (Short nk nv nf)
    then have tn: "tok r p (Short nk nv nf)" using Suc.prems(1) by simp
    define m where "m = prefixLen key nk"
    show ?thesis
    proof (cases "m < length nk")
      case True
      then have "\<not> entry r p n key w" for w
        using prefixLen_append [of nk] by (auto simp: Short m_def)
      then show ?thesis using True deleted_unchanged [OF Suc.prems(1)]
        by (simp add: Short m_def [symmetric] tret_def del: entry_simps)
    next
      case False
      then have "m = length nk" using prefixLen_le(2) [of key nk] by (simp add: m_def)
      define k where "k = drop m key"
      have nk: "take m key = nk" using take_prefixLen [of key nk] \<open>m = length nk\<close> by (simp add: m_def [symmetric])
      then have kk: "key = nk @ k" by (metis append_take_drop_id k_def)
      show ?thesis using key_below_short [OF tn Suc.prems(2) [unfolded kk]]
      proof (elim disjE conjE exE)
        fix u assume u: "k = []" "nv = ValueN u" "u \<noteq> []"
        then have "delete (Suc fuel) r n p key t = Some (Ok (True, NilN), onDelete p t)"
          using False \<open>m = length nk\<close> prefixLen_append [of nk "[]"] by (simp add: Short kk tbind_def ttrace_def tret_def)
        then show ?thesis using deleted_leaf unfolding Short u kk append_Nil2 by blast
      next
        assume c: "hexkey k" "tok r (p @ nk) nv" "nibs nk"
        then have full: "isFull r (p @ nk) nv" using tn by (elim tok_Short_cases) auto
        have "2 * length nk + 2 * length k < Suc fuel" using Suc.prems(3) by (simp add: kk Short)
        then have "2 * length k + weight nv < fuel"
          using tok_Short_ne [OF tn] weight_simps(6) [of nv] by arith
        then obtain d c' t' where g: "delete fuel r nv (p @ nk) k t = Some (Ok (d, c'), t')"
          "deleted r (p @ nk) nv k (d, c')"
          using Suc.IH [OF disjI2 [OF c(2)] c(1), of t] by auto
        have kne: "k \<noteq> []" using c(1) by auto
        have body: "delete (Suc fuel) r n p key t =
          tbind (delete fuel r nv (p @ nk) k) (\<lambda>(dirty, child).
            if \<not> dirty then tret (False, Short nk nv nf)
            else (case child of
                   Short ck cv cf \<Rightarrow> tbind (ttrace (onDelete (p @ nk))) (\<lambda>_. tret (True, Short (nk @ ck) cv newFlag))
                 | _ \<Rightarrow> tret (True, Short nk child newFlag))) t"
          using kne prefixLen_append [of nk k] by (simp add: Short kk)
        show ?thesis
        proof (cases d)
          case True
          have "\<exists>t''. delete (Suc fuel) r n p key t = Some (Ok (True, case c' of
              Short ck cv cf \<Rightarrow> Short (nk @ ck) cv newFlag | _ \<Rightarrow> Short nk c' newFlag), t'')"
            unfolding body tbind_def g(1) using True by (simp add: tret_def ttrace_def split: node.splits)
          moreover have "deleted r (p @ nk) nv k (True, c')" using g(2) True by simp
          ultimately show ?thesis using deleted_Short [OF _ tn c(3) full] unfolding Short kk by blast
        next
          case False
          then have "\<not> entry r p (Short nk nv nf) (nk @ k) w" for w using g(2) by (simp add: deleted_def)
          from deleted_unchanged [OF disjI2 [OF tn] this] False g(1) show ?thesis
            unfolding body unfolding Short kk by (auto simp: tbind_def tret_def)
        qed
      qed
    qed
  next
    case (Full cs nf)
    then have tn: "tok r p (Full cs nf)" using Suc.prems(1) by simp
    have F: "length cs = 17" "\<And>x. x < 16 \<Longrightarrow> cs ! unat x = NilN \<or> tok r (p @ [x]) (cs ! unat x)"
      "cs ! 16 = NilN \<or> (\<exists>v. cs ! 16 = ValueN v \<and> v \<noteq> [])"
      using tn by (auto simp: tok_simps)
    obtain x k where xk: "key = x # k" using key by (cases key) auto
    have x17: "unat x < 17" using Suc.prems(2) unat_nib_17 by (auto simp: xk hexkey_Cons)
    have "\<exists>d c' t'. delete fuel r (cs ! unat x) (p @ [x]) k t = Some (Ok (d, c'), t') \<and>
      del_content r (p @ [x]) (cs ! unat x) k c' \<and> (d \<longrightarrow> c' \<noteq> NilN \<longrightarrow> x < 16 \<and> tok r (p @ [x]) c') \<and>
      (\<not> d \<longrightarrow> (\<forall>w. \<not> entry r (p @ [x]) (cs ! unat x) k w))"
      using Suc.prems(2) [unfolded xk hexkey_Cons]
    proof (elim disjE conjE)
      assume x: "x = 16" "k = []"
      from F(3) show ?thesis by (elim disjE exE conjE) (auto simp: x fl tret_def del_content_def)
    next
      assume x: "x < 16" "hexkey k"
      have "2 * length k + 2 < Suc fuel" using Suc.prems(3) by (simp add: xk Full)
      then have "2 * length k + weight (cs ! unat x) < fuel" using weight_simps(6) [of "cs ! unat x"] by arith
      then obtain d c' t' where "delete fuel r (cs ! unat x) (p @ [x]) k t = Some (Ok (d, c'), t')"
        "deleted r (p @ [x]) (cs ! unat x) k (d, c')"
        using Suc.IH [OF F(2) [OF x(1)] x(2), of t] by auto
      then show ?thesis using x(1) by (auto simp: deleted_def)
    qed
    then obtain d c' t' where g: "delete fuel r (cs ! unat x) (p @ [x]) k t = Some (Ok (d, c'), t')"
      "del_content r (p @ [x]) (cs ! unat x) k c'" "d \<Longrightarrow> c' \<noteq> NilN \<Longrightarrow> x < 16 \<and> tok r (p @ [x]) c'"
      "\<not> d \<Longrightarrow> \<forall>w. \<not> entry r (p @ [x]) (cs ! unat x) k w" by blast
    have body: "delete (Suc fuel) r n p key t = (if \<not> d then tret (False, Full cs nf)
        else if c' \<noteq> NilN then tret (True, Full (cs[unat x := c']) newFlag) else reduce r (cs[unat x := c']) p) t'"
      using x17 F(1) unfolding Full xk by (subst delete_Full_body) (simp_all add: tbind_def g(1))
    show ?thesis
    proof (cases d)
      case True
      from deleted_Full [OF g(2) tn x17 g(3) [OF True], of t'] True show ?thesis unfolding body unfolding Full xk by auto
    next
      case False
      then have "\<not> entry r p (Full cs nf) (x # k) w" for w using g(4) by simp
      from deleted_unchanged [OF disjI2 [OF tn] this] False show ?thesis
        unfolding body unfolding Full xk by (auto simp: tret_def)
    qed
  qed
qed simp

subsection \<open>The trie as a keyed store\<close>

definition trie_ok :: "Trie \<Rightarrow> bool" where
  "trie_ok t \<longleftrightarrow> \<not> committed t \<and> (root t = NilN \<or> tok (reader t) [] (root t))"

definition holds :: "Trie \<Rightarrow> byte list \<Rightarrow> byte list \<Rightarrow> bool" where
  "holds t k v \<longleftrightarrow> entry (reader t) [] (root t) (keybytesToHex k) v"

text \<open>The keys of the entries are those of byte strings.\<close>

definition keyed :: "Trie \<Rightarrow> bool" where
  "keyed t \<longleftrightarrow> (\<forall>k v. entry (reader t) [] (root t) k v \<longrightarrow> (\<exists>b. k = keybytesToHex b))"

lemma keyed_mono:
  assumes "keyed t" "\<And>k v. entry (reader t') [] (root t') k v \<Longrightarrow> (\<exists>b. k = keybytesToHex b) \<or> entry (reader t) [] (root t) k v"
  shows "keyed t'"
  using assms unfolding keyed_def by blast

lemma Get_ok:
  assumes "trie_ok t"
  shows "\<exists>v t'. trie_Get t k = Some (Ok v, t') \<and> trie_ok t' \<and> (\<forall>w. v = Some w \<longleftrightarrow> holds t k w) \<and>
    (\<forall>j w. holds t' j w \<longleftrightarrow> holds t j w) \<and> (keyed t \<longrightarrow> keyed t')"
proof (cases "root t = NilN")
  case True
  then show ?thesis using assms
    by (simp add: trie_Get_def trie_ok_def fuel_for_def keybytesToHex_def tret_def holds_def) (simp add: keyed_def)
next
  case False
  let ?k = "keybytesToHex k"
  have t: "tok (reader t) (take 0 ?k) (root t)" "\<not> committed t" using assms False by (simp_all add: trie_ok_def)
  have "2 * (length ?k - 0) + weight (root t) < fuel_for ?k"
    using weight_simps(6) [of "root t"] by (simp add: fuel_for_def)
  from get_ok [OF t(1) _ _ this, of "trace t"] hexkey_keybytes [of k]
  obtain v n' d tr where g: "get (fuel_for ?k) (reader t) (root t) ?k 0 (trace t) = Some (Ok (v, n', d), tr)"
    "got (reader t) [] (root t) ?k (v, n', d)" by auto
  let ?t = "t\<lparr> trace := tr, root := if d then n' else root t \<rparr>"
  have "trie_Get t k = Some (Ok v, ?t)" using g(1) t(2) by (simp add: trie_Get_def)
  moreover have "trie_ok ?t" using g(2) t by (auto simp: trie_ok_def got_def)
  moreover have "same_content (reader t) [] (root t) (if d then n' else root t)"
    using g(2) unfolding got_def prod.case by simp
  then have "holds ?t j w \<longleftrightarrow> holds t j w" "keyed t \<longrightarrow> keyed ?t" for j w
    by (auto simp: holds_def same_content_def elim: keyed_mono)
  moreover have "v = Some w \<longleftrightarrow> holds t k w" for w using g(2) unfolding holds_def got_def prod.case by blast
  ultimately show ?thesis by blast
qed

lemma trie_Delete_step:
  assumes "trie_ok t"
  shows "\<exists>t'. set_root (t\<lparr> unhashed := unhashed t + 1 \<rparr>)
      (delete (fuel_for (keybytesToHex k)) (reader t) (root t) [] (keybytesToHex k) (trace t)) = Some (Ok (), t') \<and>
    trie_ok t' \<and> (\<forall>j w. holds t' j w \<longleftrightarrow> j \<noteq> k \<and> holds t j w) \<and> (keyed t \<longrightarrow> keyed t')"
proof -
  let ?k = "keybytesToHex k"
  have "2 * length ?k + weight (root t) < fuel_for ?k"
    using weight_simps(6) [of "root t"] by (simp add: fuel_for_def)
  from delete_ok [OF _ hexkey_keybytes this, of "reader t" "[]" "trace t"] assms
  obtain d n' tr where g: "delete (fuel_for ?k) (reader t) (root t) [] ?k (trace t) = Some (Ok (d, n'), tr)"
    "deleted (reader t) [] (root t) ?k (d, n')" by (auto simp: trie_ok_def)
  then show ?thesis using assms
    by (auto simp: set_root_def trie_ok_def holds_def deleted_def del_content_def keybytesToHex_inject
        elim!: keyed_mono)
qed

lemma Delete_ok:
  "trie_ok t \<Longrightarrow> \<exists>t'. trie_Delete t k = Some (Ok (), t') \<and> trie_ok t' \<and> (\<forall>j w. holds t' j w \<longleftrightarrow> j \<noteq> k \<and> holds t j w) \<and>
    (keyed t \<longrightarrow> keyed t')"
  using trie_Delete_step [of t k] by (auto simp: trie_Delete_def trie_ok_def)

lemma Update_ok:
  assumes "trie_ok t"
  shows "\<exists>t'. trie_Update t k v = Some (Ok (), t') \<and> trie_ok t' \<and>
    (\<forall>j w. holds t' j w \<longleftrightarrow> (if j = k then v \<noteq> [] \<and> w = v else holds t j w)) \<and>
    (keyed t \<longrightarrow> keyed t')"
proof (cases "v = []")
  case True
  then show ?thesis using trie_Delete_step [OF assms, of k] assms by (auto simp: trie_Update_def trie_ok_def)
next
  case False
  let ?k = "keybytesToHex k"
  have "2 * length ?k + weight (root t) < fuel_for ?k"
    using weight_simps(6) [of "root t"] by (simp add: fuel_for_def)
  from insertAt_ok [OF _ hexkey_keybytes False this, of "reader t" "[]" "trace t"] assms
  obtain d n' tr where g: "insertAt (fuel_for ?k) (reader t) (root t) [] ?k (ValueN v) (trace t) = Some (Ok (d, n'), tr)"
    "inserted (reader t) [] (root t) ?k v (d, n')" by (auto simp: trie_ok_def)
  let ?t = "t\<lparr> unhashed := unhashed t + 1, trace := tr, root := n' \<rparr>"
  have u: "upd_content (reader t) [] (root t) ?k v n'" using g(2) unfolding inserted_def prod.case by simp
  have "keyed t \<longrightarrow> keyed ?t" by (rule impI, erule keyed_mono) (use u in \<open>auto simp: upd_content_def split: if_splits\<close>)
  with g assms False show ?thesis
    by (auto simp: trie_Update_def set_root_def trie_ok_def holds_def inserted_def upd_content_def keybytesToHex_inject)
qed

text \<open>The wrappers as total functions, for the interface of a keyed store.\<close>

definition tlookup :: "Trie \<Rightarrow> byte list \<Rightarrow> byte list option" where
  "tlookup t k = (case MustGet t k of Some (v, t') \<Rightarrow> v | None \<Rightarrow> None)"

definition tupdate :: "byte list \<Rightarrow> byte list \<Rightarrow> Trie \<Rightarrow> Trie" where
  "tupdate k v t = (case MustUpdate t k v of Some t' \<Rightarrow> t' | None \<Rightarrow> t)"

definition tdelete :: "byte list \<Rightarrow> Trie \<Rightarrow> Trie" where
  "tdelete k t = (case MustDelete t k of Some t' \<Rightarrow> t' | None \<Rightarrow> t)"

lemma tlookup_iff: "trie_ok t \<Longrightarrow> tlookup t k = Some w \<longleftrightarrow> holds t k w"
  using Get_ok [of t k] by (auto simp: tlookup_def MustGet_def)

lemma tlookup_eqI:
  assumes "trie_ok t" "\<And>w. holds t k w \<longleftrightarrow> x = Some w"
  shows "tlookup t k = x"
proof (cases x)
  case None
  then show ?thesis using assms tlookup_iff [OF assms(1)] by (metis not_Some_eq)
next
  case (Some w)
  then show ?thesis using assms tlookup_iff by blast
qed

interpretation mpt: kv_store tlookup tupdate tdelete trie_ok "\<lambda>_. True" "\<lambda>v. v \<noteq> []"
proof
  fix t :: Trie and k v j :: "byte list"
  assume t: "trie_ok t" "v \<noteq> []"
  then obtain t' where u: "trie_Update t k v = Some (Ok (), t')" "trie_ok t'"
    "\<And>j w. holds t' j w \<longleftrightarrow> (if j = k then v \<noteq> [] \<and> w = v else holds t j w)" using Update_ok by blast
  have e: "tupdate k v t = t'" using u(1) by (simp add: tupdate_def MustUpdate_def)
  show "tlookup (tupdate k v t) j = (if j = k then Some v else tlookup t j)"
    unfolding e using u t tlookup_iff by (intro tlookup_eqI) auto
  show "trie_ok (tupdate k v t)" using u(2) by (simp add: e)
next
  fix t :: Trie and k j :: "byte list"
  assume t: "trie_ok t"
  then obtain t' where u: "trie_Delete t k = Some (Ok (), t')" "trie_ok t'"
    "\<And>j w. holds t' j w \<longleftrightarrow> j \<noteq> k \<and> holds t j w" using Delete_ok by blast
  have e: "tdelete k t = t'" using u(1) by (simp add: tdelete_def MustDelete_def)
  show "tlookup (tdelete k t) j = (if j = k then None else tlookup t j)"
    unfolding e using u t tlookup_iff by (intro tlookup_eqI) auto
  show "trie_ok (tdelete k t)" using u(2) by (simp add: e)
qed

subsection \<open>Runs of operations\<close>

datatype trie_op = OpGet "byte list" | OpUpdate "byte list" "byte list" | OpDelete "byte list"

text \<open>One operation on the trie; updates and deletions return no value.\<close>

fun trie_step :: "trie_op \<Rightarrow> Trie \<Rightarrow> ((trie_err, byte list option) outcome \<times> Trie) option" where
  "trie_step (OpGet k) t = trie_Get t k"
| "trie_step (OpUpdate k v) t = map_option (\<lambda>(res, t). (bind_outcome res (\<lambda>_. Ok None), t)) (trie_Update t k v)"
| "trie_step (OpDelete k) t = map_option (\<lambda>(res, t). (bind_outcome res (\<lambda>_. Ok None), t)) (trie_Delete t k)"

fun trie_run :: "trie_op list \<Rightarrow> Trie \<Rightarrow> ((trie_err, byte list option) outcome list \<times> Trie) option" where
  "trie_run [] t = Some ([], t)"
| "trie_run (x # ops) t =
     (case trie_step x t of
        None \<Rightarrow> None
      | Some (res, t) \<Rightarrow> map_option (\<lambda>(rs, t). (res # rs, t)) (trie_run ops t))"

text \<open>The same operations on a map; an update with an empty value deletes.\<close>

fun map_step :: "trie_op \<Rightarrow> (byte list \<rightharpoonup> byte list) \<Rightarrow> byte list option \<times> (byte list \<rightharpoonup> byte list)" where
  "map_step (OpGet k) m = (m k, m)"
| "map_step (OpUpdate k v) m = (None, if v = [] then m(k := None) else m(k \<mapsto> v))"
| "map_step (OpDelete k) m = (None, m(k := None))"

fun map_run :: "trie_op list \<Rightarrow> (byte list \<rightharpoonup> byte list) \<Rightarrow> byte list option list \<times> (byte list \<rightharpoonup> byte list)" where
  "map_run [] m = ([], m)"
| "map_run (x # ops) m = (let (res, m) = map_step x m; (rs, m) = map_run ops m in (res # rs, m))"

lemma tlookup_eq_iff: "trie_ok t \<Longrightarrow> trie_ok t' \<Longrightarrow> (\<And>w. holds t' j w \<longleftrightarrow> holds t k w) \<Longrightarrow> tlookup t' j = tlookup t k"
  using tlookup_iff [of t k] by (intro tlookup_eqI) auto

lemma trie_step_simulates:
  assumes "trie_ok t"
  shows "\<exists>t'. trie_step x t = Some (Ok (fst (map_step x (tlookup t))), t') \<and> trie_ok t' \<and>
    tlookup t' = snd (map_step x (tlookup t)) \<and> (keyed t \<longrightarrow> keyed t')"
proof (cases x)
  case (OpGet k)
  obtain v t' where g: "trie_Get t k = Some (Ok v, t')" "trie_ok t'" "\<And>w. v = Some w \<longleftrightarrow> holds t k w"
    "\<And>j w. holds t' j w \<longleftrightarrow> holds t j w" "keyed t \<longrightarrow> keyed t'" using Get_ok [OF assms, of k] by blast
  have "tlookup t k = v" using g(3) assms by (intro tlookup_eqI) auto
  moreover have "tlookup t' = tlookup t" using assms g by (intro ext tlookup_eq_iff) auto
  ultimately show ?thesis using g OpGet by simp
next
  case (OpUpdate k v)
  obtain t' where u: "trie_Update t k v = Some (Ok (), t')" "trie_ok t'"
    "\<And>j w. holds t' j w \<longleftrightarrow> (if j = k then v \<noteq> [] \<and> w = v else holds t j w)" "keyed t \<longrightarrow> keyed t'"
    using Update_ok [OF assms] by blast
  have "tlookup t' = snd (map_step x (tlookup t))"
    using u assms tlookup_iff [OF assms] by (intro ext tlookup_eqI) (auto simp: OpUpdate)
  then show ?thesis using u OpUpdate by simp
next
  case (OpDelete k)
  obtain t' where u: "trie_Delete t k = Some (Ok (), t')" "trie_ok t'"
    "\<And>j w. holds t' j w \<longleftrightarrow> j \<noteq> k \<and> holds t j w" "keyed t \<longrightarrow> keyed t'"
    using Delete_ok [OF assms] by blast
  have "tlookup t' = snd (map_step x (tlookup t))"
    using u assms tlookup_iff [OF assms] by (intro ext tlookup_eqI) (auto simp: OpDelete)
  then show ?thesis using u OpDelete by simp
qed

lemma trie_run_simulates:
  "trie_ok t \<Longrightarrow> \<exists>t'. trie_run ops t = Some (map Ok (fst (map_run ops (tlookup t))), t') \<and> trie_ok t' \<and>
    tlookup t' = snd (map_run ops (tlookup t))"
proof (induction ops arbitrary: t)
  case (Cons x ops)
  obtain t1 where t1: "trie_step x t = Some (Ok (fst (map_step x (tlookup t))), t1)" "trie_ok t1"
    "tlookup t1 = snd (map_step x (tlookup t))" using trie_step_simulates [OF Cons.prems] by blast
  from Cons.IH [OF t1(2)] t1(1,3) show ?case by (auto simp: case_prod_beta Let_def)
qed simp

text \<open>
  C32: The Merkle-Patricia trie refines a map.  On every well-formed trie, however much of it is
  still in the database, every sequence of reads, updates and deletions returns exactly what the
  same sequence returns on the map of its entries: no operation fails, panics or descends for
  ever, and the trie stays well formed and minimal.
\<close>

theorem trie_refines_map:
  assumes "trie_ok t"
  shows "\<exists>t'. trie_run ops t = Some (map Ok (fst (map_run ops (tlookup t))), t') \<and> trie_ok t' \<and>
    tlookup t' = snd (map_run ops (tlookup t))"
  by (rule trie_run_simulates [OF assms])

definition emptyTrie :: Trie where
  "emptyTrie = \<lparr> root = NilN, owner = 0, committed = False, unhashed = 0,
     reader = \<lparr> tr_owner = 0, tr_reader = None, banned = [] \<rparr>, trace = newTracer \<rparr>"

lemma emptyTrie_ok: "trie_ok emptyTrie" "tlookup emptyTrie = Map.empty"
proof -
  show ok: "trie_ok emptyTrie" by (simp add: trie_ok_def emptyTrie_def)
  show "tlookup emptyTrie = Map.empty"
    using ok by (intro ext tlookup_eqI) (simp_all add: holds_def emptyTrie_def)
qed

theorem trie_refines_map_witness:
  "\<exists>t'. trie_run [OpUpdate [1] [5], OpUpdate [1, 2] [6], OpGet [1], OpDelete [1], OpGet [1], OpGet [1, 2]] emptyTrie =
    Some (map Ok [None, None, Some [5], None, None, Some [6]], t') \<and> trie_ok t'"
  using trie_refines_map [OF emptyTrie_ok(1), of "[OpUpdate [1] [5], OpUpdate [1, 2] [6], OpGet [1], OpDelete [1],
    OpGet [1], OpGet [1, 2]]"] unfolding emptyTrie_ok(2) by (auto simp: Let_def)

end
