(* ===== verification/Trie_Canon.thy ===== *)
theory Trie_Canon
  imports Trie_Map
begin

text \<open>
  The shape of a trie is determined by its entries.  Two well-formed tries in memory with the
  same entries have the same nodes, so the root hash commits to the content and not to the
  history of updates that led to it.
\<close>

text \<open>The node without its flags, and the nodes that are completely in memory.\<close>

fun strip :: "node \<Rightarrow> node" where
  "strip (Full cs f) = Full (map strip cs) newFlag"
| "strip (Short k c f) = Short k (strip c) newFlag"
| "strip n = n"

fun loaded :: "node \<Rightarrow> bool" where
  "loaded (Full cs f) = list_all loaded cs"
| "loaded (Short k c f) = loaded c"
| "loaded (HashN h) = False"
| "loaded n = True"

subsection \<open>Entries of well-formed nodes\<close>

lemma full_two_entries:
  assumes "tok r p (Full cs f)" "\<And>x. x < 16 \<Longrightarrow> cs ! unat x \<noteq> NilN \<Longrightarrow> \<exists>k v. entry r (p @ [x]) (cs ! unat x) k v"
  shows "\<exists>x y k k' v v'. x \<noteq> y \<and> entry r p (Full cs f) (x # k) v \<and> entry r p (Full cs f) (y # k') v'"
proof -
  have l: "length cs = 17" using assms(1) by (simp add: tok_simps)
  obtain i j where ij: "i < j" "j < 17" "cs ! i \<noteq> NilN" "cs ! j \<noteq> NilN" using assms(1) by (auto simp: tok_simps)
  have e: "\<exists>k v. entry r p (Full cs f) (word_of_nat m # k) v" if "m < 17" "cs ! m \<noteq> NilN" for m
  proof -
    have u: "unat (word_of_nat m :: byte) = m" using that(1) by (simp add: unat_of_nat)
    have "\<exists>k v. entry r (p @ [word_of_nat m]) (cs ! m) k v"
      using full_child_ok [OF assms(1) that] assms(2) [of "word_of_nat m"] u that(2) by (auto simp: child_ok_def)
    then show ?thesis using u l that(1) by auto
  qed
  have "(word_of_nat i :: byte) \<noteq> word_of_nat j"
  proof
    assume "(word_of_nat i :: byte) = word_of_nat j"
    then have "unat (word_of_nat i :: byte) = unat (word_of_nat j :: byte)" by simp
    then show False using ij by (simp add: unat_of_nat)
  qed
  then show ?thesis using e [of i] e [of j] ij by (meson less_trans)
qed

lemma tok_has_entry: "tok r p n \<Longrightarrow> \<exists>k v. entry r p n k v"
proof (induction rule: tok.induct)
  case (tk_full cs p f)
  have "tok r p (Full cs f)" using tk_full by (intro tok.tk_full) auto
  moreover have "\<exists>k v. entry r (p @ [x]) (cs ! unat x) k v" if "x < 16" "cs ! unat x \<noteq> NilN" for x
    using tk_full that by auto
  ultimately show ?case using full_two_entries by blast
qed auto

lemma full_heads:
  assumes "tok r p (Full cs f)"
  shows "\<exists>x y k k' v v'. x \<noteq> y \<and> entry r p (Full cs f) (x # k) v \<and> entry r p (Full cs f) (y # k') v'"
  using assms tok_has_entry by (intro full_two_entries) (auto simp: tok_simps)

lemma ext_child:
  assumes "tok r p (Short k c f)" "loaded c" "nibs k"
  shows "\<exists>cs cf. c = Full cs cf \<and> tok r (p @ k) c"
  using assms by (elim tok_Short_cases) (auto simp: isFull_def)

lemma short_heads:
  assumes "tok r p (Short k c f)" "entry r p (Short k c f) a v" "entry r p (Short k c f) b w"
  shows "hd a = hd b"
  using assms tok_Short_ne [OF assms(1)] by (auto simp: hd_append)

text \<open>Two keys that part right after \<open>a\<close> have no longer common prefix.\<close>

lemma parting_prefix:
  assumes "a @ x # k = b @ u" "a @ y # k' = b @ w" "x \<noteq> y"
  shows "length b \<le> length a"
proof (rule ccontr)
  assume "\<not> length b \<le> length a"
  then have l: "length a < length b" by simp
  have "(a @ x # k) ! length a = b ! length a" "(a @ y # k') ! length a = b ! length a"
    unfolding assms(1,2) using l by (simp_all add: nth_append)
  then show False using assms(3) by simp
qed

definition agree :: "trieReader \<Rightarrow> byte list \<Rightarrow> node \<Rightarrow> trieReader \<Rightarrow> byte list \<Rightarrow> node \<Rightarrow> bool" where
  "agree r p n r' p' n' \<longleftrightarrow> (\<forall>k v. entry r p n k v \<longleftrightarrow> entry r' p' n' k v)"

lemma agree_sym: "agree r p n r' p' n' \<Longrightarrow> agree r' p' n' r p n"
  by (simp add: agree_def)

lemma leaf_not_full:
  assumes "agree r p (Short k (ValueN v) f) r' p' n'" "tok r' p' n'" "loaded n'"
  shows "\<exists>f'. n' = Short k (ValueN v) f'"
proof -
  have only: "entry r' p' n' j w \<longleftrightarrow> j = k \<and> w = v" for j w using assms(1) by (auto simp: agree_def)
  show ?thesis
  proof (cases n')
    case (Full cs f')
    obtain x y j j' w w' where "x \<noteq> y" "entry r' p' n' (x # j) w" "entry r' p' n' (y # j') w'"
      using full_heads [OF assms(2) [unfolded Full]] unfolding Full by blast
    then show ?thesis using only by auto
  next
    case (Short k' c f')
    from assms(2) [unfolded Short] show ?thesis
    proof (cases rule: tok_Short_cases)
      case (leaf k1 v1)
      then have "entry r' p' n' k' v1" by (simp add: Short)
      then show ?thesis using only Short leaf by auto
    next
      case ext
      then obtain cs cf where c: "c = Full cs cf" using assms(3) Short by (auto simp: isFull_def)
      obtain x y j j' w w' where "x \<noteq> y" "entry r' (p' @ k') c (x # j) w" "entry r' (p' @ k') c (y # j') w'"
        using full_heads ext(4) unfolding c by blast
      then have "entry r' p' n' (k' @ x # j) w" "entry r' p' n' (k' @ y # j') w'" by (auto simp: Short)
      then show ?thesis using only \<open>x \<noteq> y\<close> by (metis list.inject same_append_eq)
    qed
  qed (use assms in auto)
qed

lemma full_not_short:
  assumes "tok r p (Full cs f)" "tok r' p' (Short k c f')" "agree r p (Full cs f) r' p' (Short k c f')"
  shows False
proof -
  obtain x y j j' w w' where e: "x \<noteq> y" "entry r p (Full cs f) (x # j) w" "entry r p (Full cs f) (y # j') w'"
    using full_heads [OF assms(1)] by blast
  then have "entry r' p' (Short k c f') (x # j) w" "entry r' p' (Short k c f') (y # j') w'"
    using assms(3) unfolding agree_def by blast+
  from short_heads [OF assms(2) this] e(1) show False by simp
qed

lemma ext_same_key:
  assumes "tok r (p @ k) (Full cs f)" "tok r' (p' @ k') (Full cs' f')"
    and "agree r p (Short k (Full cs f) g) r' p' (Short k' (Full cs' f') g')"
  shows "k = k'"
proof -
  obtain x y j j' w w' where e: "x \<noteq> y" "entry r (p @ k) (Full cs f) (x # j) w"
    "entry r (p @ k) (Full cs f) (y # j') w'" using full_heads [OF assms(1)] by blast
  obtain x1 y1 i i' u u' where e': "x1 \<noteq> y1" "entry r' (p' @ k') (Full cs' f') (x1 # i) u"
    "entry r' (p' @ k') (Full cs' f') (y1 # i') u'" using full_heads [OF assms(2)] by blast
  have a: "entry r p (Short k (Full cs f) g) a v \<longleftrightarrow> entry r' p' (Short k' (Full cs' f') g') a v" for a v
    using assms(3) unfolding agree_def by blast
  obtain z z' where z: "k @ x # j = k' @ z" "k @ y # j' = k' @ z'"
    using a [of "k @ x # j" w] a [of "k @ y # j'" w'] e unfolding entry_simps(3) by blast
  obtain q q' where q: "k' @ x1 # i = k @ q" "k' @ y1 # i' = k @ q'"
    using a [of "k' @ x1 # i" u] a [of "k' @ y1 # i'" u'] e' unfolding entry_simps(3) by blast
  have "length k = length k'" using parting_prefix [OF z e(1)] parting_prefix [OF q e'(1)] by simp
  then show ?thesis using z(1) by simp
qed

lemma agree_Short: "agree r p (Short k c f) r' p' (Short k c' f') \<Longrightarrow> agree r (p @ k) c r' (p' @ k) c'"
  unfolding agree_def entry_simps(3) by (metis same_append_eq)

lemma agree_Full:
  assumes "agree r p (Full cs f) r' p' (Full cs' f')" "length cs = 17" "length cs' = 17" "unat x < 17"
  shows "agree r (p @ [x]) (cs ! unat x) r' (p' @ [x]) (cs' ! unat x)"
  using assms unfolding agree_def by (metis entry_simps(5))

lemma strip_unique:
  "tok r p n \<Longrightarrow> tok r' p' n' \<Longrightarrow> loaded n \<Longrightarrow> loaded n' \<Longrightarrow> agree r p n r' p' n' \<Longrightarrow> strip n = strip n'"
proof (induction n arbitrary: p p' n')
  case (Short k c f)
  from Short.prems(1) show ?case
  proof (cases rule: tok_Short_cases)
    case (leaf k1 v)
    have "agree r p (Short k (ValueN v) f) r' p' n'" using Short.prems(5) leaf by simp
    from leaf_not_full [OF this Short.prems(2,4)] leaf show ?thesis by auto
  next
    case ext
    then obtain cs cf where c: "c = Full cs cf" using Short.prems(3) by (auto simp: isFull_def)
    show ?thesis
    proof (cases n')
      case (Full cs' f')
      then show ?thesis using full_not_short agree_sym [OF Short.prems(5)] Short.prems(1,2) by blast
    next
      case S': (Short k' c' f')
      from Short.prems(2) [unfolded S'] show ?thesis
      proof (cases rule: tok_Short_cases)
        case (leaf k1 v)
        have "agree r' p' (Short k' (ValueN v) f') r p (Short k c f)"
          using agree_sym [OF Short.prems(5)] S' leaf by simp
        from leaf_not_full [OF this Short.prems(1,3)] c show ?thesis by auto
      next
        case e': ext
        then obtain cs' cf' where c': "c' = Full cs' cf'" using Short.prems(4) S' by (auto simp: isFull_def)
        have k: "k = k'" using ext_same_key ext(4) e'(4) Short.prems(5) unfolding c c' S' by blast
        have "agree r (p @ k) c r' (p' @ k) c'" using agree_Short Short.prems(5) unfolding S' k by blast
        then have "strip c = strip c'" using Short.IH ext(4) e'(4) Short.prems(3,4) unfolding k S' by simp
        then show ?thesis using k S' by simp
      qed
    qed (use Short.prems in auto)
  qed
next
  case (Full cs f)
  show ?case
  proof (cases n')
    case S': (Short k' c' f')
    then show ?thesis using full_not_short Full.prems by blast
  next
    case F': (Full cs' f')
    have l: "length cs = 17" "length cs' = 17" using Full.prems(1,2) F' by (simp_all add: tok_simps)
    have "strip (cs ! i) = strip (cs' ! i)" if i: "i < 17" for i
    proof -
      define x :: byte where "x = word_of_nat i"
      have x: "unat x = i" using i by (simp add: x_def unat_of_nat)
      have a: "agree r (p @ [x]) (cs ! i) r' (p' @ [x]) (cs' ! i)"
        using agree_Full [OF Full.prems(5) [unfolded F'] l, of x] x i by simp
      have ok: "cs ! i = NilN \<or> child_ok r p x (cs ! i)" "cs' ! i = NilN \<or> child_ok r' p' x (cs' ! i)"
        using full_child_ok [OF Full.prems(1) i] full_child_ok [OF Full.prems(2) [unfolded F'] i] by (auto simp: x_def)
      have ent: "child_ok r q x d \<Longrightarrow> \<exists>k v. entry r (q @ [x]) d k v" for r q d
        using tok_has_entry by (auto simp: child_ok_def)
      have nil: "cs ! i = NilN \<longleftrightarrow> cs' ! i = NilN"
        using a ok ent unfolding agree_def by (metis entry_simps(1))
      show ?thesis
      proof (cases "cs ! i = NilN")
        case False
        then have ok: "child_ok r p x (cs ! i)" "child_ok r' p' x (cs' ! i)" using nil ok by auto
        show ?thesis
        proof (cases "x = 16")
          case True
          then obtain v v' where "cs ! i = ValueN v" "cs' ! i = ValueN v'" using ok by (auto simp: child_ok_def)
          then show ?thesis using a by (auto simp: agree_def)
        next
          case False
          then have "tok r (p @ [x]) (cs ! i)" "tok r' (p' @ [x]) (cs' ! i)" using ok by (auto simp: child_ok_def)
          moreover have "cs ! i \<in> set cs" "loaded (cs ! i)" "loaded (cs' ! i)"
            using Full.prems(3,4) F' l i by (auto simp: list_all_length)
          ultimately show ?thesis using Full.IH a by blast
        qed
      qed (use nil in simp)
    qed
    then show ?thesis using F' l by (simp add: list_eq_iff_nth_eq)
  qed (use Full.prems in auto)
qed auto

subsection \<open>Laws of nodes that the operations keep\<close>

lemma tbind_Some:
  assumes "tbind m f t = Some (Ok y, t')"
  obtains x t1 where "m t = Some (Ok x, t1)" "f x t1 = Some (Ok y, t')"
  using assms by (auto simp: tbind_def split: option.splits prod.splits outcome.splits)

lemma tret_Some [simp]: "tret x t = Some (Ok y, t') \<longleftrightarrow> x = y \<and> t = t'"
  by (auto simp: tret_def)

lemma tpanic_Some [simp]: "tpanic t \<noteq> Some (Ok y, t')"
  by (simp add: tpanic_def)

lemma ttrace_Some [simp]: "ttrace f t = Some (Ok u, t') \<longleftrightarrow> t' = f t"
  by (auto simp: ttrace_def)

lemma resolveAndTrack_Some: "resolveAndTrack r h p t = Some (Ok n, t') \<Longrightarrow> resolves r h p n"
  by (auto simp: resolveAndTrack_def resolves_def Let_def split: sum.splits option.splits)

text \<open>A law that holds of every node below a node, at the node's path.\<close>

inductive every :: "(byte list \<Rightarrow> node \<Rightarrow> bool) \<Rightarrow> byte list \<Rightarrow> node \<Rightarrow> bool" for Q where
  ev_full: "length cs = 17 \<Longrightarrow> Q p (Full cs f) \<Longrightarrow> (\<And>x. unat x < 17 \<Longrightarrow> every Q (p @ [x]) (cs ! unat x)) \<Longrightarrow>
    every Q p (Full cs f)"
| ev_short: "Q p (Short k c f) \<Longrightarrow> every Q (p @ k) c \<Longrightarrow> every Q p (Short k c f)"
| ev_nil: "Q p NilN \<Longrightarrow> every Q p NilN"
| ev_value: "Q p (ValueN v) \<Longrightarrow> every Q p (ValueN v)"
| ev_hash: "Q p (HashN h) \<Longrightarrow> every Q p (HashN h)"

inductive_simps every_simps [simp]:
  "every Q p NilN" "every Q p (ValueN v)" "every Q p (HashN h)" "every Q p (Short k c f)" "every Q p (Full cs f)"

text \<open>
  The interface between the operations and the laws of nodes: fresh nodes obey the law, what a
  hash node resolves to obeys it, and a node may take a loaded child for a hash node.
\<close>

locale node_law =
  fixes r :: trieReader and Q :: "byte list \<Rightarrow> node \<Rightarrow> bool" and E :: "byte list \<Rightarrow> node \<Rightarrow> node \<Rightarrow> bool"
  assumes fresh: "Q p (Full cs newFlag)" "Q p (Short k c newFlag)" "Q p NilN" "Q p (ValueN v)"
    and resolved: "Q p (HashN h) \<Longrightarrow> resolves r h p n \<Longrightarrow> every Q p n \<and> E p (HashN h) n"
    and E_refl: "E p n n"
    and E_trans: "E p n n' \<Longrightarrow> E p n' n'' \<Longrightarrow> E p n n''"
    and E_Short: "E (p @ k) c c' \<Longrightarrow> E p (Short k c f) (Short k c' f) \<and> (Q p (Short k c f) \<longrightarrow> Q p (Short k c' f))"
    and E_Full: "length cs = 17 \<Longrightarrow> unat x < 17 \<Longrightarrow> E (p @ [x]) (cs ! unat x) c \<Longrightarrow>
      E p (Full cs f) (Full (cs[unat x := c]) f) \<and> (Q p (Full cs f) \<longrightarrow> Q p (Full (cs[unat x := c]) f))"
begin

lemma every_update:
  assumes "length cs = 17" "\<And>x. unat x < 17 \<Longrightarrow> every Q (p @ [x]) (cs ! unat x)" "every Q (p @ [y]) c" "unat x < 17"
  shows "every Q (p @ [x]) (cs[unat y := c] ! unat x)"
  using assms by (cases "x = y") (simp_all add: nth_list_update nib_unat_eq)

lemma every_branch:
  assumes "every Q (p @ [x]) c" "every Q (p @ [y]) d"
  shows "every Q p (Full ((replicate 17 NilN)[unat x := c, unat y := d]) newFlag)"
proof -
  have "every Q (p @ [z]) ((replicate 17 NilN)[unat x := c, unat y := d] ! unat z)" if "unat z < 17" for z
    using assms that by (intro every_update) (simp_all add: fresh)
  then show ?thesis by (simp add: fresh)
qed

lemma get_every:
  "get fuel r n key pos t = Some (Ok (v, n', d), t') \<Longrightarrow> every Q (take pos key) n \<Longrightarrow> pos \<le> length key \<Longrightarrow>
    every Q (take pos key) n' \<and> E (take pos key) n n' \<and> (\<not> d \<longrightarrow> n' = n)"
proof (induction fuel arbitrary: n pos t v n' d t')
  case (Suc fuel)
  show ?case
  proof (cases n)
    case (Short nk c f)
    show ?thesis
    proof (cases "length key - pos < length nk \<or> nk \<noteq> take (length nk) (drop pos key)")
      case True
      then show ?thesis using Suc.prems E_refl by (auto simp: Short)
    next
      case False
      then have k: "take (pos + length nk) key = take pos key @ nk" "pos + length nk \<le> length key"
        using Suc.prems(3) by (auto simp: take_add)
      from False Suc.prems(1) obtain c' t1 where g: "get fuel r c key (pos + length nk) t = Some (Ok (v, c', d), t1)"
        "n' = (if d then Short nk c' f else n)" by (auto simp: Short elim!: tbind_Some)
      from Suc.IH [OF g(1)] Suc.prems(2) k E_Short [of "take pos key" nk c c' f] E_refl g(2) show ?thesis
        by (auto simp: Short)
    qed
  next
    case (Full cs f)
    then have l: "pos < length key" "unat (key ! pos) < length cs"
      using Suc.prems(1) by (auto split: if_splits)
    let ?x = "key ! pos"
    have k: "take (pos + 1) key = take pos key @ [?x]" using l(1) by (simp add: take_Suc_conv_app_nth)
    from l Suc.prems(1) obtain c' t1 where g: "get fuel r (cs ! unat ?x) key (pos + 1) t = Some (Ok (v, c', d), t1)"
      "n' = (if d then Full (cs[unat ?x := c']) f else n)" by (auto simp: Full elim!: tbind_Some)
    from Suc.IH [OF g(1)] Suc.prems(2) l k have c: "every Q (take pos key @ [?x]) c'"
      "E (take pos key @ [?x]) (cs ! unat ?x) c'" by (auto simp: Full)
    from E_Full [OF _ _ c(2), of f] Suc.prems(2) c(1) E_refl g(2) every_update l(2) show ?thesis by (auto simp: Full)
  next
    case (HashN h)
    from Suc.prems(1) obtain c t1 t2 d' where g: "resolveAndTrack r h (take pos key) t = Some (Ok c, t1)"
      "get fuel r c key pos t1 = Some (Ok (v, n', d'), t2)" "d" by (auto simp: HashN elim!: tbind_Some)
    have e: "every Q (take pos key) c" "E (take pos key) (HashN h) c"
      using resolved [OF _ resolveAndTrack_Some [OF g(1)]] Suc.prems(2) by (simp_all add: HashN)
    from Suc.IH [OF g(2) e(1) Suc.prems(3)] e(2) E_trans g(3) show ?thesis by (auto simp: HashN)
  qed (use Suc.prems E_refl in auto)
qed simp

lemma insertAt_split_every:
  assumes IH: "\<And>n p key w t d n' t'. insertAt fuel r n p key w t = Some (Ok (d, n'), t') \<Longrightarrow> every Q p n \<Longrightarrow>
      every Q (p @ key) w \<Longrightarrow> every Q p n'"
    and s: "insertAt (Suc fuel) r (Short nk c f) p key w t = Some (Ok (d, n'), t')"
    and Q: "every Q (p @ nk) c" "every Q (p @ key) w"
    and m: "m = prefixLen key nk" "m \<noteq> length nk" "key \<noteq> []"
  shows "every Q p n'"
proof -
  from s m obtain c1 c2 t1 t2 t3 d1 d2 where g:
    "insertAt fuel r NilN (p @ take (m + 1) nk) (drop (m + 1) nk) c t = Some (Ok (d1, c1), t1)"
    "insertAt fuel r NilN (p @ take (m + 1) key) (drop (m + 1) key) w t2 = Some (Ok (d2, c2), t3)" "m < length key"
    "n' = (if m = 0 then Full ((replicate 17 NilN)[unat (nk ! m) := c1, unat (key ! m) := c2]) newFlag
      else Short (take m key) (Full ((replicate 17 NilN)[unat (nk ! m) := c1, unat (key ! m) := c2]) newFlag) newFlag)"
    by (auto simp: Let_def split: if_splits elim!: tbind_Some)
  have lt: "m < length nk" using m prefixLen_le(2) [of key nk] by simp
  have "take m nk = take m key" unfolding m(1) by (rule take_prefixLen [symmetric])
  then have k: "take (m + 1) nk = take m key @ [nk ! m]" "take (m + 1) key = take m key @ [key ! m]"
    using lt g(3) by (simp_all add: take_Suc_conv_app_nth)
  have "every Q (p @ take (m + 1) nk) c1" "every Q (p @ take (m + 1) key) c2"
    using IH [OF g(1)] IH [OF g(2)] Q by (simp_all add: fresh)
  then have "every Q (p @ take m key) (Full ((replicate 17 NilN)[unat (nk ! m) := c1, unat (key ! m) := c2]) newFlag)"
    unfolding k by (intro every_branch) simp_all
  then show ?thesis using g(4) fresh by auto
qed

lemma insertAt_every:
  "insertAt fuel r n p key w t = Some (Ok (d, n'), t') \<Longrightarrow> every Q p n \<Longrightarrow> every Q (p @ key) w \<Longrightarrow> every Q p n'"
proof (induction fuel arbitrary: n p key w t d n' t')
  case (Suc fuel)
  show ?case
  proof (cases "key = []")
    case True
    then show ?thesis using Suc.prems by (auto split: node.splits)
  next
    case key: False
    show ?thesis
    proof (cases n)
      case (Short nk c f)
      show ?thesis
      proof (cases "prefixLen key nk = length nk")
        case True
        then have k: "take (length nk) key = nk" using take_prefixLen [of key nk] by simp
        then have kk: "nk @ drop (length nk) key = key" by (metis append_take_drop_id)
        from Suc.prems(1) key True k obtain c' t1 d1 where g:
          "insertAt fuel r c (p @ nk) (drop (length nk) key) w t = Some (Ok (d1, c'), t1)"
          "n' = (if d1 then Short nk c' newFlag else n)" by (auto simp: Short split: if_splits elim!: tbind_Some)
        from Suc.IH [OF g(1)] Suc.prems(2,3) kk g(2) show ?thesis by (simp add: Short fresh)
      next
        case False
        then show ?thesis
          using insertAt_split_every [OF Suc.IH] Suc.prems key by (simp add: Short del: insertAt.simps)
      qed
    next
      case (Full cs f)
      let ?x = "key ! 0"
      from Suc.prems(1) key obtain c' t1 d1 where g: "unat ?x < length cs"
        "insertAt fuel r (cs ! unat ?x) (p @ [?x]) (drop 1 key) w t = Some (Ok (d1, c'), t1)"
        "n' = (if d1 then Full (cs[unat ?x := c']) newFlag else n)"
        by (auto simp: Full split: if_splits elim!: tbind_Some)
      have "?x # drop 1 key = key" using key by (cases key) simp_all
      then have "every Q (p @ [?x]) c'" using Suc.IH [OF g(2)] Suc.prems(2,3) g(1) by (simp add: Full)
      then show ?thesis using g(3) Suc.prems(2) every_update by (auto simp: Full fresh)
    next
      case (HashN h)
      with Suc.prems(1) key obtain c t1 t2 d1 nn where g: "resolveAndTrack r h p t = Some (Ok c, t1)"
        "insertAt fuel r c p key w t1 = Some (Ok (d1, nn), t2)" "n' = nn \<or> n' = c"
        by (auto split: if_splits elim!: tbind_Some)
      have e: "every Q p c" using resolved [OF _ resolveAndTrack_Some [OF g(1)]] Suc.prems(2) by (simp add: HashN)
      from Suc.IH [OF g(2) e Suc.prems(3)] e g(3) show ?thesis by auto
    qed (use Suc.prems key in \<open>auto simp: fresh elim!: tbind_Some\<close>)
  qed
qed simp

lemma reduce_every:
  assumes red: "reduce r cs p t = Some (Ok (d, n'), t')" and l: "length cs = 17"
    and e: "\<And>x. unat x < 17 \<Longrightarrow> every Q (p @ [x]) (cs ! unat x)"
  shows "every Q p n'"
proof (cases rule: onlyChild_cases [of 0 cs])
  case (one j)
  let ?x = "word_of_nat j :: byte"
  have x: "unat ?x = j" using one(2) l by (simp add: unat_of_nat)
  then have c: "every Q (p @ [?x]) (cs ! j)" using e [of ?x] one(2) l by simp
  have res: "every Q (p @ [?x]) m" if "resolve r (cs ! j) (p @ [?x]) t = Some (Ok m, t1)" for m t1
    using that c resolved [OF _ resolveAndTrack_Some] by (cases "cs ! j") (auto simp: resolve_def)
  show ?thesis
  proof (cases "j = 16")
    case True
    then show ?thesis using red one(1) c by (auto simp: reduce_def fresh)
  next
    case False
    then obtain m t1 where m: "resolve r (cs ! j) (p @ [?x]) t = Some (Ok m, t1)"
      "n' = (case m of Short ck cv cf \<Rightarrow> Short (?x # ck) cv newFlag | _ \<Rightarrow> Short [?x] (cs ! j) newFlag)"
      using red one(1) by (auto simp: reduce_def Let_def elim!: tbind_Some split: node.splits)
    show ?thesis using res [OF m(1)] m(2) c by (auto simp: fresh split: node.splits)
  qed
qed (use red e l in \<open>auto simp: reduce_def fresh\<close>)

lemma delete_every:
  "delete fuel r n p key t = Some (Ok (d, n'), t') \<Longrightarrow> every Q p n \<Longrightarrow> every Q p n'"
proof (induction fuel arbitrary: n p key t d n' t')
  case (Suc fuel)
  show ?case
  proof (cases n)
    case (Short nk c f)
    show ?thesis
    proof (cases "prefixLen key nk < length nk \<or> prefixLen key nk = length key")
      case True
      then show ?thesis using Suc.prems by (auto simp: Short Let_def fresh split: if_splits elim!: tbind_Some)
    next
      case False
      then have "prefixLen key nk = length nk" using prefixLen_le(2) [of key nk] by simp
      then have "take (length nk) key = nk" using take_prefixLen [of key nk] by simp
      with Suc.prems(1) False obtain c' t1 d1 where g:
        "delete fuel r c (p @ nk) (drop (length nk) key) t = Some (Ok (d1, c'), t1)"
        "n' = n \<or> n' = (case c' of Short ck cv cf \<Rightarrow> Short (nk @ ck) cv newFlag | _ \<Rightarrow> Short nk c' newFlag)"
        by (auto simp: Short Let_def split: if_splits node.splits elim!: tbind_Some)
      from Suc.IH [OF g(1)] Suc.prems(2) g(2) show ?thesis by (auto simp: Short fresh split: node.splits)
    qed
  next
    case (Full cs f)
    let ?x = "key ! 0"
    from Suc.prems obtain c' t1 d1 where g: "unat ?x < 17"
      "delete fuel r (cs ! unat ?x) (p @ [?x]) (drop 1 key) t = Some (Ok (d1, c'), t1)"
      "n' = n \<or> n' = Full (cs[unat ?x := c']) newFlag \<or> reduce r (cs[unat ?x := c']) p t1 = Some (Ok (d, n'), t')"
      by (auto simp: Full Let_def split: if_splits elim!: tbind_Some)
    have cs: "length cs = 17" "\<And>x. unat x < 17 \<Longrightarrow> every Q (p @ [x]) (cs ! unat x)"
      using Suc.prems(2) by (simp_all add: Full)
    have "every Q (p @ [?x]) c'" using Suc.IH [OF g(2)] cs(2) g(1) by simp
    from every_update [OF cs this] reduce_every [of "cs[unat ?x := c']" p t1 d n' t'] g(3) Suc.prems(2) cs(1)
    show ?thesis by (auto simp: Full fresh)
  next
    case (HashN h)
    with Suc.prems(1) obtain c t1 t2 d1 nn where g: "resolveAndTrack r h p t = Some (Ok c, t1)"
      "delete fuel r c p key t1 = Some (Ok (d1, nn), t2)" "n' = nn \<or> n' = c"
      by (auto split: if_splits elim!: tbind_Some)
    have e: "every Q p c" using resolved [OF _ resolveAndTrack_Some [OF g(1)]] Suc.prems(2) by (simp add: HashN)
    from Suc.IH [OF g(2) e] e g(3) show ?thesis by auto
  qed (use Suc.prems in \<open>auto simp: fresh\<close>)
qed simp

lemma set_root_every:
  "set_root t res = Some (Ok (), t') \<Longrightarrow> (\<And>d n tr. res = Some (Ok (d, n), tr) \<Longrightarrow> every Q [] n) \<Longrightarrow>
    every Q [] (root t') \<and> reader t' = reader t"
  by (auto simp: set_root_def split: option.splits outcome.splits prod.splits)

lemma trie_step_every:
  assumes s: "trie_step x t = Some (Ok res, t')" and r: "reader t = r" and e: "every Q [] (root t)"
  shows "every Q [] (root t') \<and> reader t' = r"
proof (cases x)
  case (OpGet k)
  with s r obtain n d tr where "get (fuel_for (keybytesToHex k)) r (root t) (keybytesToHex k) 0 (trace t) = Some (Ok (res, n, d), tr)"
    "t' = t\<lparr> trace := tr, root := if d then n else root t \<rparr>"
    by (auto simp: trie_Get_def Let_def split: option.splits outcome.splits prod.splits if_splits)
  then show ?thesis using get_every [of _ _ _ 0] e r by force
next
  case (OpUpdate k v)
  with s obtain "trie_Update t k v = Some (Ok (), t')"
    by (auto elim: bind_outcome.elims)
  then show ?thesis using r e insertAt_every [of _ "root t" "[]" _ "ValueN v"] delete_every [of _ "root t" "[]"]
    by (fastforce simp: trie_Update_def Let_def fresh split: if_splits dest!: set_root_every)
next
  case (OpDelete k)
  with s obtain "trie_Delete t k = Some (Ok (), t')"
    by (auto elim: bind_outcome.elims)
  then show ?thesis using r e delete_every [of _ "root t" "[]"]
    by (fastforce simp: trie_Delete_def Let_def split: if_splits dest!: set_root_every)
qed

end

end
