(* ===== verification/Trie_Hash.thy ===== *)
theory Trie_Hash
  imports Trie_Canon
begin

text \<open>
  Hashing a trie (\<open>trie/hasher.go\<close> and \<open>Trie.Hash\<close>): the hasher with its caches, and what it
  computes, a function of the shape of the trie alone; and the law of the caches, which the
  operations of the trie keep and loading from a sound database establishes.  The Keccak sponge is the parameter \<open>H\<close>: the stream of bytes that can be
  read after some data was written; a node hash is its first 32 bytes.
\<close>

type_synonym keccak = "byte list \<Rightarrow> nat \<Rightarrow> byte"

definition digest :: "keccak \<Rightarrow> byte list \<Rightarrow> byte list" where
  "digest H data = map (H data) [0..<32]"

definition hashData :: "keccak \<Rightarrow> byte list \<Rightarrow> node" where
  "hashData H data = HashN (digest H data)"

definition shortnodeToHash :: "keccak \<Rightarrow> node \<Rightarrow> bool \<Rightarrow> node option" where
  "shortnodeToHash H n force =
     (case nodeToBytes n of
        None \<Rightarrow> None
      | Some enc \<Rightarrow> Some (if length enc < 32 \<and> \<not> force then n else hashData H enc))"

definition fullnodeToHash :: "keccak \<Rightarrow> node \<Rightarrow> bool \<Rightarrow> node option" where
  "fullnodeToHash H n force =
     (case nodeToBytes n of
        None \<Rightarrow> None
      | Some enc \<Rightarrow> Some (if length enc < 32 \<and> \<not> force then n else hashData H enc))"

definition hashOf :: "node \<Rightarrow> byte list option" where
  "hashOf hashed = (case hashed of HashN h \<Rightarrow> Some h | _ \<Rightarrow> None)"

text \<open>
  Each function returns the collapsed and the cached node; \<open>None\<close> is a panic.  The sixteen
  goroutines of the parallel case write disjoint children, so the loop stands for both cases.
\<close>

fun hash_node :: "keccak \<Rightarrow> node \<Rightarrow> bool \<Rightarrow> (node \<times> node) option"
and hashShortNodeChildren :: "keccak \<Rightarrow> byte list \<Rightarrow> node \<Rightarrow> nodeFlag \<Rightarrow> (node \<times> node) option"
and hashFullNodeChildren :: "keccak \<Rightarrow> nat \<Rightarrow> node list \<Rightarrow> (node list \<times> node list) option" where
  "hash_node H (Short k v f) force =
     (case nf_hash f of
        Some h \<Rightarrow> Some (HashN h, Short k v f)
      | None \<Rightarrow>
          Option.bind (hashShortNodeChildren H k v f) (\<lambda>(collapsed, cached).
            Option.bind (shortnodeToHash H collapsed force) (\<lambda>hashed.
              case cached of
                Short ck cv cf \<Rightarrow> Some (hashed, Short ck cv (cf\<lparr> nf_hash := hashOf hashed \<rparr>))
              | _ \<Rightarrow> None)))"
| "hash_node H (Full cs f) force =
     (case nf_hash f of
        Some h \<Rightarrow> Some (HashN h, Full cs f)
      | None \<Rightarrow>
          Option.bind (hashFullNodeChildren H 0 cs) (\<lambda>(collapsed, cached).
            Option.bind (fullnodeToHash H (Full collapsed f) force) (\<lambda>hashed.
              Some (hashed, Full cached (f\<lparr> nf_hash := hashOf hashed \<rparr>)))))"
| "hash_node H n force = Some (n, n)"
| "hashShortNodeChildren H k v f =
     Option.bind (hexToCompact k) (\<lambda>key.
       case v of
         Full cs cf \<Rightarrow> map_option (\<lambda>(cv, v). (Short key cv f, Short k v f)) (hash_node H (Full cs cf) False)
       | Short ck cv cf \<Rightarrow> map_option (\<lambda>(cv, v). (Short key cv f, Short k v f)) (hash_node H (Short ck cv cf) False)
       | _ \<Rightarrow> Some (Short key v f, Short k v f))"
| "hashFullNodeChildren H i [] = Some ([], [])"
| "hashFullNodeChildren H i (child # cs) =
     Option.bind
       (if i < 16 then if child \<noteq> NilN then hash_node H child False else Some (ValueN [], child)
        else Some (child, child)) (\<lambda>(collapsed, cached).
       map_option (\<lambda>(collapseds, cacheds). (collapsed # collapseds, cached # cacheds)) (hashFullNodeChildren H (i + 1) cs))"

definition proofHash :: "keccak \<Rightarrow> node \<Rightarrow> (node \<times> node) option" where
  "proofHash H original =
     (case original of
        Short k v f \<Rightarrow>
          Option.bind (hashShortNodeChildren H k v f) (\<lambda>(sn, _).
            map_option (Pair sn) (shortnodeToHash H sn False))
      | Full cs f \<Rightarrow>
          Option.bind (hashFullNodeChildren H 0 cs) (\<lambda>(kids, _).
            map_option (Pair (Full kids f)) (fullnodeToHash H (Full kids f) False))
      | n \<Rightarrow> Some (n, n))"

definition EmptyRootHash :: hash where
  "EmptyRootHash = 0x56e81f171bcc55a6ff8345e692c0f86e5b48e01b996cadc001622fb5e363b421"

definition hashRoot :: "keccak \<Rightarrow> Trie \<Rightarrow> ((node \<times> node) \<times> Trie) option" where
  "hashRoot H t =
     (if root t = NilN then Some ((HashN (Hash_Bytes EmptyRootHash), NilN), t)
      else map_option (\<lambda>res. (res, t\<lparr> unhashed := 0 \<rparr>)) (hash_node H (root t) True))"

definition trie_Hash :: "keccak \<Rightarrow> Trie \<Rightarrow> (hash \<times> Trie) option" where
  "trie_Hash H t =
     (case hashRoot H t of
        Some ((HashN h, cached), t) \<Rightarrow> Some (BytesToHash h, t\<lparr> root := cached \<rparr>)
      | _ \<Rightarrow> None)"

subsection \<open>What is hashed\<close>

text \<open>
  The encoding of a node in its parent, and the encoding that is hashed: subtrees of 32 bytes and
  more are replaced by their hash.
\<close>

definition hashRef :: "keccak \<Rightarrow> byte list \<Rightarrow> byte list" where
  "hashRef H e = (if length e < 32 then e else encStr (digest H e))"

fun refEnc :: "keccak \<Rightarrow> node \<Rightarrow> byte list" where
  "refEnc H NilN = [0x80]"
| "refEnc H (HashN h) = encStr h"
| "refEnc H (ValueN v) = encStr v"
| "refEnc H (Short k v f) = hashRef H (frame List (encStr (the (hexToCompact k)) @ refEnc H v))"
| "refEnc H (Full cs f) = hashRef H (frame List (concat (map (refEnc H) cs)))"

fun rawEnc :: "keccak \<Rightarrow> node \<Rightarrow> byte list" where
  "rawEnc H (Short k v f) = frame List (encStr (the (hexToCompact k)) @ refEnc H v)"
| "rawEnc H (Full cs f) = frame List (concat (map (refEnc H) cs))"
| "rawEnc H n = refEnc H n"

lemma refEnc_inner: "inner n \<Longrightarrow> refEnc H n = hashRef H (rawEnc H n)"
  by (cases n) simp_all

text \<open>Flags do not matter for the shape, the content and the encoding of a node.\<close>

lemma refEnc_strip [simp]: "refEnc H (strip n) = refEnc H n"
proof (induction n)
  case (Full cs f)
  then have "map (refEnc H \<circ> strip) cs = map (refEnc H) cs" by simp
  then show ?case by (simp only: strip.simps refEnc.simps map_map)
qed (simp_all del: frame.simps)

lemma rawEnc_strip [simp]: "rawEnc H (strip n) = rawEnc H n"
  by (cases n) (simp_all add: comp_def del: frame.simps)

lemma strip_cases:
  "strip n = NilN \<longleftrightarrow> n = NilN" "strip n = ValueN v \<longleftrightarrow> n = ValueN v" "strip n = HashN h \<longleftrightarrow> n = HashN h"
  "strip n = Short k c g \<longleftrightarrow> (\<exists>c' f. n = Short k c' f \<and> c = strip c' \<and> g = newFlag)"
  "strip n = Full ds g \<longleftrightarrow> (\<exists>cs f. n = Full cs f \<and> ds = map strip cs \<and> g = newFlag)"
  by (cases n; auto)+

lemma isFull_strip [simp]: "isFull r p (strip n) = isFull r p n"
  by (cases n) (simp_all add: isFull_def)

lemma tok_strip_imp: "tok r p n \<Longrightarrow> tok r p (strip n)"
proof (induction rule: tok.induct)
  case (tk_leaf k v p f)
  then show ?case using tok.tk_leaf by simp
next
  case (tk_ext k p c f)
  then show ?case by (auto intro!: tok.tk_ext)
next
  case (tk_full cs p f)
  have u: "unat x < length cs" if "x < 16" for x :: byte
    using that tk_full(1) by (simp add: word_less_nat_alt)
  have "tok r p (Full (map strip cs) newFlag)"
    using tk_full u by (intro tok.tk_full) (fastforce simp: strip_cases)+
  then show ?case by simp
next
  case (tk_hash h p n)
  then show ?case by (auto intro: tok.tk_hash)
qed

lemma tok_of_strip: "tok r p m \<Longrightarrow> m = strip n \<Longrightarrow> tok r p n"
proof (induction arbitrary: n rule: tok.induct)
  case (tk_leaf k v p f)
  then obtain g where "n = Short (k @ [16]) (ValueN v) g"
    using strip_cases(4) [of n "k @ [16]" "ValueN v" f] by (auto simp: strip_cases dest: sym)
  then show ?case using tk_leaf by (auto intro: tok.tk_leaf)
next
  case (tk_ext k p c f)
  then obtain c' g where "n = Short k c' g" "c = strip c'" by (metis strip_cases(4))
  then show ?case using tk_ext by (auto intro: tok.tk_ext)
next
  case (tk_full cs p f)
  then obtain ds g where n: "n = Full ds g" "cs = map strip ds" by (metis strip_cases(5))
  have l: "length ds = 17" using tk_full(1) n(2) by simp
  have "ds ! unat x = NilN \<or> tok r (p @ [x]) (ds ! unat x)" if "x < 16" for x
  proof -
    have u: "unat x < length ds" using that l by (simp add: word_less_nat_alt)
    have "cs ! unat x = NilN \<or> (\<forall>n. cs ! unat x = strip n \<longrightarrow> tok r (p @ [x]) n)" using tk_full.IH that by blast
    then show ?thesis using u n(2) by (auto simp: strip_cases)
  qed
  moreover have "ds ! 16 = NilN \<or> (\<exists>v. ds ! 16 = ValueN v \<and> v \<noteq> [])"
    using tk_full.hyps(2) l by (auto simp: n(2) strip_cases)
  moreover have "\<exists>i j. i < j \<and> j < 17 \<and> ds ! i \<noteq> NilN \<and> ds ! j \<noteq> NilN"
    using tk_full.hyps(3) l unfolding n(2) by (metis less_trans nth_map strip_cases(1))
  ultimately show ?case unfolding n(1) using l by (intro tok.tk_full) blast+
next
  case (tk_hash h p m)
  then have "n = HashN h" by (metis strip_cases(3))
  then show ?case using tk_hash by (auto intro: tok.tk_hash)
qed

lemma tok_strip [simp]: "tok r p (strip n) = tok r p n"
  using tok_strip_imp tok_of_strip by blast

lemma entry_strip_imp: "entry r p n k v \<Longrightarrow> entry r p (strip n) k v"
  by (induction rule: entry.induct) (auto intro: entry.intros)

lemma entry_of_strip: "entry r p m k v \<Longrightarrow> m = strip n \<Longrightarrow> entry r p n k v"
proof (induction arbitrary: n rule: entry.induct)
  case (e_value p v)
  then have "n = ValueN v" by (metis strip_cases(2))
  then show ?case by simp
next
  case (e_short p k c k' v f)
  then obtain c' g where "n = Short k c' g" "c = strip c'" by (metis strip_cases(4))
  then show ?case using e_short by auto
next
  case (e_full x cs p k v f)
  then obtain ds g where "n = Full ds g" "cs = map strip ds" by (metis strip_cases(5))
  then show ?case using e_full by auto
next
  case (e_hash h p m k v)
  then have "n = HashN h" by (metis strip_cases(3))
  then show ?case using e_hash by auto
qed

lemma entry_strip [simp]: "entry r p (strip n) k v = entry r p n k v"
  using entry_strip_imp entry_of_strip by blast

text \<open>Nodes of the same shape.\<close>

lemma same_shape:
  assumes "strip n = strip n'"
  shows "refEnc H n = refEnc H n'" "rawEnc H n = rawEnc H n'" "tok r p n = tok r p n'" "entry r p n k v = entry r p n' k v"
    "inner n = inner n'"
proof -
  show "refEnc H n = refEnc H n'" using refEnc_strip [of H n] refEnc_strip [of H n'] assms by simp
  show "rawEnc H n = rawEnc H n'" using rawEnc_strip [of H n] rawEnc_strip [of H n'] assms by simp
  show "tok r p n = tok r p n'" using tok_strip [of r p n] tok_strip [of r p n'] assms by simp
  show "entry r p n k v = entry r p n' k v" using entry_strip [of r p n] entry_strip [of r p n'] assms by simp
  show "inner n = inner n'" using assms by (cases n; cases n') auto
qed

lemma length_digest [simp]: "length (digest H b) = 32"
  by (simp add: digest_def)

subsection \<open>The law of caches\<close>

text \<open>
  A database that serves hashed nodes: every blob is the encoding of a node in storage form, and
  is served under its hash; only the root may be small.
\<close>

definition sound :: "keccak \<Rightarrow> trieReader \<Rightarrow> bool" where
  "sound H r \<longleftrightarrow> (\<forall>p h blob. reader_node r p h = Inr blob \<longrightarrow>
     (\<exists>m. stored m \<and> inner m \<and> blob = nodeEnc (compactKeys m) \<and> length blob < 2 ^ 63 \<and>
       h = BytesToHash (digest H blob) \<and> (p \<noteq> [] \<longrightarrow> 32 \<le> length blob)))"

text \<open>
  A node whose hash is settled: it is cached, unless the node is small and part of its parent.
\<close>

definition settled :: "keccak \<Rightarrow> byte list \<Rightarrow> node \<Rightarrow> bool" where
  "settled H p n \<longleftrightarrow> (inner n \<longrightarrow> fst (cache n) = None \<longrightarrow> p \<noteq> [] \<and> length (rawEnc H n) < 32)"

text \<open>
  The law of the nodes of a trie over a reader: a cached hash is the hash of the node, and then
  everything below is settled; a clean node can be loaded by its hash; hash nodes can be loaded.
\<close>

definition law :: "keccak \<Rightarrow> trieReader \<Rightarrow> byte list \<Rightarrow> node \<Rightarrow> bool" where
  "law H r p n \<longleftrightarrow>
     (case cache n of
        (Some h, dirty) \<Rightarrow>
          h = digest H (rawEnc H n) \<and> (p \<noteq> [] \<longrightarrow> 32 \<le> length (rawEnc H n)) \<and> every (settled H) p n \<and>
          (\<not> dirty \<longrightarrow> tok r p (HashN h) \<and> same_content r p n (HashN h))
      | (None, dirty) \<Rightarrow> \<not> dirty \<longrightarrow> p \<noteq> [] \<and> length (rawEnc H n) < 32) \<and>
     (\<forall>h. n = HashN h \<longrightarrow> p \<noteq> [] \<and> length h = 32 \<and> tok r p n \<and> sound H r)"

text \<open>Encodings that fit into a Go slice.\<close>

definition small :: "keccak \<Rightarrow> byte list \<Rightarrow> node \<Rightarrow> bool" where
  "small H p n \<longleftrightarrow> length (rawEnc H n) < 2 ^ 63"

text \<open>What the hasher returns for a node: its reference and the node with its hashes cached.\<close>

definition hashes :: "keccak \<Rightarrow> trieReader \<Rightarrow> byte list \<Rightarrow> node \<Rightarrow> node \<times> node \<Rightarrow> bool" where
  "hashes H r p n res = (case res of (d, c) \<Rightarrow>
     strip c = strip n \<and> every (law H r) p c \<and> every (settled H) p c \<and>
     (if inner n \<and> (p = [] \<or> 32 \<le> length (rawEnc H n)) then d = HashN (digest H (rawEnc H n))
      else nodeEnc d = rawEnc H n \<and> (inner n \<longrightarrow> hashOf d = None)))"

lemma hashes_enc: "hashes H r p n (d, c) \<Longrightarrow> p \<noteq> [] \<Longrightarrow> nodeEnc d = refEnc H n"
  by (cases n) (auto simp: hashes_def hashRef_def split: if_splits)

lemma hexToCompact_Some: "hexToCompact k = Some (the (hexToCompact k))"
proof -
  have "decodeNibbles ns (replicate (length ns div 2) 0) \<noteq> None" if "even (length ns)" for ns
    using decodeNibbles_join [OF that] by simp
  note ev = this
  have od: "decodeNibbles (drop 1 ns) (replicate (length ns div 2) 0) \<noteq> None" if "odd (length ns)" for ns
  proof -
    have "length (drop 1 ns) div 2 = length ns div 2" "even (length (drop 1 ns))" using that by (auto elim: oddE)
    then show ?thesis using ev [of "drop 1 ns"] by simp
  qed
  have "hexToCompact k \<noteq> None"
    using ev [of k] od [of k] ev [of "take (length k - 1) k"] od [of "take (length k - 1) k"]
    by (auto simp: hexToCompact_def Let_def)
  then show ?thesis by simp
qed

lemma hashFullNodeChildren_nth:
  assumes "\<And>j. j < length cs \<Longrightarrow> i + j < 16 \<Longrightarrow> cs ! j \<noteq> NilN \<Longrightarrow> hash_node H (cs ! j) False \<noteq> None"
  shows "\<exists>cols caches. hashFullNodeChildren H i cs = Some (cols, caches) \<and> length cols = length cs \<and>
    length caches = length cs \<and> (\<forall>j<length cs.
      (if i + j < 16 \<and> cs ! j \<noteq> NilN then hash_node H (cs ! j) False = Some (cols ! j, caches ! j)
       else cols ! j = (if i + j < 16 then ValueN [] else cs ! j) \<and> caches ! j = cs ! j))"
  using assms
proof (induction cs arbitrary: i)
  case (Cons c cs)
  have "hash_node H (cs ! j) False \<noteq> None" if "j < length cs" "Suc i + j < 16" "cs ! j \<noteq> NilN" for j
    using Cons.prems [of "Suc j"] that by simp
  then obtain cols caches where r: "hashFullNodeChildren H (Suc i) cs = Some (cols, caches)"
    "length cols = length cs" "length caches = length cs"
    "\<And>j. j < length cs \<Longrightarrow>
      (if Suc i + j < 16 \<and> cs ! j \<noteq> NilN then hash_node H (cs ! j) False = Some (cols ! j, caches ! j)
       else cols ! j = (if Suc i + j < 16 then ValueN [] else cs ! j) \<and> caches ! j = cs ! j)"
    using Cons.IH [of "Suc i"] by blast
  obtain d e where de: "(if i < 16 then if c \<noteq> NilN then hash_node H c False else Some (ValueN [], c)
        else Some (c, c)) = Some (d, e)" using Cons.prems [of 0] by (cases "i < 16"; cases "c = NilN"; auto)
  have "hashFullNodeChildren H i (c # cs) = Some (d # cols, e # caches)" using de r(1) by simp
  moreover have "if i + j < 16 \<and> (c # cs) ! j \<noteq> NilN
      then hash_node H ((c # cs) ! j) False = Some ((d # cols) ! j, (e # caches) ! j)
      else (d # cols) ! j = (if i + j < 16 then ValueN [] else (c # cs) ! j) \<and> (e # caches) ! j = (c # cs) ! j"
    if "j < length (c # cs)" for j
    using that de r(4) [of "j - 1"] by (cases j) (auto split: if_splits)
  ultimately show ?case using r(2,3) by (intro exI [of _ "d # cols"] exI [of _ "e # caches"]) auto
qed simp

text \<open>Caching the hash of a node whose children are done.\<close>

lemma hashes_Short:
  assumes k: "strip v' = strip v" "every (law H r) (p @ k) v'" "every (settled H) (p @ k) v'"
    and enc: "nodeEnc cv = refEnc H v" and l: "law H r p (Short k v f)" "small H p (Short k v f)" "nf_hash f = None"
  shows "\<exists>d. shortnodeToHash H (Short (the (hexToCompact k)) cv f) (p = []) = Some d \<and>
    hashes H r p (Short k v f) (d, Short k v' (f\<lparr> nf_hash := hashOf d \<rparr>))"
proof -
  let ?n = "Short k v f" and ?col = "Short (the (hexToCompact k)) cv f"
  have e: "nodeEnc ?col = rawEnc H ?n" by (simp add: enc del: frame.simps encStr.simps)
  have b: "nodeToBytes ?col = Some (rawEnc H ?n)"
    using nodeToBytes_nodeEnc [of ?col] l(2) unfolding e small_def by simp
  define d where "d = (if length (rawEnc H ?n) < 32 \<and> p \<noteq> [] then ?col else HashN (digest H (rawEnc H ?n)))"
  have c: "rawEnc H (Short k v' g) = rawEnc H ?n" for g using same_shape(1) [OF k(1), of H] by (simp del: frame.simps)
  have st: "every (settled H) p (Short k v' (f\<lparr> nf_hash := hashOf d \<rparr>))"
    using k(3) unfolding every_simps settled_def c by (simp add: d_def hashOf_def)
  have "law H r p (Short k v' (f\<lparr> nf_hash := hashOf d \<rparr>))"
    using st l(1,3) unfolding law_def c by (auto simp: d_def hashOf_def)
  then have "hashes H r p ?n (d, Short k v' (f\<lparr> nf_hash := hashOf d \<rparr>))"
    using k st e by (simp add: hashes_def hashOf_def d_def del: rawEnc.simps)
  moreover have "shortnodeToHash H ?col (p = []) = Some d"
    by (simp add: shortnodeToHash_def b d_def hashData_def del: rawEnc.simps)
  ultimately show ?thesis by blast
qed

lemma hashes_Full:
  assumes k: "map strip cs' = map strip cs" "\<And>x. unat x < 17 \<Longrightarrow> every (law H r) (p @ [x]) (cs' ! unat x)"
      "\<And>x. unat x < 17 \<Longrightarrow> every (settled H) (p @ [x]) (cs' ! unat x)" "length cs' = 17"
    and enc: "map nodeEnc cols = map (refEnc H) cs" and l: "law H r p (Full cs f)" "small H p (Full cs f)" "nf_hash f = None"
  shows "\<exists>d. fullnodeToHash H (Full cols f) (p = []) = Some d \<and>
    hashes H r p (Full cs f) (d, Full cs' (f\<lparr> nf_hash := hashOf d \<rparr>))"
proof -
  let ?n = "Full cs f" and ?col = "Full cols f"
  have e: "nodeEnc ?col = rawEnc H ?n" by (simp add: enc del: frame.simps encStr.simps)
  have b: "nodeToBytes ?col = Some (rawEnc H ?n)"
    using nodeToBytes_nodeEnc [of ?col] l(2) unfolding e small_def by simp
  define d where "d = (if length (rawEnc H ?n) < 32 \<and> p \<noteq> [] then ?col else HashN (digest H (rawEnc H ?n)))"
  have c: "rawEnc H (Full cs' g) = rawEnc H ?n" for g
    using same_shape(2) [of "Full cs' g" ?n H] k(1) by simp
  have st: "every (settled H) p (Full cs' (f\<lparr> nf_hash := hashOf d \<rparr>))"
    using k(3,4) unfolding every_simps settled_def c by (simp add: d_def hashOf_def)
  have "law H r p (Full cs' (f\<lparr> nf_hash := hashOf d \<rparr>))"
    using st l(1,3) unfolding law_def c by (auto simp: d_def hashOf_def)
  then have "hashes H r p ?n (d, Full cs' (f\<lparr> nf_hash := hashOf d \<rparr>))"
    using k st e by (simp add: hashes_def hashOf_def d_def del: rawEnc.simps)
  moreover have "fullnodeToHash H ?col (p = []) = Some d"
    by (simp add: fullnodeToHash_def b d_def hashData_def del: rawEnc.simps)
  ultimately show ?thesis by blast
qed

lemma hashes_cached:
  assumes "inner n" "fst (cache n) = Some h" "every (law H r) p n"
  shows "hashes H r p n (HashN h, n)"
proof -
  have "law H r p n" using assms(1,3) by (cases n) simp_all
  then have "h = digest H (rawEnc H n)" "p \<noteq> [] \<longrightarrow> 32 \<le> length (rawEnc H n)" "every (settled H) p n"
    using assms(2) by (auto simp: law_def split: prod.splits)
  then show ?thesis using assms by (auto simp: hashes_def)
qed

lemma hashes_self: "\<not> inner n \<Longrightarrow> every (law H r) p n \<Longrightarrow> hashes H r p n (n, n)"
  by (cases n) (simp_all add: hashes_def settled_def del: encStr.simps)

lemma every_child:
  assumes "every Q p (Full cs f)" "j < 17"
  shows "every Q (p @ [word_of_nat j]) (cs ! j)"
proof -
  have "unat (word_of_nat j :: byte) = j" using assms(2) by (simp add: unat_of_nat)
  then show ?thesis using assms by (metis every_simps(5))
qed

lemma hash_kids_ok:
  assumes tok: "tok r p (Full cs f)" and ev: "every (law H r) p (Full cs f)"
    and IH: "\<And>j. j < 17 \<Longrightarrow>
      \<exists>res. hash_node H (cs ! j) False = Some res \<and> hashes H r (p @ [word_of_nat j]) (cs ! j) res"
  shows "\<exists>cols caches. hashFullNodeChildren H 0 cs = Some (cols, caches) \<and> length caches = 17 \<and>
    map strip caches = map strip cs \<and> map nodeEnc cols = map (refEnc H) cs \<and>
    (\<forall>x. unat x < 17 \<longrightarrow> every (law H r) (p @ [x]) (caches ! unat x) \<and> every (settled H) (p @ [x]) (caches ! unat x))"
proof -
  let ?w = "word_of_nat :: nat \<Rightarrow> byte"
  have len: "length cs = 17" using tok by (simp add: tok_simps)
  from IH have "\<And>j. j < length cs \<Longrightarrow> hash_node H (cs ! j) False \<noteq> None" using len by fastforce
  with hashFullNodeChildren_nth [of cs 0 H] obtain cols caches where
    h: "hashFullNodeChildren H 0 cs = Some (cols, caches)" "length cols = 17" "length caches = 17"
    "\<And>j. j < 17 \<Longrightarrow> if j < 16 \<and> cs ! j \<noteq> NilN then hash_node H (cs ! j) False = Some (cols ! j, caches ! j)
     else cols ! j = (if j < 16 then ValueN [] else cs ! j) \<and> caches ! j = cs ! j" using len by auto
  have at: "strip (caches ! j) = strip (cs ! j) \<and> every (law H r) (p @ [?w j]) (caches ! j) \<and>
      every (settled H) (p @ [?w j]) (caches ! j) \<and> nodeEnc (cols ! j) = refEnc H (cs ! j)" if "j < 17" for j
  proof (cases "j < 16 \<and> cs ! j \<noteq> NilN")
    case True
    then have "hash_node H (cs ! j) False = Some (cols ! j, caches ! j)" using h(4) [OF that] by simp
    then have "hashes H r (p @ [?w j]) (cs ! j) (cols ! j, caches ! j)" using IH [OF that] by simp
    then show ?thesis using hashes_enc [of H r "p @ [?w j]"] by (simp add: hashes_def)
  next
    case False
    then have c: "cols ! j = (if j < 16 then ValueN [] else cs ! j)" "caches ! j = cs ! j" using h(4) [OF that] by auto
    have "cs ! j = NilN \<or> (\<exists>v. cs ! j = ValueN v)" 
    proof (cases "j = 16")
      case True
      then show ?thesis using tok by (auto simp: tok_simps)
    qed (use False that in auto)
    then show ?thesis using c every_child [OF ev that] False by (auto simp: settled_def encStr_Nil simp del: encStr.simps)
  qed
  have "map strip caches = map strip cs" "map nodeEnc cols = map (refEnc H) cs"
    using at len h(2,3) by (auto intro!: nth_equalityI)
  moreover have "every (law H r) (p @ [x]) (caches ! unat x) \<and> every (settled H) (p @ [x]) (caches ! unat x)"
    if "unat x < 17" for x using at [OF that] by simp
  ultimately show ?thesis using h(1,3) by blast
qed

lemma hash_node_ok:
  "tok r p n \<or> \<not> inner n \<Longrightarrow> every (law H r) p n \<Longrightarrow> every (small H) p n \<Longrightarrow>
    \<exists>res. hash_node H n (p = []) = Some res \<and> hashes H r p n res"
proof (induction n arbitrary: p)
  case (Short k v f)
  show ?case
  proof (cases "nf_hash f")
    case (Some h)
    then show ?thesis using hashes_cached [of "Short k v f" h H r p] Short.prems(2) by simp
  next
    case None
    have tok: "tok r p (Short k v f)" using Short.prems(1) by simp
    then have p: "p @ k \<noteq> []" using tok_Short_ne [OF tok] by simp
    have "tok r (p @ k) v \<or> \<not> inner v" using tok by (elim tok_Short_cases) auto
    with Short.IH [of "p @ k"] Short.prems p obtain cv v' where
      h: "hash_node H v False = Some (cv, v')" "hashes H r (p @ k) v (cv, v')" by auto
    obtain key where "hexToCompact k = Some key" using hexToCompact_Some by blast
    with h(1) have c: "hashShortNodeChildren H k v f = Some (Short (the (hexToCompact k)) cv f, Short k v' f)"
      by (cases v) (auto simp del: hash_node.simps(1,2))
    have "strip v' = strip v" "every (law H r) (p @ k) v'" "every (settled H) (p @ k) v'"
      using h(2) by (simp_all add: hashes_def)
    from hashes_Short [OF this hashes_enc [OF h(2) p] _ _ None] Short.prems(2,3)
    obtain d where d: "shortnodeToHash H (Short (the (hexToCompact k)) cv f) (p = []) = Some d"
      "hashes H r p (Short k v f) (d, Short k v' (f\<lparr> nf_hash := hashOf d \<rparr>))" by auto
    have "hash_node H (Short k v f) (p = []) = Some (d, Short k v' (f\<lparr> nf_hash := hashOf d \<rparr>))"
      using c d(1) None by (simp del: hashShortNodeChildren.simps)
    then show ?thesis using d(2) by blast
  qed
next
  case (Full cs f)
  show ?case
  proof (cases "nf_hash f")
    case (Some h)
    then show ?thesis using hashes_cached [of "Full cs f" h H r p] Full.prems(2) by simp
  next
    case None
    have tok: "tok r p (Full cs f)" using Full.prems(1) by simp
    then have len: "length cs = 17" by (simp add: tok_simps)
    let ?w = "word_of_nat :: nat \<Rightarrow> byte"
    have u: "unat (?w j) = j" if "j < 17" for j using that by (simp add: unat_of_nat)
    have "\<exists>res. hash_node H (cs ! j) False = Some res \<and> hashes H r (p @ [?w j]) (cs ! j) res" if "j < 17" for j
    proof -
      have "tok r (p @ [?w j]) (cs ! j) \<or> \<not> inner (cs ! j)"
        using full_child_ok [OF tok that] by (cases "cs ! j") (auto simp: child_ok_def u [OF that])
      then show ?thesis
        using Full.IH [of "cs ! j" "p @ [?w j]"] every_child [OF Full.prems(2) that] every_child [OF Full.prems(3) that]
          len that by simp
    qed
    from hash_kids_ok [OF tok Full.prems(2) this] obtain cols caches where
      h: "hashFullNodeChildren H 0 cs = Some (cols, caches)" "length caches = 17"
      "map strip caches = map strip cs" "map nodeEnc cols = map (refEnc H) cs"
      "\<And>x. unat x < 17 \<Longrightarrow> every (law H r) (p @ [x]) (caches ! unat x)"
      "\<And>x. unat x < 17 \<Longrightarrow> every (settled H) (p @ [x]) (caches ! unat x)" by blast
    from hashes_Full [OF h(3,5,6,2,4) _ _ None] Full.prems(2,3)
    obtain d where "fullnodeToHash H (Full cols f) (p = []) = Some d"
      "hashes H r p (Full cs f) (d, Full caches (f\<lparr> nf_hash := hashOf d \<rparr>))" by auto
    then show ?thesis using h(1) None by simp
  qed
qed (use hashes_self in auto)

subsection \<open>Nodes from the database\<close>

lemma strip_reflag [simp]: "strip (reflag h n) = strip n"
  by (induction n arbitrary: h) simp_all

lemma reflag_inner [simp]: "inner (reflag h n) = inner n" "rawEnc H (reflag h n) = rawEnc H n"
  "refEnc H (reflag h n) = refEnc H n"
  using same_shape [OF strip_reflag] by blast+

lemma reflag_NilN [simp]: "reflag h n = NilN \<longleftrightarrow> n = NilN"
  by (cases n) simp_all

lemma seventeen:
  assumes "length cs = 17" "c \<in> set cs"
  shows "c \<in> set (take 16 cs) \<or> c = cs ! 16"
proof -
  have "cs = take 16 cs @ [cs ! 16]" using take_Suc_conv_app_nth [of 16 cs] assms(1) by simp
  then have "set cs = set (take 16 cs @ [cs ! 16])" by (rule arg_cong)
  then show ?thesis using assms(2) by auto
qed

lemma stored_enc:
  "stored m \<Longrightarrow> (inner m \<longrightarrow> rawEnc H m = nodeEnc (compactKeys m)) \<and>
    (isRef m \<or> \<not> inner m \<longrightarrow> refEnc H m = nodeEnc (compactKeys m))"
proof (induction m)
  case (Full cs f)
  have "refEnc H c = nodeEnc (compactKeys c)" if "c \<in> set cs" for c
  proof -
    have "isRef c \<or> \<not> inner c" using Full.prems seventeen [OF _ that] by (auto split: node.splits)
    then show ?thesis using Full.IH [OF that] Full.prems that by (auto simp: list_all_iff)
  qed
  then have "map (refEnc H) cs = map nodeEnc (map compactKeys cs)" by simp
  then have "rawEnc H (Full cs f) = nodeEnc (compactKeys (Full cs f))" by (simp only: rawEnc.simps nodeEnc.simps compactKeys.simps)
  then show ?case using refEnc_inner [of "Full cs f" H] by (simp add: hashRef_def del: rawEnc.simps refEnc.simps nodeEnc.simps)
next
  case (Short k v f)
  have "refEnc H v = nodeEnc (compactKeys v)" using Short by (cases v) auto
  then show ?case by (auto simp: hashRef_def simp del: frame.simps encStr.simps)
qed simp_all

lemma stored_small: "stored m \<Longrightarrow> inner m \<Longrightarrow> isRef m \<Longrightarrow> length (rawEnc H (reflag g m)) < 32"
  using stored_enc [of m H] unfolding reflag_inner by (cases m) (auto simp del: rawEnc.simps nodeEnc.simps compactKeys.simps)

fun kids :: "node \<Rightarrow> node set" where
  "kids (Full cs f) = set cs"
| "kids (Short k v f) = {v}"
| "kids n = {}"

lemma stored_hash_kid: "stored m \<Longrightarrow> HashN x \<in> kids m \<Longrightarrow> length x = 32"
proof (cases m)
  case (Full cs f)
  assume a: "stored m" "HashN x \<in> kids m"
  from a seventeen [of cs "HashN x"] Full show ?thesis by (fastforce split: node.splits)
qed auto

lemma reflag_every:
  assumes st: "stored m" "tok r p (reflag g m)" "inner m" and top: "L p (reflag g m)"
    and kid: "\<And>c q. c \<in> kids m \<Longrightarrow> stored c \<Longrightarrow> (inner c \<Longrightarrow> isRef c) \<Longrightarrow> (\<forall>v. c \<noteq> ValueN v) \<and> c \<noteq> NilN \<longrightarrow> tok r q (reflag None c) \<Longrightarrow>
      q \<noteq> [] \<Longrightarrow> every L q (reflag None c)"
  shows "every L p (reflag g m)"
proof (cases m)
  case (Short k v f)
  have "p @ k \<noteq> []" using tok_Short_ne st(2) by (auto simp: Short)
  moreover have "(\<forall>b. v \<noteq> ValueN b) \<and> v \<noteq> NilN \<longrightarrow> tok r (p @ k) (reflag None v)"
    using st(2) unfolding Short reflag.simps by (elim tok_Short_cases) (cases v; auto)+
  ultimately have "every L (p @ k) (reflag None v)"
    using kid [of v "p @ k"] st(1) by (cases v) (auto simp: Short)
  then show ?thesis using top by (simp add: Short)
next
  case (Full cs f)
  have len: "length cs = 17" using st(1) by (simp add: Full)
  have "every L (p @ [x]) (map (reflag None) cs ! unat x)" if x: "unat x < 17" for x
  proof -
    let ?c = "cs ! unat x"
    have c: "?c \<in> set cs" using len x by simp
    have s: "stored ?c" using st(1) c by (auto simp: Full list_all_iff)
    have "inner ?c \<Longrightarrow> isRef ?c" using st(1) seventeen [OF len c] by (auto simp: Full split: node.splits)
    moreover have "(\<forall>v. ?c \<noteq> ValueN v) \<and> ?c \<noteq> NilN \<longrightarrow> tok r (p @ [x]) (reflag None ?c)"
    proof (cases "x < 16")
      case True
      then have "map (reflag None) cs ! unat x = NilN \<or> tok r (p @ [x]) (map (reflag None) cs ! unat x)"
        using st(2) by (simp add: Full tok_simps)
      then show ?thesis using len x by auto
    next
      case False
      then have "unat x = 16" using x by (simp add: word_less_nat_alt)
      then show ?thesis using st(1) by (auto simp: Full split: node.splits)
    qed
    ultimately show ?thesis using kid [of ?c "p @ [x]"] s c len x by (simp add: Full)
  qed
  then show ?thesis using top len by (simp add: Full)
qed (use st in auto)

lemma embedded_every:
  assumes "stored m" "inner m \<Longrightarrow> isRef m" "(\<forall>v. m \<noteq> ValueN v) \<and> m \<noteq> NilN \<longrightarrow> tok r p (reflag None m)" "p \<noteq> []"
    and "\<And>h. m = HashN h \<Longrightarrow> length h = 32" "sound H r"
  shows "every (law H r) p (reflag None m) \<and> every (settled H) p (reflag None m)"
  using assms
proof (induction m arbitrary: p)
  case (Full cs f)
  have e: "length (rawEnc H (reflag None (Full cs f))) < 32"
    using Full.prems(1,2) by (intro stored_small) simp_all
  have "every L p (reflag None (Full cs f))" if "L = law H r \<or> L = settled H" for L
  proof (rule reflag_every [OF Full.prems(1)])
    show "L p (reflag None (Full cs f))" using that e Full.prems(4) by (auto simp: law_def settled_def simp del: rawEnc.simps)
    fix c q assume c: "c \<in> kids (Full cs f)" "stored c" "inner c \<Longrightarrow> isRef c"
      "(\<forall>v. c \<noteq> ValueN v) \<and> c \<noteq> NilN \<longrightarrow> tok r q (reflag None c)" "q \<noteq> []"
    have "length h = 32" if "c = HashN h" for h
      using stored_hash_kid [OF Full.prems(1)] c(1) that by blast
    then show "every L q (reflag None c)" using Full.IH [of c q] c that Full.prems(6) by auto
  qed (use Full.prems in auto)
  then show ?case by blast
next
  case (Short k v f)
  have e: "length (rawEnc H (reflag None (Short k v f))) < 32"
    using Short.prems(1,2) by (intro stored_small) simp_all
  have "every L p (reflag None (Short k v f))" if "L = law H r \<or> L = settled H" for L
  proof (rule reflag_every [OF Short.prems(1)])
    show "L p (reflag None (Short k v f))" using that e Short.prems(4) by (auto simp: law_def settled_def simp del: rawEnc.simps)
    fix c q assume c: "c \<in> kids (Short k v f)" "stored c" "inner c \<Longrightarrow> isRef c"
      "(\<forall>v. c \<noteq> ValueN v) \<and> c \<noteq> NilN \<longrightarrow> tok r q (reflag None c)" "q \<noteq> []"
    have "length h = 32" if "c = HashN h" for h using stored_hash_kid [OF Short.prems(1)] c(1) that by blast
    then show "every L q (reflag None c)" using Short.IH [of q] c that Short.prems(6) by auto
  qed (use Short.prems in auto)
  then show ?case by blast
qed (auto simp: law_def settled_def)

lemma sound_resolves:
  assumes "sound H r" "length h = 32" "resolves r h p n"
  shows "\<exists>m. n = reflag (Some h) m \<and> stored m \<and> inner m \<and> h = digest H (rawEnc H m) \<and> (p \<noteq> [] \<longrightarrow> 32 \<le> length (rawEnc H m))"
proof -
  from assms(3) obtain blob where b: "reader_node r p (BytesToHash h) = Inr blob" "decodeNode (Some h) blob = Some (Inr n)"
    by (auto simp: resolves_def)
  with assms(1) obtain m where m: "stored m" "inner m" "blob = nodeEnc (compactKeys m)" "length blob < 2 ^ 63"
    "BytesToHash h = BytesToHash (digest H blob)" "p \<noteq> [] \<longrightarrow> 32 \<le> length blob" unfolding sound_def by blast
  have e: "rawEnc H m = blob" using stored_enc [OF m(1), of H] m(2,3) by simp
  have "Hash_Bytes (BytesToHash h) = Hash_Bytes (BytesToHash (digest H blob))" using m(5) by simp
  then have "h = digest H blob" unfolding Hash_Bytes_BytesToHash using assms(2) by simp
  moreover have "n = reflag (Some h) m"
    using decode_stored_node [OF m(1) _ _ m(4) [unfolded m(3)], of "Some h"] m(2,3) b(2) by (cases m) auto
  ultimately show ?thesis using m e by auto
qed

lemma resolved_law:
  assumes s: "sound H r" and h: "length h = 32" "tok r p (HashN h)" and n: "resolves r h p n"
  shows "every (law H r) p n \<and> every (settled H) p n \<and> inner n \<and> h = digest H (rawEnc H n) \<and>
    (p \<noteq> [] \<longrightarrow> refEnc H n = encStr h)"
proof -
  obtain m where m: "n = reflag (Some h) m" "stored m" "inner m" "h = digest H (rawEnc H m)" "p \<noteq> [] \<longrightarrow> 32 \<le> length (rawEnc H m)"
    using sound_resolves [OF s h(1) n] by blast
  have tok: "tok r p n" using h(2) n by (auto simp: tok_simps dest: resolves_unique)
  have kid: "every (law H r) q (reflag None c) \<and> every (settled H) q (reflag None c)"
    if "c \<in> kids m" "stored c" "inner c \<Longrightarrow> isRef c" "(\<forall>v. c \<noteq> ValueN v) \<and> c \<noteq> NilN \<longrightarrow> tok r q (reflag None c)" "q \<noteq> []" for c q
    using that stored_hash_kid [OF m(2)] s by (intro embedded_every) auto
  have st: "every (settled H) p n" unfolding m(1)
  proof (rule reflag_every [OF m(2) tok [unfolded m(1)] m(3)])
    show "settled H p (reflag (Some h) m)" using m(3) by (cases m) (simp_all add: settled_def)
  qed (use kid in blast)
  moreover have "every (law H r) p n" unfolding m(1)
  proof (rule reflag_every [OF m(2) tok [unfolded m(1)] m(3)])
    have "cache n = (Some h, False)" using m(1,3) by (cases m) simp_all
    moreover have "same_content r p n (HashN h)" using n by (auto simp: same_content_def dest: resolves_unique)
    moreover have "rawEnc H n = rawEnc H m" "inner n" using m(1,3) by simp_all
    ultimately have "law H r p n" using m(4,5) st h(2) unfolding law_def by auto
    then show "law H r p (reflag (Some h) m)" by (simp only: m(1))
  qed (use kid in blast)
  moreover have "p \<noteq> [] \<longrightarrow> refEnc H n = encStr h" using m refEnc_inner [of n H] by (auto simp: hashRef_def)
  ultimately show ?thesis using m by simp
qed

text \<open>A node and the same node with more of it loaded.\<close>

definition loaded_as :: "keccak \<Rightarrow> trieReader \<Rightarrow> byte list \<Rightarrow> node \<Rightarrow> node \<Rightarrow> bool" where
  "loaded_as H r p n n' \<longleftrightarrow> refEnc H n = refEnc H n' \<and> same_content r p n n' \<and>
     (every (settled H) p n \<longrightarrow> every (settled H) p n')"

lemma loaded_refl: "loaded_as H r p n n"
  by (simp add: loaded_as_def same_content_def)

lemma loaded_trans: "loaded_as H r p n n' \<Longrightarrow> loaded_as H r p n' n'' \<Longrightarrow> loaded_as H r p n n''"
  by (simp add: loaded_as_def same_content_def)

lemma law_fresh [simp]:
  "law H r p (Full cs newFlag)" "law H r p (Short k c newFlag)" "law H r p NilN" "law H r p (ValueN v)"
  by (simp_all add: law_def newFlag_def)

lemma law_reload:
  assumes "law H r p n" "cache n' = cache n" "rawEnc H n' = rawEnc H n" "same_content r p n n'"
    "every (settled H) p n \<longrightarrow> every (settled H) p n'" "inner n'"
  shows "law H r p n'"
proof -
  have "n' \<noteq> HashN h" for h using assms(6) by auto
  moreover have "same_content r p n' m" if "same_content r p n m" for m
    using that assms(4) by (simp add: same_content_def)
  ultimately show ?thesis using assms(1-3,5) unfolding law_def
    by (cases "cache n") (auto split: option.splits)
qed

lemma loaded_Short:
  assumes "loaded_as H r (p @ k) c c'"
  shows "loaded_as H r p (Short k c f) (Short k c' f) \<and> (law H r p (Short k c f) \<longrightarrow> law H r p (Short k c' f))"
proof -
  have e: "rawEnc H (Short k c' f) = rawEnc H (Short k c f)" using assms by (simp add: loaded_as_def del: frame.simps encStr.simps)
  have s: "same_content r p (Short k c f) (Short k c' f)" using assms by (auto simp: loaded_as_def same_content_def)
  have d: "every (settled H) p (Short k c f) \<longrightarrow> every (settled H) p (Short k c' f)"
    using assms e by (auto simp: loaded_as_def settled_def simp del: rawEnc.simps)
  show ?thesis using law_reload [OF _ _ e s d] e s d refEnc_inner [of "Short k c f" H] refEnc_inner [of "Short k c' f" H]
    by (simp add: loaded_as_def del: refEnc.simps rawEnc.simps)
qed

lemma loaded_Full:
  assumes "length cs = 17" "unat x < 17" "loaded_as H r (p @ [x]) (cs ! unat x) c"
  shows "loaded_as H r p (Full cs f) (Full (cs[unat x := c]) f) \<and>
    (law H r p (Full cs f) \<longrightarrow> law H r p (Full (cs[unat x := c]) f))"
proof -
  let ?cs = "cs[unat x := c]"
  have "map (refEnc H) ?cs = map (refEnc H) cs"
    using assms by (simp add: map_update loaded_as_def list_update_same_conv)
  then have e: "rawEnc H (Full ?cs f) = rawEnc H (Full cs f)" by (simp only: rawEnc.simps)
  have same: "entry r (p @ [x]) c k v \<longleftrightarrow> entry r (p @ [x]) (cs ! unat x) k v" for k v
    using assms(3) by (simp add: loaded_as_def same_content_def)
  have s: "same_content r p (Full cs f) (Full ?cs f)"
    unfolding same_content_def
  proof (intro allI)
    fix k v
    show "entry r p (Full cs f) k v \<longleftrightarrow> entry r p (Full ?cs f) k v"
      using assms(1,2) same by (cases k) (auto simp: nth_list_update nib_unat_eq)
  qed
  have d: "every (settled H) p (Full cs f) \<longrightarrow> every (settled H) p (Full ?cs f)"
  proof
    assume a: "every (settled H) p (Full cs f)"
    have "every (settled H) (p @ [y]) (?cs ! unat y)" if "unat y < 17" for y
      using a assms that by (cases "y = x") (simp_all add: loaded_as_def nth_list_update nib_unat_eq)
    moreover have "settled H p (Full ?cs f)" using a e by (simp add: settled_def del: rawEnc.simps)
    ultimately show "every (settled H) p (Full ?cs f)" using assms(1) by simp
  qed
  show ?thesis using law_reload [OF _ _ e s d] e s d refEnc_inner [of "Full cs f" H] refEnc_inner [of "Full ?cs f" H]
    by (simp add: loaded_as_def del: refEnc.simps rawEnc.simps)
qed

lemma law_resolved:
  assumes "law H r p (HashN h)" "resolves r h p n"
  shows "every (law H r) p n \<and> loaded_as H r p (HashN h) n"
proof -
  have h: "p \<noteq> []" "length h = 32" "tok r p (HashN h)" "sound H r" using assms(1) by (simp_all add: law_def)
  have "same_content r p (HashN h) n" using assms(2) by (auto simp: same_content_def dest: resolves_unique)
  then show ?thesis using resolved_law [OF h(4,2,3) assms(2)] h(1) by (simp add: loaded_as_def)
qed

lemma caches_law: "node_law r (law H r) (loaded_as H r)"
  apply unfold_locales
  apply (rule law_fresh)+
  apply (erule law_resolved, assumption)
  apply (rule loaded_refl)
  apply (erule loaded_trans, assumption)
  apply (erule loaded_Short)
  apply (rule loaded_Full; assumption)
  done

interpretation caches: node_law r "law H r" "loaded_as H r" for r H
  by (rule caches_law)

end
