(* ===== verification/Trie_Root.thy ===== *)
theory Trie_Root
  imports Trie_Hash
begin

text \<open>
  What the root hash of a trie says about its content: it is a function of the entries alone,
  whatever updates, lookups and rehashings led to the trie and however much of it is loaded; and
  equal root hashes mean equal content unless the hash function has a collision.
\<close>

subsection \<open>The root hash is a function of the content\<close>

text \<open>A node with everything below it loaded: same content, same encoding.\<close>

definition expands :: "keccak \<Rightarrow> trieReader \<Rightarrow> byte list \<Rightarrow> node \<Rightarrow> node \<Rightarrow> bool" where
  "expands H r p n m \<longleftrightarrow> loaded m \<and> tok r p m \<and> same_content r p n m \<and> refEnc H m = refEnc H n \<and>
     (inner n \<longrightarrow> inner m \<and> rawEnc H m = rawEnc H n) \<and> (isFull r p n \<longrightarrow> (\<exists>cs f. m = Full cs f))"

lemma expands_Short:
  assumes "expands H r (p @ k) c m" "isFull r (p @ k) c" "nibs k" "k \<noteq> []"
  shows "expands H r p (Short k c f) (Short k m f)"
  using assms unfolding expands_def
  by (auto simp: same_content_def isFull_def simp del: frame.simps encStr.simps intro!: tok.tk_ext)

lemma expands_Full:
  assumes tok: "tok r p (Full cs f)" and len: "length ms = 17"
    and ms: "\<And>x. x < 16 \<Longrightarrow> cs ! unat x \<noteq> NilN \<Longrightarrow> expands H r (p @ [x]) (cs ! unat x) (ms ! unat x)"
    and nil: "\<And>i. i < 17 \<Longrightarrow> cs ! i = NilN \<or> i = 16 \<Longrightarrow> ms ! i = cs ! i"
  shows "expands H r p (Full cs f) (Full ms f)"
proof -
  have l: "length cs = 17" using tok by (simp add: tok_simps)
  have at: "(cs ! unat x \<noteq> NilN \<and> x < 16 \<and> expands H r (p @ [x]) (cs ! unat x) (ms ! unat x)) \<or>
      (ms ! unat x = cs ! unat x \<and> loaded (ms ! unat x))" if "unat x < 17" for x
  proof (cases "x < 16")
    case True
    then show ?thesis using ms [OF True] nil [OF that] by (cases "cs ! unat x = NilN") simp_all
  next
    case False
    then have "unat x = 16" using that by (simp add: word_less_nat_alt)
    then show ?thesis using nil [of 16] tok by (auto simp: tok_simps)
  qed
  have w: "\<exists>x :: byte. unat x = i" if "i < 17" for i
    using that by (intro exI [of _ "word_of_nat i :: byte"]) (simp add: unat_of_nat)
  have "loaded (ms ! i) \<and> refEnc H (ms ! i) = refEnc H (cs ! i) \<and> (ms ! i = NilN \<longleftrightarrow> cs ! i = NilN)" if i: "i < 17" for i
  proof -
    obtain x :: byte where x: "unat x = i" using w [OF i] by blast
    show ?thesis using at [of x] i unfolding x by (auto simp: expands_def)
  qed
  then have loads: "list_all loaded ms" "map (refEnc H) ms = map (refEnc H) cs" "\<And>i. i < 17 \<Longrightarrow> ms ! i = NilN \<longleftrightarrow> cs ! i = NilN"
    using l len by (auto simp: list_all_length intro!: nth_equalityI)
  have same: "same_content r p (Full cs f) (Full ms f)"
    unfolding same_content_def
  proof (intro allI)
    fix k v
    show "entry r p (Full cs f) k v \<longleftrightarrow> entry r p (Full ms f) k v"
    proof (cases k)
      case (Cons x k')
      show ?thesis using at [of x] l len by (auto simp: Cons expands_def same_content_def)
    qed simp
  qed
  have "tok r p (Full ms f)"
  proof (rule tk_full [OF len])
    fix x :: byte assume "x < 16"
    then show "ms ! unat x = NilN \<or> tok r (p @ [x]) (ms ! unat x)"
      using ms nil [of "unat x"] by (auto simp: expands_def word_less_nat_alt)
  next
    show "ms ! 16 = NilN \<or> (\<exists>v. ms ! 16 = ValueN v \<and> v \<noteq> [])" using nil [of 16] tok by (simp add: tok_simps)
    show "\<exists>i j. i < j \<and> j < 17 \<and> ms ! i \<noteq> NilN \<and> ms ! j \<noteq> NilN"
      using tok loads(3) unfolding tok_simps by (metis less_trans)
  qed
  then show ?thesis using loads(1,2) same unfolding expands_def by (simp del: frame.simps)
qed

lemma expand: "tok r p n \<Longrightarrow> every (law H r) p n \<Longrightarrow> \<exists>m. expands H r p n m"
proof (induction rule: tok.induct)
  case (tk_leaf k v p f)
  then have "expands H r p (Short (k @ [16]) (ValueN v) f) (Short (k @ [16]) (ValueN v) f)"
    by (auto simp: expands_def same_content_def isFull_def intro: tok.tk_leaf)
  then show ?case by blast
next
  case (tk_ext k p c f)
  then show ?case using expands_Short by fastforce
next
  case (tk_full cs p f)
  have tok: "tok r p (Full cs f)" using tk_full by (intro tok.tk_full) auto
  have "\<forall>i. \<exists>m. if i < 16 \<and> cs ! i \<noteq> NilN then expands H r (p @ [word_of_nat i]) (cs ! i) m else m = cs ! i"
  proof
    fix i
    show "\<exists>m. if i < 16 \<and> cs ! i \<noteq> NilN then expands H r (p @ [word_of_nat i]) (cs ! i) m else m = cs ! i"
    proof (cases "i < 16 \<and> cs ! i \<noteq> NilN")
      case True
      then have u: "unat (word_of_nat i :: byte) = i" "(word_of_nat i :: byte) < 16"
        by (simp_all add: unat_of_nat word_less_nat_alt)
      show ?thesis using tk_full.IH [OF u(2)] every_child [OF tk_full.prems, of i] True by (simp add: u(1))
    qed auto
  qed
  then obtain g where g: "\<And>i. if i < 16 \<and> cs ! i \<noteq> NilN then expands H r (p @ [word_of_nat i]) (cs ! i) (g i) else g i = cs ! i"
    by metis
  have "expands H r p (Full cs f) (Full (map g [0..<17]) f)"
  proof (rule expands_Full [OF tok])
    fix x :: byte assume x: "x < 16" "cs ! unat x \<noteq> NilN"
    then have "unat x < 16" by (simp add: word_less_nat_alt)
    then show "expands H r (p @ [x]) (cs ! unat x) (map g [0..<17] ! unat x)" using g [of "unat x"] x by simp
  next
    fix i :: nat assume "i < 17" "cs ! i = NilN \<or> i = 16"
    then show "map g [0..<17] ! i = cs ! i" using g [of i] by auto
  qed simp
  then show ?case by blast
next
  case (tk_hash h p n)
  then have l: "every (law H r) p n" "refEnc H n = encStr h" "same_content r p (HashN h) n"
    using law_resolved [of H r p h n] by (auto simp: loaded_as_def)
  from tk_hash.IH [OF l(1)] obtain m where "expands H r p n m" by blast
  then have "expands H r p (HashN h) m"
    using l tk_hash.hyps by (auto simp: expands_def same_content_def isFull_resolved)
  then show ?case by blast
qed

lemma same_entries_same_enc:
  assumes "tok r p n" "every (law H r) p n" "inner n" "tok r' p' n'" "every (law H r') p' n'" "inner n'"
    "agree r p n r' p' n'"
  shows "rawEnc H n = rawEnc H n'"
proof -
  obtain m where m: "expands H r p n m" using expand assms(1,2) by blast
  obtain m' where m': "expands H r' p' n' m'" using expand assms(4,5) by blast
  have "agree r p m r' p' m'" using m m' assms(7) by (simp add: expands_def same_content_def agree_def)
  then have "strip m = strip m'" using m m' by (intro strip_unique) (simp_all add: expands_def)
  then have "rawEnc H m = rawEnc H m'" by (rule same_shape)
  then show ?thesis using m m' assms(3,6) by (simp add: expands_def)
qed

text \<open>
  The invariant of a trie in use: well formed, with the keys of byte strings, its caches right, and
  its root loaded.
\<close>

definition trie_inv :: "keccak \<Rightarrow> Trie \<Rightarrow> bool" where
  "trie_inv H t \<longleftrightarrow> trie_ok t \<and> keyed t \<and> every (law H (reader t)) [] (root t)"

text \<open>The encodings of all nodes in memory fit into a Go slice.\<close>

definition sized :: "keccak \<Rightarrow> Trie \<Rightarrow> bool" where
  "sized H t \<longleftrightarrow> every (small H) [] (root t)"

text \<open>The hash of a trie as a function of its root node.\<close>

definition rootHash :: "keccak \<Rightarrow> node \<Rightarrow> hash" where
  "rootHash H n = (if n = NilN then EmptyRootHash else BytesToHash (digest H (rawEnc H n)))"

lemma trie_inv_root: "trie_inv H t \<Longrightarrow> root t \<noteq> NilN \<Longrightarrow> inner (root t) \<and> tok (reader t) [] (root t)"
  by (cases "root t") (auto simp: trie_inv_def trie_ok_def law_def)

lemma tlookup_cong: "trie_ok t \<Longrightarrow> trie_ok u \<Longrightarrow> (\<And>k w. holds u k w \<longleftrightarrow> holds t k w) \<Longrightarrow> tlookup u = tlookup t"
  by (intro ext tlookup_eq_iff) auto

lemma trie_Hash_ok:
  assumes "trie_inv H t" "sized H t"
  shows "\<exists>u. trie_Hash H t = Some (rootHash H (root t), u) \<and> trie_inv H u \<and> tlookup u = tlookup t \<and>
    strip (root u) = strip (root t) \<and> every (settled H) [] (root u) \<and> reader u = reader t \<and> trace u = trace t \<and>
    owner u = owner t \<and> committed u = committed t"
proof (cases "root t = NilN")
  case True
  then have "trie_Hash H t = Some (EmptyRootHash, t\<lparr> root := NilN \<rparr>)" by (simp add: trie_Hash_def hashRoot_def)
  moreover have "t\<lparr> root := NilN \<rparr> = t" using True by simp
  ultimately show ?thesis using assms True by (simp add: rootHash_def settled_def)
next
  case False
  note r = trie_inv_root [OF assms(1) False]
  have "every (law H (reader t)) [] (root t)" "every (small H) [] (root t)" using assms by (simp_all add: trie_inv_def sized_def)
  from hash_node_ok [OF _ this] r obtain d c where
    h: "hash_node H (root t) True = Some (d, c)" "hashes H (reader t) [] (root t) (d, c)" by auto
  have d: "d = HashN (digest H (rawEnc H (root t)))" using h(2) r by (simp add: hashes_def)
  have c: "strip c = strip (root t)" "every (law H (reader t)) [] c" "every (settled H) [] c" using h(2) by (simp_all add: hashes_def)
  let ?u = "t\<lparr> unhashed := 0, root := c \<rparr>"
  have "trie_Hash H t = Some (rootHash H (root t), ?u)"
    using h(1) d False by (simp add: trie_Hash_def hashRoot_def rootHash_def)
  moreover have ok: "trie_ok ?u" using assms(1) same_shape(3) [OF c(1)] r by (simp add: trie_inv_def trie_ok_def)
  moreover have "keyed ?u" using assms(1) same_shape(4) [OF c(1)] by (simp add: trie_inv_def keyed_def)
  moreover have "tlookup ?u = tlookup t"
    using ok assms(1) same_shape(4) [OF c(1)] by (intro tlookup_cong) (simp_all add: trie_inv_def holds_def)
  ultimately show ?thesis using c by (auto simp: trie_inv_def)
qed

lemma rootHash_content:
  assumes "trie_inv H t" "trie_inv H t'" "tlookup t = tlookup t'"
  shows "rootHash H (root t) = rootHash H (root t')"
proof -
  have ok: "trie_ok t" "trie_ok t'" "keyed t" "keyed t'" using assms(1,2) by (simp_all add: trie_inv_def)
  have "holds t k v \<longleftrightarrow> holds t' k v" for k v using tlookup_iff [OF ok(1)] tlookup_iff [OF ok(2)] assms(3) by simp
  then have ag: "agree (reader t) [] (root t) (reader t') [] (root t')"
    using ok(3,4) unfolding agree_def keyed_def holds_def by blast
  have nil: "root t = NilN \<longleftrightarrow> root t' = NilN"
    using ag trie_inv_root [OF assms(1)] trie_inv_root [OF assms(2)] tok_has_entry unfolding agree_def
    by (metis entry_simps(1))
  show ?thesis
  proof (cases "root t = NilN")
    case False
    then have "rawEnc H (root t) = rawEnc H (root t')"
      using same_entries_same_enc [OF _ _ _ _ _ _ ag] trie_inv_root assms nil by (simp add: trie_inv_def)
    then show ?thesis using False nil by (simp add: rootHash_def)
  qed (use nil in \<open>simp add: rootHash_def\<close>)
qed

subsection \<open>The root hash binds the content\<close>

declare encStr.simps [simp del] frame.simps [simp del]

text \<open>Concatenated RLP values fall apart in one way only.\<close>

definition framed :: "byte list \<Rightarrow> bool" where
  "framed b \<longleftrightarrow> (\<exists>k c. b = frame k c \<and> frame_ok k c)"

lemma frame_inject:
  assumes "frame k c @ u = frame k' c' @ v" "frame_ok k c" "frame_ok k' c'" "length (frame k c @ u) < 2 ^ 64"
  shows "k = k' \<and> c = c' \<and> u = v"
  using Split_frame [OF assms(4,2)] Split_frame [of k' c' v] assms(1,3,4) by simp

lemma framed_append:
  assumes "framed a" "framed b" "a @ u = b @ v" "length (a @ u) < 2 ^ 64"
  shows "a = b \<and> u = v"
  using assms frame_inject unfolding framed_def by metis

lemma frame_List_inject: "frame List a = frame List b \<Longrightarrow> length (frame List a) < 2 ^ 63 \<Longrightarrow> a = b"
  using frame_inject [of List a "[]" List b "[]"] by fastforce

lemma framed_ne: "framed b \<Longrightarrow> b \<noteq> []"
  using frame_nonempty by (auto simp: framed_def)

lemma framed_concat:
  "list_all framed xs \<Longrightarrow> list_all framed ys \<Longrightarrow> concat xs = concat ys \<Longrightarrow> length (concat xs) < 2 ^ 64 \<Longrightarrow> xs = ys"
proof (induction xs arbitrary: ys)
  case Nil
  then show ?case using framed_ne by (cases ys) auto
next
  case (Cons x xs)
  then obtain y ys' where ys: "ys = y # ys'" using framed_ne by (cases ys) auto
  have "x = y \<and> concat xs = concat ys'" using Cons.prems framed_append [of x y] by (simp add: ys)
  then show ?case using Cons.IH [of ys'] Cons.prems by (simp add: ys)
qed

lemma framed_encStr: "framed (encStr c)"
  using encStr_is_frame [of c] by (auto simp: framed_def)

lemma framed_refEnc: "framed (refEnc H n)"
proof -
  have "framed (hashRef H (frame List c))" for c
    using framed_encStr [of "digest H (frame List c)"] unfolding hashRef_def framed_def
    by (metis frame_ok.simps(3))
  moreover have "framed [0x80]" unfolding encStr_Nil [symmetric] by (rule framed_encStr)
  ultimately show ?thesis using framed_encStr by (cases n) simp_all
qed

lemma encStr_inject:
  assumes "encStr a = encStr b" "length (encStr a) < 2 ^ 64"
  shows "a = b"
  using SplitString_encStr [of a "[]"] SplitString_encStr [of b "[]"] assms by simp

lemma encStr_not_list:
  assumes "length (frame List c) < 2 ^ 64"
  shows "encStr a \<noteq> frame List c"
proof
  assume e: "encStr a = frame List c"
  obtain k where "k \<noteq> List" "encStr a = frame k a" "frame_ok k a" using encStr_is_frame by blast
  then show False using frame_inject [of k a "[]" List c "[]"] e assms by simp
qed

lemma compact_inject:
  assumes "nibs k \<or> hexkey k" "nibs k' \<or> hexkey k'" "the (hexToCompact k) = the (hexToCompact k')"
  shows "k = k'"
proof -
  have c: "compactToHex (the (hexToCompact h)) = h" if h: "nibs h \<or> hexkey h" for h
  proof -
    have "\<exists>t j. h = key_of t j \<and> nibs j"
    proof (cases "nibs h")
      case True
      then show ?thesis by (intro exI [of _ False] exI [of _ h]) (simp add: key_of_def)
    next
      case False
      then obtain j where "nibs j" "h = j @ [16]" using h by (auto simp: hexkey_def)
      then show ?thesis by (intro exI [of _ True] exI [of _ j]) (simp add: key_of_def)
    qed
    then obtain t j where "h = key_of t j" "nibs j" by blast
    then show ?thesis using compact_of_inverse hexToCompact_key_of [of t j] nibs_no_term by simp
  qed
  have "compactToHex (the (hexToCompact k)) = compactToHex (the (hexToCompact k'))" using assms(3) by (rule arg_cong)
  then show ?thesis unfolding c [OF assms(1)] c [OF assms(2)] .
qed

text \<open>The encodings that are hashed or embedded below a node, and hash functions without a
  collision between two sets of them.\<close>

fun encs :: "keccak \<Rightarrow> node \<Rightarrow> byte list set" where
  "encs H (Full cs f) = insert (rawEnc H (Full cs f)) (\<Union>c\<in>set cs. encs H c)"
| "encs H (Short k c f) = insert (rawEnc H (Short k c f)) (encs H c)"
| "encs H n = {}"

definition no_collision :: "keccak \<Rightarrow> byte list set \<Rightarrow> byte list set \<Rightarrow> bool" where
  "no_collision H A B \<longleftrightarrow> (\<forall>a\<in>A. \<forall>b\<in>B. digest H a = digest H b \<longrightarrow> a = b)"

lemma no_collision_mono: "no_collision H A B \<Longrightarrow> A' \<subseteq> A \<Longrightarrow> B' \<subseteq> B \<Longrightarrow> no_collision H A' B'"
  by (auto simp: no_collision_def)

lemma encs_self: "inner n \<Longrightarrow> rawEnc H n \<in> encs H n"
  by (cases n) (simp_all del: rawEnc.simps)

lemma rawEnc_list: "inner n \<Longrightarrow> \<exists>c. rawEnc H n = frame List c"
  by (cases n) auto

lemma length_encStr_digest: "length (encStr (digest H a)) < 2 ^ 64"
  by (simp add: encStr.simps puthead_def)

lemma digest_not_raw:
  assumes "inner n" "length (rawEnc H n) < 2 ^ 63"
  shows "encStr a \<noteq> rawEnc H n"
proof -
  obtain c where "rawEnc H n = frame List c" using rawEnc_list assms(1) by blast
  then show ?thesis using encStr_not_list [of c] assms(2) by simp
qed

lemma refEnc_raw:
  assumes "refEnc H n = refEnc H n'" "inner n" "inner n'" "length (rawEnc H n) < 2 ^ 63" "length (rawEnc H n') < 2 ^ 63"
    "no_collision H (encs H n) (encs H n')"
  shows "rawEnc H n = rawEnc H n'"
proof -
  have "hashRef H (rawEnc H n) = hashRef H (rawEnc H n')" using assms(1-3) by (simp add: refEnc_inner)
  then consider "rawEnc H n = rawEnc H n'" | "encStr (digest H (rawEnc H n)) = encStr (digest H (rawEnc H n'))"
    using digest_not_raw [OF assms(2,4), of "digest H (rawEnc H n')"] digest_not_raw [OF assms(3,5), of "digest H (rawEnc H n)"]
    by (auto simp: hashRef_def split: if_splits)
  then show ?thesis
  proof cases
    case 2
    then have "digest H (rawEnc H n) = digest H (rawEnc H n')" by (rule encStr_inject) (rule length_encStr_digest)
    then show ?thesis
      using assms(6) encs_self [OF assms(2), of H] encs_self [OF assms(3), of H] by (auto simp: no_collision_def)
  qed
qed

lemma refEnc_NilN:
  assumes "refEnc H n = [0x80]" "inner n" "length (rawEnc H n) < 2 ^ 63"
  shows False
proof -
  obtain c where c: "rawEnc H n = frame List c" using rawEnc_list [OF assms(2)] by blast
  have "hashRef H (rawEnc H n) = encStr []" using assms(1,2) by (simp add: refEnc_inner encStr_Nil)
  then have "encStr [] = frame List c \<or> encStr [] = encStr (digest H (frame List c))"
    unfolding hashRef_def c by (metis (full_types))
  moreover have "encStr [] \<noteq> frame List c" using assms(3) by (intro encStr_not_list) (simp add: c)
  ultimately have "encStr (digest H (frame List c)) = encStr []" by metis
  then have "digest H (frame List c) = []" by (rule encStr_inject) (rule length_encStr_digest)
  then show False by (simp add: digest_def)
qed

lemma tok_loaded_inner: "tok r p n \<Longrightarrow> loaded n \<Longrightarrow> inner n"
  by (cases n) simp_all

lemma refEnc_value_inject:
  assumes "refEnc H c = refEnc H c'" "length (refEnc H c) < 2 ^ 64"
    and v: "c = NilN \<or> (\<exists>v. c = ValueN v \<and> v \<noteq> [])" "c' = NilN \<or> (\<exists>v. c' = ValueN v \<and> v \<noteq> [])"
  shows "c = c'"
proof -
  have w: "\<exists>w. refEnc H x = encStr w \<and> x = (if w = [] then NilN else ValueN w)"
    if "x = NilN \<or> (\<exists>v. x = ValueN v \<and> v \<noteq> [])" for x
    using that
  proof
    assume "x = NilN"
    then show ?thesis by (intro exI [of _ "[]"]) (simp add: encStr_Nil)
  next
    assume "\<exists>v. x = ValueN v \<and> v \<noteq> []"
    then obtain v where "x = ValueN v" "v \<noteq> []" by blast
    then show ?thesis by (intro exI [of _ v]) simp
  qed
  obtain a where a: "refEnc H c = encStr a" "c = (if a = [] then NilN else ValueN a)" using w [OF v(1)] by blast
  obtain b where b: "refEnc H c' = encStr b" "c' = (if b = [] then NilN else ValueN b)" using w [OF v(2)] by blast
  have "a = b" using assms(1,2) unfolding a(1) b(1) by (rule encStr_inject)
  then show ?thesis using a(2) b(2) by (simp only:)
qed

text \<open>One level: equal encodings have equal keys and children that are encoded alike.\<close>

lemma rawEnc_Short_inject:
  assumes "rawEnc H (Short k c f) = rawEnc H (Short k' c' f')" "nibs k \<or> hexkey k" "nibs k' \<or> hexkey k'"
    "length (rawEnc H (Short k c f)) < 2 ^ 63"
  shows "k = k' \<and> refEnc H c = refEnc H c'"
proof -
  let ?a = "encStr (the (hexToCompact k))" and ?b = "encStr (the (hexToCompact k'))"
  have l: "length (frame List (?a @ refEnc H c)) < 2 ^ 63" using assms(4) by simp
  have "frame List (?a @ refEnc H c) = frame List (?b @ refEnc H c')" using assms(1) by simp
  then have e: "?a @ refEnc H c = ?b @ refEnc H c'" using l by (rule frame_List_inject)
  have l': "length (?a @ refEnc H c) < 2 ^ 63" using l length_frame_le [of "?a @ refEnc H c" List] by simp
  then have ab: "?a = ?b" "refEnc H c = refEnc H c'"
    using framed_append [OF framed_encStr framed_encStr e] by simp_all
  have "length ?a < 2 ^ 64" using l' by simp
  then have "the (hexToCompact k) = the (hexToCompact k')" by (rule encStr_inject [OF ab(1)])
  then show ?thesis using compact_inject [OF assms(2,3)] ab(2) by blast
qed

lemma rawEnc_Full_inject:
  assumes "rawEnc H (Full cs f) = rawEnc H (Full cs' f')" "length (rawEnc H (Full cs f)) < 2 ^ 63"
  shows "map (refEnc H) cs = map (refEnc H) cs'"
proof -
  let ?a = "map (refEnc H) cs" and ?b = "map (refEnc H) cs'"
  have l: "length (frame List (concat ?a)) < 2 ^ 63" using assms(2) by simp
  have "frame List (concat ?a) = frame List (concat ?b)" using assms(1) by simp
  then have "concat ?a = concat ?b" using l by (rule frame_List_inject)
  moreover have "length (concat ?a) < 2 ^ 63" using l length_frame_le [of "concat ?a" List] by simp
  ultimately show ?thesis using framed_refEnc [of H] by (intro framed_concat) (simp_all add: list_all_iff)
qed

lemma rawEnc_Short_Full:
  assumes "rawEnc H (Short k c f) = rawEnc H (Full cs g)" "length cs = 17" "length (rawEnc H (Short k c f)) < 2 ^ 63"
  shows False
proof -
  let ?a = "[encStr (the (hexToCompact k)), refEnc H c]" and ?b = "map (refEnc H) cs"
  have l: "length (frame List (concat ?a)) < 2 ^ 63" using assms(3) by simp
  have "frame List (concat ?a) = frame List (concat ?b)" using assms(1) by simp
  then have "concat ?a = concat ?b" using l by (rule frame_List_inject)
  moreover have "length (concat ?a) < 2 ^ 63" using l length_frame_le [of "concat ?a" List] by simp
  ultimately have "?a = ?b"
    using framed_refEnc [of H] framed_encStr by (intro framed_concat) (simp_all add: list_all_iff)
  then have "length ?a = length ?b" by simp
  then show False using assms(2) by simp
qed

definition value_like :: "node \<Rightarrow> bool" where
  "value_like c \<longleftrightarrow> c = NilN \<or> (\<exists>v. c = ValueN v \<and> v \<noteq> [])"

lemma every_small: "every (small H) p c \<Longrightarrow> length (rawEnc H c) < 2 ^ 63"
  by (cases c) (simp_all add: small_def)

text \<open>Children that are encoded alike are alike.\<close>

lemma kid_binds:
  assumes IH: "tok r p c \<Longrightarrow> tok r' p' c' \<Longrightarrow> rawEnc H c = rawEnc H c' \<Longrightarrow> strip c = strip c'"
    and e: "refEnc H c = refEnc H c'" "length (refEnc H c) < 2 ^ 63"
    and kid: "(tok r p c \<or> c = NilN) \<and> (tok r' p' c' \<or> c' = NilN) \<or> value_like c \<and> value_like c'"
    and mem: "loaded c" "loaded c'" "every (small H) p c" "every (small H) p' c'" "no_collision H (encs H c) (encs H c')"
  shows "strip c = strip c'"
proof (cases "value_like c \<and> value_like c'")
  case True
  then show ?thesis using refEnc_value_inject [OF e(1)] e(2) by (simp add: value_like_def)
next
  case False
  have len: "length (rawEnc H c) < 2 ^ 63" "length (rawEnc H c') < 2 ^ 63"
    using mem(3,4) every_small by blast+
  consider "c = NilN" "c' = NilN" | "tok r p c" "c' = NilN" | "c = NilN" "tok r' p' c'" | "tok r p c" "tok r' p' c'"
    using kid False by blast
  then show ?thesis
  proof cases
    case 2
    then show ?thesis using refEnc_NilN [of H c] e(1) len(1) tok_loaded_inner mem(1) by simp
  next
    case 3
    then show ?thesis using refEnc_NilN [of H c'] e(1) len(2) tok_loaded_inner mem(2) by simp
  next
    case 4
    then have "inner c" "inner c'" using tok_loaded_inner mem(1,2) by blast+
    then have "rawEnc H c = rawEnc H c'" using refEnc_raw [OF e(1) _ _ len mem(5)] by blast
    then show ?thesis using IH 4 by blast
  qed simp
qed

text \<open>The induction hypothesis of \<open>rawEnc_binds\<close> for the node \<open>c\<close>.\<close>

definition binds :: "keccak \<Rightarrow> trieReader \<Rightarrow> trieReader \<Rightarrow> node \<Rightarrow> bool" where
  "binds H r r' c \<longleftrightarrow> (\<forall>p p' c'. tok r p c \<longrightarrow> tok r' p' c' \<longrightarrow> loaded c \<longrightarrow> loaded c' \<longrightarrow>
     every (small H) p c \<longrightarrow> every (small H) p' c' \<longrightarrow> no_collision H (encs H c) (encs H c') \<longrightarrow>
     rawEnc H c = rawEnc H c' \<longrightarrow> strip c = strip c')"

lemma binds_Short:
  assumes IH: "binds H r r' c" and tok: "tok r p (Short k c f)" "tok r' p' (Short k' c' f')"
    and mem: "loaded c" "loaded c'" "every (small H) p (Short k c f)" "every (small H) p' (Short k' c' f')"
    and nc: "no_collision H (encs H c) (encs H c')" and e: "rawEnc H (Short k c f) = rawEnc H (Short k' c' f')"
  shows "k = k' \<and> strip c = strip c'"
proof -
  have l: "length (rawEnc H (Short k c f)) < 2 ^ 63" using mem(3) by (rule every_small)
  have key: "nibs k \<or> hexkey k" "nibs k' \<or> hexkey k'"
    using tok by (auto simp: hexkey_def elim!: tok_Short_cases)
  have k: "k = k'" "refEnc H c = refEnc H c'" using rawEnc_Short_inject [OF e key l] by simp_all
  have "strip c = strip c'"
  proof (rule kid_binds [OF _ k(2) _ _ mem(1,2) _ _ nc])
    show "strip c = strip c'" if "tok r (p @ k) c" "tok r' (p' @ k') c'" "rawEnc H c = rawEnc H c'"
      using IH that mem nc unfolding binds_def every_simps by blast
    show "length (refEnc H c) < 2 ^ 63"
      using l length_frame_le [of "encStr (the (hexToCompact k)) @ refEnc H c" List] by simp
    show "(tok r (p @ k) c \<or> c = NilN) \<and> (tok r' (p' @ k') c' \<or> c' = NilN) \<or> value_like c \<and> value_like c'"
      using tok k(1) nibs_no_term by (auto simp: value_like_def elim!: tok_Short_cases)
  qed (use mem(3,4) in simp_all)
  with k(1) show ?thesis by blast
qed

lemma binds_Full:
  assumes IH: "\<And>c. c \<in> set cs \<Longrightarrow> binds H r r' c" and tok: "tok r p (Full cs f)" "tok r' p' (Full cs' f')"
    and mem: "list_all loaded cs" "list_all loaded cs'" "every (small H) p (Full cs f)" "every (small H) p' (Full cs' f')"
    and nc: "no_collision H (encs H (Full cs f)) (encs H (Full cs' f'))" and e: "rawEnc H (Full cs f) = rawEnc H (Full cs' f')"
  shows "map strip cs = map strip cs'"
proof -
  have l: "length (rawEnc H (Full cs f)) < 2 ^ 63" using mem(3) by (rule every_small)
  have len: "length cs = 17" "length cs' = 17" using tok by (simp_all add: tok_simps)
  have m: "map (refEnc H) cs = map (refEnc H) cs'" by (rule rawEnc_Full_inject [OF e l])
  have "strip (cs ! i) = strip (cs' ! i)" if i: "i < 17" for i
  proof (rule kid_binds [where r = r and r' = r'])
    let ?x = "word_of_nat i :: byte"
    have in_cs: "cs ! i \<in> set cs" "cs' ! i \<in> set cs'" using i len by simp_all
    show nci: "no_collision H (encs H (cs ! i)) (encs H (cs' ! i))"
      using nc in_cs by (elim no_collision_mono) auto
    show kids: "loaded (cs ! i)" "loaded (cs' ! i)" "every (small H) (p @ [?x]) (cs ! i)" "every (small H) (p' @ [?x]) (cs' ! i)"
      using mem in_cs every_child [OF _ i] by (auto simp: list_all_iff)
    show "strip (cs ! i) = strip (cs' ! i)"
      if "tok r (p @ [?x]) (cs ! i)" "tok r' (p' @ [?x]) (cs' ! i)" "rawEnc H (cs ! i) = rawEnc H (cs' ! i)"
      using IH [OF in_cs(1)] that kids nci unfolding binds_def by blast
    have "map (refEnc H) cs ! i = map (refEnc H) cs' ! i" using m by simp
    then show "refEnc H (cs ! i) = refEnc H (cs' ! i)" using i len by simp
    show "length (refEnc H (cs ! i)) < 2 ^ 63"
      using l length_frame_le [of "concat (map (refEnc H) cs)" List] length_in_concat [OF in_cs(1), of "refEnc H"] by simp
    show "(tok r (p @ [?x]) (cs ! i) \<or> cs ! i = NilN) \<and> (tok r' (p' @ [?x]) (cs' ! i) \<or> cs' ! i = NilN) \<or>
        value_like (cs ! i) \<and> value_like (cs' ! i)"
      using full_child_ok [OF tok(1) i] full_child_ok [OF tok(2) i] by (auto simp: child_ok_def value_like_def)
  qed
  then show ?thesis using len by (auto intro!: nth_equalityI)
qed

lemma binds_all: "binds H r r' n"
proof (induction n)
  case (Short k c f)
  have "strip (Short k c f) = strip n'"
    if a: "tok r p (Short k c f)" "tok r' p' n'" "loaded (Short k c f)" "loaded n'" "every (small H) p (Short k c f)"
      "every (small H) p' n'" "no_collision H (encs H (Short k c f)) (encs H n')" "rawEnc H (Short k c f) = rawEnc H n'" for p p' n'
  proof (cases n')
    case (Full cs g)
    have "length cs = 17" using a(2) by (simp add: Full tok_simps)
    then show ?thesis using rawEnc_Short_Full [OF _ _ every_small [OF a(5)]] a(8) unfolding Full by blast
  next
    case n': (Short k' c' g)
    have "no_collision H (encs H c) (encs H c')" using a(7) unfolding n' by (rule no_collision_mono) auto
    then show ?thesis using binds_Short [OF Short a(1) _ _ _ a(5)] a unfolding n' by simp
  qed (use a(2,4) in simp_all)
  then show ?case unfolding binds_def by blast
next
  case (Full cs f)
  have "strip (Full cs f) = strip n'"
    if a: "tok r p (Full cs f)" "tok r' p' n'" "loaded (Full cs f)" "loaded n'" "every (small H) p (Full cs f)"
      "every (small H) p' n'" "no_collision H (encs H (Full cs f)) (encs H n')" "rawEnc H (Full cs f) = rawEnc H n'" for p p' n'
  proof (cases n')
    case n': (Full cs' g)
    then show ?thesis using binds_Full [OF Full a(1) _ _ _ a(5)] a by simp
  next
    case (Short k' c' g)
    have "length cs = 17" using a(1) by (simp add: tok_simps)
    then show ?thesis using rawEnc_Short_Full [of H k' c' g cs f] every_small [OF a(6)] a(8) unfolding Short by metis
  qed (use a(2,4) in simp_all)
  then show ?case unfolding binds_def by blast
qed (simp_all add: binds_def)

subsection \<open>Tries in use\<close>

text \<open>The tries that updates, lookups and rehashings lead to.\<close>

inductive reached :: "keccak \<Rightarrow> Trie \<Rightarrow> Trie \<Rightarrow> bool" for H where
  rc_start: "reached H t t"
| rc_step: "reached H t u \<Longrightarrow> trie_step x u = Some (Ok res, u') \<Longrightarrow> reached H t u'"
| rc_hash: "reached H t u \<Longrightarrow> sized H u \<Longrightarrow> trie_Hash H u = Some (h, u') \<Longrightarrow> reached H t u'"

lemma trie_step_inv:
  assumes "trie_inv H t" "trie_step x t = Some (Ok res, t')"
  shows "trie_inv H t' \<and> reader t' = reader t"
proof -
  have "trie_ok t'" "keyed t'"
    using trie_step_simulates [of t x] assms by (auto simp: trie_inv_def)
  then show ?thesis using caches.trie_step_every [OF assms(2) refl] assms(1) by (auto simp: trie_inv_def)
qed

lemma reached_inv: "reached H t u \<Longrightarrow> trie_inv H t \<Longrightarrow> trie_inv H u"
proof (induction rule: reached.induct)
  case (rc_step t u x res u')
  then show ?case using trie_step_inv by blast
next
  case (rc_hash t u h u')
  then show ?case using trie_Hash_ok by fastforce
qed

text \<open>No collision of the hash function between two tries, nor with the hash of the empty trie.\<close>

definition collision_free :: "keccak \<Rightarrow> Trie \<Rightarrow> Trie \<Rightarrow> bool" where
  "collision_free H t t' \<longleftrightarrow> no_collision H (encs H (root t)) (encs H (root t')) \<and>
     (\<forall>e\<in>encs H (root t) \<union> encs H (root t'). BytesToHash (digest H e) \<noteq> EmptyRootHash)"

lemma BytesToHash_digest: "BytesToHash (digest H a) = BytesToHash (digest H b) \<Longrightarrow> digest H a = digest H b"
  by (metis Hash_Bytes_BytesToHash length_digest setFixed_exact)

text \<open>What is loaded does not depend on the database.\<close>

lemma loaded_entry_imp: "entry r p n k v \<Longrightarrow> loaded n \<Longrightarrow> entry r' p' n k v"
proof (induction arbitrary: p' rule: entry.induct)
  case (e_full x cs p k v f)
  then have "loaded (cs ! unat x)" by (simp add: list_all_length)
  then show ?case using e_full by simp
qed auto

lemma loaded_entry: "loaded n \<Longrightarrow> entry r p n k v \<longleftrightarrow> entry r' p' n k v"
  using loaded_entry_imp by blast

lemma rootHash_binds:
  assumes inv: "trie_inv H t" "trie_inv H t'" "sized H t" "sized H t'" and mem: "loaded (root t)" "loaded (root t')"
    and cf: "collision_free H t t'" and h: "rootHash H (root t) = rootHash H (root t')"
  shows "tlookup t = tlookup t'"
proof -
  have ok: "trie_ok t" "trie_ok t'" using inv(1,2) by (simp_all add: trie_inv_def)
  note r = trie_inv_root [OF inv(1)] trie_inv_root [OF inv(2)]
  have nil: "root t = NilN \<longleftrightarrow> root t' = NilN"
    using cf h r encs_self [of "root t" H] encs_self [of "root t'" H] unfolding collision_free_def rootHash_def
    by (metis UnCI)
  have "strip (root t) = strip (root t')"
  proof (cases "root t = NilN")
    case False
    then have r: "inner (root t)" "tok (reader t) [] (root t)" "inner (root t')" "tok (reader t') [] (root t')"
      using r nil by simp_all
    have "digest H (rawEnc H (root t)) = digest H (rawEnc H (root t'))"
      using h False nil by (intro BytesToHash_digest) (simp add: rootHash_def)
    then have "rawEnc H (root t) = rawEnc H (root t')"
      using cf encs_self [OF r(1)] encs_self [OF r(3)] by (simp add: collision_free_def no_collision_def)
    then show ?thesis
      using binds_all [of H "reader t" "reader t'" "root t"] r mem inv(3,4) cf
      by (simp add: binds_def sized_def collision_free_def)
  qed (use nil in simp)
  then have "entry (reader t) [] (root t) k v \<longleftrightarrow> entry (reader t') [] (root t') k v" for k v
    using same_shape(4) [of "root t" "root t'"] loaded_entry [OF mem(2), of "reader t" "[]" k v "reader t'" "[]"] by simp
  then have "holds t' k v \<longleftrightarrow> holds t k v" for k v by (simp add: holds_def)
  then show ?thesis using tlookup_cong [OF ok] by simp
qed

text \<open>
  C36: The root hash of a trie commits to its content.  Take two tries after any updates, lookups
  and rehashings.  If they hold the same entries, \<open>Hash\<close> returns the same value for both, whatever
  the histories, the cached hashes and the parts not yet loaded.  If both are in memory, \<open>Hash\<close>
  returns the same value and no two of their node encodings collide, they hold the same entries.
\<close>

theorem root_hash_commits_to_content:
  assumes "trie_inv H t0" "reached H t0 t" "sized H t" and "trie_inv H t0'" "reached H t0' t'" "sized H t'"
  shows "\<exists>h u h' u'. trie_Hash H t = Some (h, u) \<and> trie_Hash H t' = Some (h', u') \<and>
    (tlookup t = tlookup t' \<longrightarrow> h = h') \<and>
    (h = h' \<and> loaded (root t) \<and> loaded (root t') \<and> collision_free H t t' \<longrightarrow> tlookup t = tlookup t')"
proof -
  have inv: "trie_inv H t" "trie_inv H t'" using reached_inv assms by blast+
  obtain u u' where "trie_Hash H t = Some (rootHash H (root t), u)" "trie_Hash H t' = Some (rootHash H (root t'), u')"
    using trie_Hash_ok [OF inv(1) assms(3)] trie_Hash_ok [OF inv(2) assms(6)] by blast
  then show ?thesis using rootHash_content [OF inv] rootHash_binds [OF inv assms(3,6)] by blast
qed

text \<open>A concrete run for the witness: a checksum for the hash function, keys of one byte.\<close>

definition sumHash :: keccak where
  "sumHash data i = sum_list data + word_of_nat (i * length data)"

lemma emptyTrie_inv: "trie_inv H emptyTrie"
  using emptyTrie_ok(1) by (simp add: trie_inv_def keyed_def emptyTrie_def)

lemma reached_run: "trie_run ops t = Some (map Ok rs, u) \<Longrightarrow> reached H s t \<Longrightarrow> reached H s u"
proof (induction ops arbitrary: t rs)
  case (Cons x ops)
  then obtain r rs' t' where "trie_step x t = Some (Ok r, t')" "trie_run ops t' = Some (map Ok rs', u)"
    by (cases rs) (auto split: option.splits)
  then show ?case using Cons.IH Cons.prems(2) rc_step by blast
qed simp

theorem root_hash_commits_to_content_witness:
  "\<exists>t t' h u u'. reached sumHash emptyTrie t \<and> reached sumHash emptyTrie t' \<and> tlookup t [1] = Some [5] \<and>
    trie_Hash sumHash t = Some (h, u) \<and> trie_Hash sumHash t' = Some (h, u')"
proof -
  let ?a = "[OpUpdate [1] [5]]" and ?b = "[OpUpdate [2] [7], OpUpdate [1] [5], OpDelete [2]]"
  have root: "map_option (root \<circ> snd) (trie_run ?a emptyTrie) = Some (Short [0, 1, 16] (ValueN [5]) newFlag)"
    "map_option (root \<circ> snd) (trie_run ?b emptyTrie) = Some (Short [0, 1, 16] (ValueN [5]) newFlag)"
    by code_simp+
  obtain t t' where t: "trie_run ?a emptyTrie = Some (map Ok (fst (map_run ?a Map.empty)), t)" "tlookup t = [[1] \<mapsto> [5]]"
    and t': "trie_run ?b emptyTrie = Some (map Ok (fst (map_run ?b Map.empty)), t')" "tlookup t' = [[1] \<mapsto> [5]]"
    using trie_run_simulates [OF emptyTrie_ok(1), of ?a] trie_run_simulates [OF emptyTrie_ok(1), of ?b]
    unfolding emptyTrie_ok(2) by (auto simp: Let_def fun_upd_twist)
  have r: "reached sumHash emptyTrie t" "reached sumHash emptyTrie t'"
    using reached_run [OF t(1) rc_start] reached_run [OF t'(1) rc_start] by blast+
  have "root t = Short [0, 1, 16] (ValueN [5]) newFlag" "root t' = Short [0, 1, 16] (ValueN [5]) newFlag"
    using root t(1) t'(1) by simp_all
  then have "sized sumHash t" "sized sumHash t'"
    by (simp_all add: sized_def small_def encStr.simps frame.simps puthead_def hexToCompact_def hasTerm_def)
  from root_hash_commits_to_content [OF emptyTrie_inv r(1) this(1) emptyTrie_inv r(2) this(2)] t(2) t'(2)
  obtain h u u' where "trie_Hash sumHash t = Some (h, u)" "trie_Hash sumHash t' = Some (h, u')" by auto
  moreover have "tlookup t [1] = Some [5]" by (simp add: t(2))
  ultimately show ?thesis using r by blast
qed

end
