(* ===== verification/Trie_Commit.thy ===== *)
theory Trie_Commit
  imports Trie_Root
begin

text \<open>
  Committing a trie and opening it again: the node sets of \<open>trie/trienode/node.go\<close>, the committer
  of \<open>trie/committer.go\<close>, and \<open>Commit\<close>, \<open>New\<close>, \<open>Copy\<close> and \<open>Reset\<close> of \<open>trie/trie.go\<close>.  A database
  that serves the nodes of the set, besides what it served before, opens the new root as a trie
  with the content of the committed one.
\<close>

subsection \<open>Node sets\<close>

text \<open>\<open>Blob\<close> is \<open>None\<close> for the nil slice of a deleted node.\<close>

record Node =
  n_Hash :: hash
  n_Blob :: "byte list option"

definition Node_Size :: "Node \<Rightarrow> nat" where
  "Node_Size n = (case n_Blob n of None \<Rightarrow> 0 | Some b \<Rightarrow> length b) + 32"

definition IsDeleted :: "Node \<Rightarrow> bool" where
  "IsDeleted n \<longleftrightarrow> n_Hash n = 0"

definition NewNode :: "hash \<Rightarrow> byte list option \<Rightarrow> Node" where
  "NewNode hash blob = \<lparr> n_Hash = hash, n_Blob = blob \<rparr>"

definition NewDeleted :: Node where
  "NewDeleted = NewNode 0 None"

record leaf =
  l_Blob :: "byte list"
  l_Parent :: hash

record NodeSet =
  ns_Owner :: hash
  Leaves :: "leaf list"
  Nodes :: "(byte list, Node) gomap"
  ns_updates :: int
  ns_deletes :: int

definition NewNodeSet :: "hash \<Rightarrow> NodeSet" where
  "NewNodeSet ow = \<lparr> ns_Owner = ow, Leaves = [], Nodes = [], ns_updates = 0, ns_deletes = 0 \<rparr>"

definition AddNode :: "byte list \<Rightarrow> Node \<Rightarrow> NodeSet \<Rightarrow> NodeSet" where
  "AddNode path n s =
     (let s = (if IsDeleted n then s\<lparr> ns_deletes := ns_deletes s + 1 \<rparr> else s\<lparr> ns_updates := ns_updates s + 1 \<rparr>)
      in s\<lparr> Nodes := mput path n (Nodes s) \<rparr>)"

definition mergeNode :: "NodeSet \<Rightarrow> byte list \<times> Node \<Rightarrow> NodeSet" where
  "mergeNode s pn =
     (case pn of (path, n) \<Rightarrow>
        let s = (case mget (Nodes s) path of
                   None \<Rightarrow> s
                 | Some prev \<Rightarrow>
                     if IsDeleted prev then s\<lparr> ns_deletes := ns_deletes s - 1 \<rparr> else s\<lparr> ns_updates := ns_updates s - 1 \<rparr>)
        in AddNode path n s)"

text \<open>\<open>None\<close> is the error for sets of different owners.\<close>

definition NodeSet_Merge :: "hash \<Rightarrow> (byte list, Node) gomap \<Rightarrow> NodeSet \<Rightarrow> NodeSet option" where
  "NodeSet_Merge ow nodes s = (if ns_Owner s \<noteq> ow then None else Some (foldl mergeNode s nodes))"

definition AddLeaf :: "hash \<Rightarrow> byte list \<Rightarrow> NodeSet \<Rightarrow> NodeSet" where
  "AddLeaf parent blob s = s\<lparr> Leaves := Leaves s @ [\<lparr> l_Blob = blob, l_Parent = parent \<rparr>] \<rparr>"

definition NodeSet_Size :: "NodeSet \<Rightarrow> int \<times> int" where
  "NodeSet_Size s = (ns_updates s, ns_deletes s)"

definition NodeSet_Hashes :: "NodeSet \<Rightarrow> hash list" where
  "NodeSet_Hashes s = map (n_Hash \<circ> snd) (Nodes s)"

type_synonym MergedNodeSet = "(hash, NodeSet) gomap"

definition MergedNodeSet_Merge :: "NodeSet \<Rightarrow> MergedNodeSet \<Rightarrow> MergedNodeSet option" where
  "MergedNodeSet_Merge other sets =
     (case mget sets (ns_Owner other) of
        Some sub \<Rightarrow>
          map_option (\<lambda>s. mput (ns_Owner other) s sets) (NodeSet_Merge (ns_Owner other) (Nodes other) sub)
      | None \<Rightarrow> Some (mput (ns_Owner other) other sets))"

definition NewWithNodeSet :: "NodeSet \<Rightarrow> MergedNodeSet" where
  "NewWithNodeSet s = (case MergedNodeSet_Merge s [] of Some m \<Rightarrow> m | None \<Rightarrow> [])"

definition Flatten :: "MergedNodeSet \<Rightarrow> (hash, (byte list, Node) gomap) gomap" where
  "Flatten sets = map (\<lambda>(ow, s). (ow, Nodes s)) sets"

subsection \<open>The committer\<close>

text \<open>The tracer and the flag of the committer are arguments, its node set is passed along.\<close>

definition store :: "tracer \<Rightarrow> bool \<Rightarrow> byte list \<Rightarrow> node \<Rightarrow> NodeSet \<Rightarrow> node \<times> NodeSet" where
  "store tr collectLeaf path n nodes =
     (case fst (cache n) of
        None \<Rightarrow> (n, if mhas (accessList tr) path then AddNode path NewDeleted nodes else nodes)
      | Some h \<Rightarrow>
          let nhash = BytesToHash h;
              nodes = AddNode path (NewNode nhash (nodeToBytes n)) nodes;
              nodes = (if collectLeaf then
                         (case n of Short k (ValueN val) f \<Rightarrow> AddLeaf nhash val nodes | _ \<Rightarrow> nodes)
                       else nodes)
          in (HashN h, nodes))"

text \<open>\<open>None\<close> is a panic.\<close>

fun commit :: "tracer \<Rightarrow> bool \<Rightarrow> byte list \<Rightarrow> node \<Rightarrow> NodeSet \<Rightarrow> (node \<times> NodeSet) option"
and commitChildren :: "tracer \<Rightarrow> bool \<Rightarrow> byte list \<Rightarrow> nat \<Rightarrow> node list \<Rightarrow> NodeSet \<Rightarrow> (node list \<times> NodeSet) option" where
  "commit tr cl path (Short k v f) nodes =
     (if nf_hash f \<noteq> None \<and> \<not> nf_dirty f then Some (HashN (the (nf_hash f)), nodes)
      else
        Option.bind (case v of Full cs cf \<Rightarrow> commit tr cl (path @ k) (Full cs cf) nodes | _ \<Rightarrow> Some (v, nodes))
          (\<lambda>(val, nodes). Option.bind (hexToCompact k) (\<lambda>key. Some (store tr cl path (Short key val f) nodes))))"
| "commit tr cl path (Full cs f) nodes =
     (if nf_hash f \<noteq> None \<and> \<not> nf_dirty f then Some (HashN (the (nf_hash f)), nodes)
      else
        Option.bind (commitChildren tr cl path 0 cs nodes)
          (\<lambda>(hashedKids, nodes). Some (store tr cl path (Full hashedKids f) nodes)))"
| "commit tr cl path (HashN h) nodes = Some (HashN h, nodes)"
| "commit tr cl path NilN nodes = None"
| "commit tr cl path (ValueN v) nodes = None"
| "commitChildren tr cl path i [] nodes = Some ([], nodes)"
| "commitChildren tr cl path i (child # cs) nodes =
     Option.bind
       (if i < 16 then
          (case child of
             NilN \<Rightarrow> Some (NilN, nodes)
           | HashN h \<Rightarrow> Some (HashN h, nodes)
           | _ \<Rightarrow> commit tr cl (path @ [word_of_nat i]) child nodes)
        else Some (child, nodes))
       (\<lambda>(kid, nodes). Option.bind (commitChildren tr cl path (i + 1) cs nodes)
          (\<lambda>(kids, nodes). Some (kid # kids, nodes)))"

definition committer_Commit :: "tracer \<Rightarrow> bool \<Rightarrow> node \<Rightarrow> NodeSet \<Rightarrow> (node \<times> NodeSet) option" where
  "committer_Commit tr cl n nodes =
     (case commit tr cl [] n nodes of Some (HashN h, nodes) \<Rightarrow> Some (HashN h, nodes) | _ \<Rightarrow> None)"

subsection \<open>Commit and opening\<close>

text \<open>The hash, the node set (nil if there is nothing to commit) and the trie; \<open>None\<close> is a panic.\<close>

definition trie_Commit :: "keccak \<Rightarrow> bool \<Rightarrow> Trie \<Rightarrow> ((hash \<times> NodeSet option) \<times> Trie) option" where
  "trie_Commit H collectLeaf t =
     (let done = (\<lambda>t. t\<lparr> committed := True, trace := tracer_reset (trace t) \<rparr>) in
      if root t = NilN then
        let paths = deletedNodes (trace t) in
        if length paths = 0 then Some ((EmptyRootHash, None), done t)
        else Some ((EmptyRootHash, Some (foldl (\<lambda>nodes path. AddNode path NewDeleted nodes) (NewNodeSet (owner t)) paths)), done t)
      else
        Option.bind (trie_Hash H t) (\<lambda>(rootHash, t).
          case cache (root t) of (hashedNode, dirty) \<Rightarrow>
            if \<not> dirty then
              Some ((rootHash, None), done (t\<lparr> root := case hashedNode of Some h \<Rightarrow> HashN h | None \<Rightarrow> HashN [] \<rparr>))
            else
              let nodes = foldl (\<lambda>nodes path. AddNode path NewDeleted nodes) (NewNodeSet (owner t)) (deletedNodes (trace t)) in
              map_option (\<lambda>(n, nodes). ((rootHash, Some nodes), done (t\<lparr> root := n \<rparr>)))
                (committer_Commit (trace t) collectLeaf (root t) nodes)))"

text \<open>
  Opening a trie.  The database is a parameter: the reader of a state root, \<open>None\<close> for an error.
\<close>

type_synonym trie_db = "hash \<Rightarrow> (hash \<Rightarrow> byte list \<Rightarrow> hash \<Rightarrow> byte list option) option"

record trie_ID =
  StateRoot :: hash
  id_Owner :: hash
  id_Root :: hash

definition StateTrieID :: "hash \<Rightarrow> trie_ID" where
  "StateTrieID r = \<lparr> StateRoot = r, id_Owner = 0, id_Root = r \<rparr>"

definition StorageTrieID :: "hash \<Rightarrow> hash \<Rightarrow> hash \<Rightarrow> trie_ID" where
  "StorageTrieID stateRoot ow r = \<lparr> StateRoot = stateRoot, id_Owner = ow, id_Root = r \<rparr>"

definition TrieID :: "hash \<Rightarrow> trie_ID" where
  "TrieID r = \<lparr> StateRoot = r, id_Owner = 0, id_Root = r \<rparr>"

definition newTrieReader :: "hash \<Rightarrow> hash \<Rightarrow> trie_db \<Rightarrow> trie_err + trieReader" where
  "newTrieReader stateRoot ow db =
     (if stateRoot = 0 \<or> stateRoot = EmptyRootHash then Inr \<lparr> tr_owner = ow, tr_reader = None, banned = [] \<rparr>
      else
        (case db stateRoot of
           None \<Rightarrow> Inl (MissingNodeError ow stateRoot [])
         | Some rd \<Rightarrow> Inr \<lparr> tr_owner = ow, tr_reader = Some rd, banned = [] \<rparr>))"

definition trie_New :: "trie_ID \<Rightarrow> trie_db \<Rightarrow> (trie_err, Trie) outcome option" where
  "trie_New i db =
     (case newTrieReader (StateRoot i) (id_Owner i) db of
        Inl e \<Rightarrow> Some (Err e)
      | Inr r \<Rightarrow>
          let t = \<lparr> root = NilN, owner = id_Owner i, committed = False, unhashed = 0, reader = r, trace = newTracer \<rparr> in
          if id_Root i \<noteq> 0 \<and> id_Root i \<noteq> EmptyRootHash then
            (case resolveAndTrack r (Hash_Bytes (id_Root i)) [] (trace t) of
               None \<Rightarrow> None
             | Some (Ok rootnode, tr) \<Rightarrow> Some (Ok (t\<lparr> root := rootnode, trace := tr \<rparr>))
             | Some (Err e, tr) \<Rightarrow> Some (Err e)
             | Some (Panic, tr) \<Rightarrow> Some Panic)
          else Some (Ok t))"

definition trie_NewEmpty :: "trie_db \<Rightarrow> (trie_err, Trie) outcome option" where
  "trie_NewEmpty db = trie_New (TrieID EmptyRootHash) db"

text \<open>Values are immutable, so the deep copies of \<open>Copy\<close> are the values themselves.\<close>

definition trie_Copy :: "Trie \<Rightarrow> Trie" where
  "trie_Copy t = \<lparr> root = root t, owner = owner t, committed = committed t, unhashed = unhashed t,
     reader = reader t, trace = trace t \<rparr>"

definition trie_Reset :: "Trie \<Rightarrow> Trie" where
  "trie_Reset t = t\<lparr> root := NilN, owner := 0, unhashed := 0, trace := tracer_reset (trace t), committed := False \<rparr>"

subsection \<open>The storage form of a node\<close>

text \<open>
  The node as it is written: large subtrees by their hash, small ones embedded.  \<open>g\<close> is the hash
  the node is loaded by.
\<close>

fun sform :: "keccak \<Rightarrow> byte list option \<Rightarrow> node \<Rightarrow> node" where
  "sform H g (Short k v f) =
     Short k (if inner v \<and> 32 \<le> length (rawEnc H v) then HashN (digest H (rawEnc H v)) else sform H None v)
       \<lparr> nf_hash = g, nf_dirty = False \<rparr>"
| "sform H g (Full cs f) =
     Full (map (\<lambda>v. if inner v \<and> 32 \<le> length (rawEnc H v) then HashN (digest H (rawEnc H v)) else sform H None v) cs)
       \<lparr> nf_hash = g, nf_dirty = False \<rparr>"
| "sform H g n = n"

definition sref :: "keccak \<Rightarrow> node \<Rightarrow> node" where
  "sref H v = (if inner v \<and> 32 \<le> length (rawEnc H v) then HashN (digest H (rawEnc H v)) else sform H None v)"

lemma sform_simps:
  "sform H g (Short k v f) = Short k (sref H v) \<lparr> nf_hash = g, nf_dirty = False \<rparr>"
  "sform H g (Full cs f) = Full (map (sref H) cs) \<lparr> nf_hash = g, nf_dirty = False \<rparr>"
  by (simp_all add: sref_def)

declare sform.simps(1,2) [simp del] sform_simps [simp]

lemma sform_inner [simp]: "inner (sform H g n) = inner n"
  by (cases n) simp_all

lemma reflag_sref [simp]: "reflag None (sref H n) = sref H n" "reflag g (sform H g' n) = sform H g n"
proof -
  have "reflag g (sform H g' n) = sform H g n \<and> reflag None (sref H n) = sref H n" for g g'
  proof (induction n arbitrary: g g')
    case (Full cs f)
    then have "map (reflag None \<circ> sref H) cs = map (sref H) cs" by auto
    then show ?case by (simp add: sref_def)
  qed (simp_all add: sref_def)
  then show "reflag None (sref H n) = sref H n" "reflag g (sform H g' n) = sform H g n" by blast+
qed

lemma sform_enc:
  "(inner n \<longrightarrow> nodeEnc (compactKeys (sform H g n)) = rawEnc H n) \<and> nodeEnc (compactKeys (sref H n)) = refEnc H n"
proof (induction n arbitrary: g)
  case (Full cs f)
  then have "map (\<lambda>c. nodeEnc (compactKeys (sref H c))) cs = map (refEnc H) cs" by simp
  then have e: "nodeEnc (compactKeys (sform H g (Full cs f))) = rawEnc H (Full cs f)" for g
    by (simp only: sform_simps compactKeys.simps nodeEnc.simps rawEnc.simps map_map comp_def)
  show ?case using e [of g] e [of None] refEnc_inner [of "Full cs f" H] by (simp add: sref_def hashRef_def del: sform_simps rawEnc.simps refEnc.simps)
next
  case (Short k v f)
  then have e: "nodeEnc (compactKeys (sform H g (Short k v f))) = rawEnc H (Short k v f)" for g by simp
  show ?case using e [of g] e [of None] refEnc_inner [of "Short k v f" H] by (simp add: sref_def hashRef_def del: sform_simps rawEnc.simps refEnc.simps)
qed (simp_all add: sref_def)

lemma sref_isRef:
  assumes "tok r p n" "every (law H r) p n"
  shows "isRef (sref H n)"
proof (cases n)
  case (HashN h)
  then show ?thesis using assms(2) by (simp add: sref_def law_def)
next
  case (Short k v f)
  have "nodeEnc (compactKeys (sform H None n)) = rawEnc H n" using sform_enc [of n H None] Short by simp
  then show ?thesis by (simp add: sref_def Short del: rawEnc.simps nodeEnc.simps compactKeys.simps)
next
  case (Full cs f)
  have "nodeEnc (compactKeys (sform H None n)) = rawEnc H n" using sform_enc [of n H None] Full by simp
  then show ?thesis by (simp add: sref_def Full del: rawEnc.simps nodeEnc.simps compactKeys.simps)
qed (use assms(1) in simp_all)

lemma sform_stored:
  "tok r p n \<Longrightarrow> every (law H r) p n \<Longrightarrow> stored (sform H g n) \<and> stored (sref H n)"
proof (induction arbitrary: g rule: tok.induct)
  case (tk_leaf k v p f)
  then show ?case by (auto simp: sref_def hexkey_def)
next
  case (tk_ext k p c f)
  have c: "isRef (sref H c)" "stored (sref H c)" using tk_ext sref_isRef [of r "p @ k" c H] by simp_all
  have "stored (sform H g (Short k c f))" for g using c tk_ext.hyps by (cases "sref H c") auto
  then show ?case by (simp add: sref_def del: sform_simps)
next
  case (tk_full cs p f)
  have kid: "stored (sref H (cs ! i)) \<and> (i < 16 \<longrightarrow> sref H (cs ! i) = NilN \<or> isRef (sref H (cs ! i)))" if i: "i < 17" for i
  proof (cases "i = 16")
    case True
    then show ?thesis using tk_full.hyps(2) by (auto simp: sref_def)
  next
    case False
    let ?x = "word_of_nat i :: byte"
    have x: "unat ?x = i" "?x < 16" using i False by (simp_all add: unat_of_nat word_less_nat_alt)
    have "cs ! i = NilN \<or> tok r (p @ [?x]) (cs ! i) \<and> (stored (sref H (cs ! i)))"
      using tk_full.IH [OF x(2)] every_child [OF tk_full.prems i] unfolding x by blast
    then show ?thesis using sref_isRef every_child [OF tk_full.prems i] by (auto simp: sref_def [of H NilN])
  qed
  have "c = NilN \<or> isRef c" if c: "c \<in> set (take 16 (map (sref H) cs))" for c
  proof -
    obtain j where "j < 16" "c = sref H (cs ! j)" using c tk_full.hyps(1) by (auto simp: in_set_conv_nth)
    then show ?thesis using kid [of j] by simp
  qed
  moreover have "case map (sref H) cs ! 16 of NilN \<Rightarrow> True | ValueN v \<Rightarrow> v \<noteq> [] | _ \<Rightarrow> False"
    using tk_full.hyps(1,2) by (auto simp: sref_def)
  ultimately have "stored (sform H g (Full cs f))" for g
    using kid tk_full.hyps(1) by (auto simp: list_all_length)
  then show ?case by (simp add: sref_def del: sform_simps)
next
  case (tk_hash h p n)
  then show ?case by (simp add: sref_def)
qed

subsection \<open>Databases that serve more\<close>

definition extends :: "trieReader \<Rightarrow> trieReader \<Rightarrow> bool" where
  "extends r r' \<longleftrightarrow> (\<forall>p h b. reader_node r p h = Inr b \<longrightarrow> reader_node r' p h = Inr b)"

lemma resolves_extends: "extends r r' \<Longrightarrow> resolves r h p n \<Longrightarrow> resolves r' h p n"
  by (auto simp: extends_def resolves_def)

lemma isFull_extends: "extends r r' \<Longrightarrow> isFull r p n \<Longrightarrow> isFull r' p n"
  unfolding isFull_def using resolves_extends by blast

lemma tok_extends: "tok r p n \<Longrightarrow> extends r r' \<Longrightarrow> tok r' p n"
proof (induction rule: tok.induct)
  case (tk_full cs p f)
  then show ?case by (intro tok.tk_full) blast+
qed (auto intro: tok.intros isFull_extends resolves_extends)

lemma entry_extends_imp: "entry r p n k v \<Longrightarrow> extends r r' \<Longrightarrow> entry r' p n k v"
  by (induction rule: entry.induct) (auto intro: entry.intros resolves_extends)

text \<open>On a well-formed node the new database shows nothing new.\<close>

lemma entry_extends: "tok r p n \<Longrightarrow> extends r r' \<Longrightarrow> entry r' p n k v \<longleftrightarrow> entry r p n k v"
proof (induction arbitrary: k v rule: tok.induct)
  case (tk_full cs p f)
  show ?case
  proof (cases k)
    case (Cons x k')
    show ?thesis
    proof (cases "x < 16")
      case True
      then have "cs ! unat x = NilN \<or> (\<forall>k v. entry r' (p @ [x]) (cs ! unat x) k v \<longleftrightarrow> entry r (p @ [x]) (cs ! unat x) k v)"
        using tk_full.IH tk_full.prems by blast
      then show ?thesis by (auto simp: Cons)
    next
      case False
      show ?thesis
      proof (cases "unat x < 17")
        case True
        then have "unat x = 16" using False by (simp add: word_less_nat_alt)
        then show ?thesis using tk_full.hyps(1,2) by (auto simp: Cons)
      qed (use tk_full.hyps(1) in \<open>simp add: Cons\<close>)
    qed
  qed simp
next
  case (tk_hash h p n)
  have "resolves r' h p n" using tk_hash by (blast intro: resolves_extends)
  then have "entry r' p (HashN h) k v \<longleftrightarrow> entry r' p n k v" "entry r p (HashN h) k v \<longleftrightarrow> entry r p n k v"
    using tk_hash.hyps(1) by (auto dest: resolves_unique)
  then show ?case using tk_hash by blast
qed simp_all

subsection \<open>What a commit writes can be read back\<close>

definition clean :: "node \<Rightarrow> bool" where
  "clean n \<longleftrightarrow> fst (cache n) \<noteq> None \<and> \<not> snd (cache n)"

text \<open>The encodings a commit writes, with their paths: nothing below clean nodes.\<close>

inductive written :: "keccak \<Rightarrow> byte list \<Rightarrow> node \<Rightarrow> byte list \<Rightarrow> byte list \<Rightarrow> bool" for H where
  w_self: "inner n \<Longrightarrow> \<not> clean n \<Longrightarrow> p = [] \<or> 32 \<le> length (rawEnc H n) \<Longrightarrow> written H p n p (rawEnc H n)"
| w_short: "\<not> clean (Short k c f) \<Longrightarrow> written H (p @ k) c q e \<Longrightarrow> written H p (Short k c f) q e"
| w_full: "\<not> clean (Full cs f) \<Longrightarrow> x < 16 \<Longrightarrow> written H (p @ [x]) (cs ! unat x) q e \<Longrightarrow> written H p (Full cs f) q e"

text \<open>The node \<open>s\<close> in the new database stands for \<open>n\<close> in the old one.\<close>

definition stands :: "trieReader \<Rightarrow> trieReader \<Rightarrow> byte list \<Rightarrow> node \<Rightarrow> node \<Rightarrow> bool" where
  "stands r r' p n s \<longleftrightarrow> tok r' p s \<and> (\<forall>k v. entry r' p s k v \<longleftrightarrow> entry r p n k v) \<and> (isFull r p n \<longrightarrow> isFull r' p s)"

lemma stands_Short:
  assumes "tok r p (Short k c f)" "tok r (p @ k) c \<Longrightarrow> stands r r' (p @ k) c (sref H c)"
  shows "stands r r' p (Short k c f) (sform H g (Short k c f))"
  using assms(1)
proof (cases rule: tok_Short_cases)
  case (leaf k' v)
  then show ?thesis by (auto simp: stands_def sref_def isFull_def intro: tok.tk_leaf)
next
  case ext
  then have "stands r r' (p @ k) c (sref H c)" using assms(2) by blast
  then show ?thesis using ext by (auto simp: stands_def isFull_def [of _ _ "Short _ _ _"] intro: tok.tk_ext)
qed

lemma stands_Full:
  assumes tok: "tok r p (Full cs f)" and kid: "\<And>x. x < 16 \<Longrightarrow> tok r (p @ [x]) (cs ! unat x) \<Longrightarrow> stands r r' (p @ [x]) (cs ! unat x) (sref H (cs ! unat x))"
  shows "stands r r' p (Full cs f) (sform H g (Full cs f))"
proof -
  let ?cs = "map (sref H) cs"
  have l: "length cs = 17" using tok by (simp add: tok_simps)
  have val: "sref H (cs ! 16) = cs ! 16" using tok by (auto simp: tok_simps sref_def)
  have low: "cs ! unat x = NilN \<and> sref H (cs ! unat x) = NilN \<or> stands r r' (p @ [x]) (cs ! unat x) (sref H (cs ! unat x))" if "x < 16" for x
    using tok kid that by (auto simp: tok_simps sref_def [of H NilN])
  have nil: "sref H (cs ! i) \<noteq> NilN" if "i < 17" "cs ! i \<noteq> NilN" for i
    using that by (cases "cs ! i") (auto simp: sref_def)
  have "tok r' p (Full ?cs g')" for g'
  proof (rule tk_full)
    fix x :: byte assume x: "x < 16"
    then have "unat x < 17" by (rule unat_nib_17)
    then show "?cs ! unat x = NilN \<or> tok r' (p @ [x]) (?cs ! unat x)" using low [OF x] l by (auto simp: stands_def)
  next
    show "?cs ! 16 = NilN \<or> (\<exists>v. ?cs ! 16 = ValueN v \<and> v \<noteq> [])" using tok l val by (simp add: tok_simps)
    obtain i j where "i < j" "j < 17" "cs ! i \<noteq> NilN" "cs ! j \<noteq> NilN" using tok by (auto simp: tok_simps)
    then have "i < j \<and> j < 17 \<and> ?cs ! i \<noteq> NilN \<and> ?cs ! j \<noteq> NilN" using nil l by simp
    then show "\<exists>i j. i < j \<and> j < 17 \<and> ?cs ! i \<noteq> NilN \<and> ?cs ! j \<noteq> NilN" by blast
  qed (use l in simp)
  moreover have "entry r' p (Full ?cs g') k v \<longleftrightarrow> entry r p (Full cs f) k v" for g' k v
  proof (cases k)
    case (Cons x k')
    show ?thesis
    proof (cases "x < 16")
      case True
      then show ?thesis using low [OF True] unat_nib_17 [OF True] l by (auto simp: Cons stands_def)
    next
      case False
      then have "unat x < 17 \<longrightarrow> unat x = 16" by (auto simp: word_less_nat_alt)
      then show ?thesis using val tok l by (auto simp: Cons tok_simps)
    qed
  qed simp
  ultimately show ?thesis by (simp add: stands_def isFull_def)
qed

text \<open>A node that was written, loaded by its hash.\<close>

lemma written_resolves:
  assumes "tok r p n" "every (law H r) p n" "inner n" "length (rawEnc H n) < 2 ^ 63"
    and "reader_node r' p (BytesToHash (digest H (rawEnc H n))) = Inr (rawEnc H n)"
  shows "resolves r' (digest H (rawEnc H n)) p (sform H (Some (digest H (rawEnc H n))) n)"
proof -
  let ?d = "digest H (rawEnc H n)" and ?s = "sform H None n"
  have e: "nodeEnc (compactKeys ?s) = rawEnc H n" using sform_enc [of n H None] assms(3) by simp
  have st: "stored ?s" using sform_stored [OF assms(1,2)] by blast
  have "inner ?s" using assms(3) by simp
  then have "?s \<noteq> NilN" "\<forall>x. ?s \<noteq> HashN x \<and> ?s \<noteq> ValueN x" by (metis inner.simps(3-5))+
  from decode_stored_node [OF st this, of "Some ?d"] assms(4)
  have "decodeNode (Some ?d) (rawEnc H n) = Some (Inr (sform H (Some ?d) n))" unfolding e by simp
  then show ?thesis using assms(5) by (auto simp: resolves_def)
qed

lemma stands_hash:
  assumes "resolves r' h p s" "inner s" "stands r r' p n s"
  shows "stands r r' p n (HashN h)"
proof -
  have "entry r' p (HashN h) k v \<longleftrightarrow> entry r' p s k v" for k v
    using assms(1) by (auto dest: resolves_unique)
  moreover have "isFull r' p (HashN h)" if "isFull r' p s"
    using that assms(1,2) by (cases s) (auto simp: isFull_def)
  ultimately show ?thesis using assms by (auto simp: stands_def intro: tok.tk_hash)
qed

lemma stands_clean:
  assumes "tok r p n" "law H r p n" "clean n" "extends r r'"
  shows "stands r r' p n (HashN (digest H (rawEnc H n)))"
proof -
  obtain h where c: "cache n = (Some h, False)" using assms(3) by (cases "cache n") (auto simp: clean_def)
  then have h: "h = digest H (rawEnc H n)" "tok r p (HashN h)" "same_content r p n (HashN h)"
    using assms(2) by (auto simp: law_def)
  have "isFull r p (HashN h)" if full: "isFull r p n"
  proof -
    obtain cs f where n: "n = Full cs f" using full c by (cases n) (auto simp: isFull_def)
    obtain m where m: "resolves r h p m" "inner m" "tok r p m" using h(2) by (auto simp: tok_simps)
    have "agree r p n r p m" using h(3) m(1) by (auto simp: agree_def same_content_def dest: resolves_unique)
    then obtain cs' f' where "m = Full cs' f'"
      using full_not_short [of r p cs f r p] assms(1) m(2,3) unfolding n by (cases m) auto
    then show ?thesis using m(1) by (auto simp: isFull_def)
  qed
  then have "stands r r' p n (HashN h)"
    using h(3) tok_extends [OF h(2) assms(4)] entry_extends [OF h(2) assms(4)] isFull_extends [OF assms(4)]
    by (auto simp: stands_def same_content_def)
  then show ?thesis unfolding h(1) .
qed

lemma written_stands:
  assumes "inner n" and tok: "tok r p n" and law: "every (law H r) p n" and ext: "extends r r'" and sm: "every (small H) p n"
    and serve: "\<And>q e. written H p n q e \<Longrightarrow> reader_node r' q (BytesToHash (digest H e)) = Inr e"
    and body: "\<not> clean n \<Longrightarrow> \<forall>g. stands r r' p n (sform H g n)"
    and big: "p = [] \<or> 32 \<le> length (rawEnc H n)"
  shows "stands r r' p n (HashN (digest H (rawEnc H n)))"
proof (cases "clean n")
  case True
  have "law H r p n" using law assms(1) by (cases n) simp_all
  then show ?thesis using stands_clean [OF tok _ True ext] by blast
next
  case False
  have "reader_node r' p (BytesToHash (digest H (rawEnc H n))) = Inr (rawEnc H n)"
    using w_self [OF assms(1) False big] by (rule serve)
  from stands_hash [OF written_resolves [OF tok law assms(1) every_small [OF sm] this]] body [OF False] assms(1)
  show ?thesis by simp
qed

lemma stands_finish:
  assumes inn: "inner n" and tok: "tok r p n" and law: "every (law H r) p n" and ext: "extends r r'" and sm: "every (small H) p n"
    and serve: "\<And>q e. written H p n q e \<Longrightarrow> reader_node r' q (BytesToHash (digest H e)) = Inr e"
    and body: "\<not> clean n \<Longrightarrow> \<forall>g. stands r r' p n (sform H g n)" and p: "p \<noteq> []"
  shows "stands r r' p n (sref H n)"
proof (cases "32 \<le> length (rawEnc H n)")
  case True
  then show ?thesis using written_stands [OF inn tok law ext sm serve body] inn by (simp add: sref_def)
next
  case False
  have "law H r p n" using law inn by (cases n) simp_all
  then have "\<not> clean n" using False p by (auto simp: clean_def law_def split: prod.splits option.splits)
  then show ?thesis using body False by (simp add: sref_def)
qed

lemma stands_sref:
  "tok r p n \<Longrightarrow> every (law H r) p n \<Longrightarrow> every (small H) p n \<Longrightarrow> extends r r' \<Longrightarrow>
    (\<And>q e. written H p n q e \<Longrightarrow> reader_node r' q (BytesToHash (digest H e)) = Inr e) \<Longrightarrow>
    (inner n \<and> \<not> clean n \<longrightarrow> (\<forall>g. stands r r' p n (sform H g n))) \<and> (p \<noteq> [] \<longrightarrow> stands r r' p n (sref H n))"
proof (induction n arbitrary: p)
  case (Short k c f)
  have body: "\<forall>g. stands r r' p (Short k c f) (sform H g (Short k c f))" if "\<not> clean (Short k c f)"
  proof (intro allI stands_Short [OF Short.prems(1)])
    assume "tok r (p @ k) c"
    then show "stands r r' (p @ k) c (sref H c)"
      using Short.IH [of "p @ k"] Short.prems(2-5) w_short [OF that] tok_Short_ne [OF Short.prems(1)] by auto
  qed
  then show ?case using stands_finish [OF _ Short.prems(1,2,4,3,5)] by simp
next
  case (Full cs f)
  have body: "\<forall>g. stands r r' p (Full cs f) (sform H g (Full cs f))" if nc: "\<not> clean (Full cs f)"
  proof (intro allI stands_Full [OF Full.prems(1)])
    fix x :: byte assume x: "x < 16" and tok: "tok r (p @ [x]) (cs ! unat x)"
    have u: "unat x < 17" "cs ! unat x \<in> set cs" using unat_nib_17 [OF x] Full.prems(1) by (simp_all add: tok_simps)
    have "every (law H r) (p @ [x]) (cs ! unat x)" "every (small H) (p @ [x]) (cs ! unat x)" using Full.prems(2,3) u(1) by simp_all
    from Full.IH [OF u(2) tok this Full.prems(4)] Full.prems(5) w_full [OF nc x]
    show "stands r r' (p @ [x]) (cs ! unat x) (sref H (cs ! unat x))" by simp
  qed
  then show ?case using stands_finish [OF _ Full.prems(1,2,4,3,5)] by simp
next
  case (HashN h)
  then show ?case
    using tok_extends [OF HashN.prems(1,4)] entry_extends [OF HashN.prems(1,4)] isFull_extends [OF HashN.prems(4)]
    by (simp add: stands_def sref_def del: entry_simps)
qed simp_all

text \<open>The root itself.\<close>

lemma stands_root:
  assumes "inner n" "tok r [] n" "every (law H r) [] n" "every (small H) [] n" "extends r r'"
    "\<And>q e. written H [] n q e \<Longrightarrow> reader_node r' q (BytesToHash (digest H e)) = Inr e"
  shows "stands r r' [] n (HashN (digest H (rawEnc H n)))"
  using written_stands [OF assms(1-3,5,4,6)] stands_sref [OF assms(2,3,4,5,6)] assms(1) by blast

subsection \<open>The committer writes exactly that\<close>

definition beneath :: "byte list \<Rightarrow> byte list \<Rightarrow> bool" where
  "beneath p q \<longleftrightarrow> (\<exists>s. q = p @ s)"

lemma beneath_refl [simp]: "beneath p p"
  by (simp add: beneath_def)

lemma beneath_append: "beneath (p @ k) q \<Longrightarrow> beneath p q"
  by (auto simp: beneath_def)

lemma beneath_strict: "k \<noteq> [] \<Longrightarrow> \<not> beneath (p @ k) p"
  by (auto simp: beneath_def)

lemma beneath_disjoint: "x \<noteq> y \<Longrightarrow> beneath (p @ [x]) q \<Longrightarrow> \<not> beneath (p @ [y]) q"
  by (auto simp: beneath_def)

lemma written_beneath: "written H p n q e \<Longrightarrow> beneath p q"
  by (induction rule: written.induct) (auto dest: beneath_append)

lemma written_inner: "written H p n q e \<Longrightarrow> inner n \<and> \<not> clean n"
  by (induction rule: written.induct) simp_all


abbreviation blobNode :: "keccak \<Rightarrow> byte list \<Rightarrow> Node" where
  "blobNode H e \<equiv> NewNode (BytesToHash (digest H e)) (Some e)"

text \<open>
  What a commit of the nodes with the written encodings \<open>W\<close> does to a node set: it holds them,
  changes nothing outside the paths \<open>U\<close>, and adds nothing else but deletions.
\<close>

definition put :: "keccak \<Rightarrow> (byte list \<Rightarrow> byte list \<Rightarrow> bool) \<Rightarrow> (byte list \<Rightarrow> bool) \<Rightarrow> NodeSet \<Rightarrow> NodeSet \<Rightarrow> bool" where
  "put H W U s s' \<longleftrightarrow>
     (\<forall>q e. W q e \<longrightarrow> mget (Nodes s') q = Some (blobNode H e)) \<and>
     (\<forall>q. \<not> U q \<longrightarrow> mget (Nodes s') q = mget (Nodes s) q) \<and>
     (\<forall>q m. mget (Nodes s') q = Some m \<longrightarrow> mget (Nodes s) q = Some m \<or> m = NewDeleted \<or> (\<exists>e. W q e \<and> m = blobNode H e))"

lemma put_refl: "(\<And>q e. \<not> W q e) \<Longrightarrow> put H W U s s"
  by (simp add: put_def)

lemma put_trans:
  assumes "put H W U s s'" "put H W' U' s' s''" "\<And>q e. W q e \<Longrightarrow> \<not> U' q"
  shows "put H (\<lambda>q e. W q e \<or> W' q e) (\<lambda>q. U q \<or> U' q) s s''"
  unfolding put_def
proof (intro conjI allI impI)
  fix q e assume "W q e \<or> W' q e"
  then show "mget (Nodes s'') q = Some (blobNode H e)" using assms by (auto simp: put_def)
next
  fix q assume "\<not> (U q \<or> U' q)"
  then show "mget (Nodes s'') q = mget (Nodes s) q" using assms(1,2) by (simp add: put_def)
next
  fix q m assume "mget (Nodes s'') q = Some m"
  then have "mget (Nodes s') q = Some m \<or> m = NewDeleted \<or> (\<exists>e. W' q e \<and> m = blobNode H e)"
    using assms(2) unfolding put_def by blast
  then show "mget (Nodes s) q = Some m \<or> m = NewDeleted \<or> (\<exists>e. (W q e \<or> W' q e) \<and> m = blobNode H e)"
    using assms(1) unfolding put_def by blast
qed

lemma put_cong: "put H W U s s' \<Longrightarrow> (\<And>q e. W q e \<longleftrightarrow> W' q e) \<Longrightarrow> (\<And>q. U q \<Longrightarrow> U' q) \<Longrightarrow> put H W' U' s s'"
  unfolding put_def by blast

lemma mget_AddNode [simp]: "mget (Nodes (AddNode p n s)) q = (if q = p then Some n else mget (Nodes s) q)"
  by (simp add: AddNode_def Let_def gomap)

lemma Nodes_AddLeaf [simp]: "Nodes (AddLeaf h b s) = Nodes s"
  by (simp add: AddLeaf_def)

text \<open>The reference of a node in its parent, or the hash of the root.\<close>

definition refers :: "keccak \<Rightarrow> byte list \<Rightarrow> node \<Rightarrow> node \<Rightarrow> bool" where
  "refers H p n d \<longleftrightarrow> (if p = [] then d = HashN (digest H (rawEnc H n)) else nodeEnc d = refEnc H n)"

lemma store_ok:
  assumes inn: "inner n" and nc: "\<not> clean n" and law: "law H r p n" and st: "settled H p n" and sm: "small H p n"
    and col: "nodeEnc col = rawEnc H n" "cache col = cache n"
  shows "\<exists>d s'. store tr cl p col s = (d, s') \<and> refers H p n d \<and>
    put H (\<lambda>q e. q = p \<and> e = rawEnc H n \<and> (p = [] \<or> 32 \<le> length (rawEnc H n))) (\<lambda>q. q = p) s s'"
proof (cases "fst (cache n)")
  case None
  then have e: "p \<noteq> []" "length (rawEnc H n) < 32" using st inn by (simp_all add: settled_def)
  then have "refEnc H n = rawEnc H n" using inn by (simp add: refEnc_inner hashRef_def)
  then show ?thesis using None e col by (auto simp: store_def refers_def put_def)
next
  case (Some h)
  then have h: "h = digest H (rawEnc H n)" "p \<noteq> [] \<longrightarrow> 32 \<le> length (rawEnc H n)"
    using law by (auto simp: law_def split: prod.splits)
  have b: "nodeToBytes col = Some (rawEnc H n)"
    using nodeToBytes_nodeEnc [of col] sm unfolding col(1) small_def by simp
  have "refers H p n (HashN h)" using h inn by (auto simp: refers_def refEnc_inner hashRef_def)
  moreover obtain s' where "store tr cl p col s = (HashN h, s')"
    "Nodes s' = Nodes (AddNode p (blobNode H (rawEnc H n)) s)"
    using Some col(2) b h(1) by (auto simp: store_def Let_def split: node.splits)
  ultimately show ?thesis using h(2) by (auto simp: put_def)
qed

text \<open>The commit of a node, for every node set.\<close>

definition commits :: "keccak \<Rightarrow> tracer \<Rightarrow> bool \<Rightarrow> byte list \<Rightarrow> node \<Rightarrow> bool" where
  "commits H tr cl p n \<longleftrightarrow>
     (\<forall>s. \<exists>d s'. commit tr cl p n s = Some (d, s') \<and> refers H p n d \<and> put H (written H p n) (beneath p) s s')"

lemma refers_plain: "\<not> inner n \<Longrightarrow> p \<noteq> [] \<Longrightarrow> nodeEnc n = refEnc H n"
  by (cases n) simp_all

lemma written_Short_iff:
  assumes "\<not> clean (Short k c f)"
  shows "written H p (Short k c f) q e \<longleftrightarrow>
    written H (p @ k) c q e \<or> q = p \<and> e = rawEnc H (Short k c f) \<and> (p = [] \<or> 32 \<le> length (rawEnc H (Short k c f)))"
  using assms by (subst written.simps) auto

lemma written_Full_iff:
  assumes "\<not> clean (Full cs f)"
  shows "written H p (Full cs f) q e \<longleftrightarrow>
    (\<exists>x<16. written H (p @ [x]) (cs ! unat x) q e) \<or>
    q = p \<and> e = rawEnc H (Full cs f) \<and> (p = [] \<or> 32 \<le> length (rawEnc H (Full cs f)))"
  using assms by (subst written.simps) auto

lemma commits_clean:
  assumes "inner n" "clean n" "law H r p n"
  shows "commits H tr cl p n"
proof -
  obtain h where c: "cache n = (Some h, False)" using assms(2) by (cases "cache n") (auto simp: clean_def)
  then have h: "h = digest H (rawEnc H n)" "p \<noteq> [] \<longrightarrow> 32 \<le> length (rawEnc H n)"
    using assms(3) by (auto simp: law_def)
  have "commit tr cl p n s = Some (HashN h, s)" for s using c assms(1) by (cases n) auto
  moreover have "refers H p n (HashN h)" using h assms(1) by (auto simp: refers_def refEnc_inner hashRef_def)
  moreover have "put H (written H p n) (beneath p) s s" for s using written_inner assms(2) by (blast intro: put_refl)
  ultimately show ?thesis unfolding commits_def by blast
qed

text \<open>The children, then the node itself.\<close>

lemma commits_store:
  assumes inn: "inner n" "\<not> clean n" "law H r p n" "settled H p n" "small H p n"
    and col: "nodeEnc col = rawEnc H n" "cache col = cache n"
    and kids: "put H W U s s'" "\<And>q e. W q e \<Longrightarrow> q \<noteq> p" "\<And>q. U q \<Longrightarrow> beneath p q"
    and w: "\<And>q e. written H p n q e \<longleftrightarrow> W q e \<or> q = p \<and> e = rawEnc H n \<and> (p = [] \<or> 32 \<le> length (rawEnc H n))"
  shows "\<exists>d s''. store tr cl p col s' = (d, s'') \<and> refers H p n d \<and> put H (written H p n) (beneath p) s s''"
proof -
  obtain d s'' where d: "store tr cl p col s' = (d, s'')" "refers H p n d"
    and put: "put H (\<lambda>q e. q = p \<and> e = rawEnc H n \<and> (p = [] \<or> 32 \<le> length (rawEnc H n))) (\<lambda>q. q = p) s' s''"
    using store_ok [OF inn col] by blast
  have "put H (written H p n) (beneath p) s s''"
    by (rule put_cong [OF put_trans [OF kids(1) put]]) (use kids(2,3) w in auto)
  then show ?thesis using d by blast
qed

lemma child_apart:
  assumes "i < 16" "Suc i + j < 16"
  shows "(word_of_nat i :: byte) \<noteq> word_of_nat (Suc i + j)"
  using assms by (auto simp: word_unat_eq_iff unat_of_nat simp del: of_nat_add of_nat_Suc)

lemma commitChildren_ok:
  assumes "\<And>j. j < length cs \<Longrightarrow> i + j < 16 \<Longrightarrow> inner (cs ! j) \<Longrightarrow> commits H tr cl (p @ [word_of_nat (i + j)]) (cs ! j)"
    and "\<And>j. j < length cs \<Longrightarrow> inner (cs ! j) \<Longrightarrow> i + j < 16"
    and "\<And>j v. j < length cs \<Longrightarrow> cs ! j = ValueN v \<Longrightarrow> 16 \<le> i + j"
  shows "\<exists>kids s'. commitChildren tr cl p i cs s = Some (kids, s') \<and> map nodeEnc kids = map (refEnc H) cs \<and>
    put H (\<lambda>q e. \<exists>j. j < length cs \<and> i + j < 16 \<and> written H (p @ [word_of_nat (i + j)]) (cs ! j) q e)
      (\<lambda>q. \<exists>j. j < length cs \<and> i + j < 16 \<and> beneath (p @ [word_of_nat (i + j)]) q) s s'"
  using assms
proof (induction cs arbitrary: i s)
  case Nil
  show ?case by (simp add: put_refl)
next
  case (Cons c cs)
  let ?W = "\<lambda>q e. i < 16 \<and> written H (p @ [word_of_nat i]) c q e" and ?U = "\<lambda>q. i < 16 \<and> beneath (p @ [word_of_nat i]) q"
  obtain d s1 where d: "(if i < 16 then (case c of NilN \<Rightarrow> Some (NilN, s) | HashN h \<Rightarrow> Some (HashN h, s)
        | _ \<Rightarrow> commit tr cl (p @ [word_of_nat i]) c s) else Some (c, s)) = Some (d, s1)"
      "nodeEnc d = refEnc H c" "put H ?W ?U s s1"
  proof (cases "inner c")
    case True
    then have i: "i < 16" using Cons.prems(2) [of 0] by simp
    then have "commits H tr cl (p @ [word_of_nat i]) c" using Cons.prems(1) [of 0] True by simp
    then obtain d s1 where "commit tr cl (p @ [word_of_nat i]) c s = Some (d, s1)" "nodeEnc d = refEnc H c"
        "put H (written H (p @ [word_of_nat i]) c) (beneath (p @ [word_of_nat i])) s s1"
      unfolding commits_def refers_def by fastforce
    then show ?thesis using that i True by (cases c) auto
  next
    case False
    have "put H ?W ?U s s" using False by (auto intro!: put_refl dest: written_inner)
    moreover have "\<forall>v. c = ValueN v \<longrightarrow> \<not> i < 16" using Cons.prems(3) [of 0] by auto
    ultimately show ?thesis using that [of c s] False by (cases c) auto
  qed
  let ?W' = "\<lambda>q e. \<exists>j. j < length cs \<and> Suc i + j < 16 \<and> written H (p @ [word_of_nat (Suc i + j)]) (cs ! j) q e"
    and ?U' = "\<lambda>q. \<exists>j. j < length cs \<and> Suc i + j < 16 \<and> beneath (p @ [word_of_nat (Suc i + j)]) q"
  have pre: "\<And>j. j < length cs \<Longrightarrow> Suc i + j < 16 \<Longrightarrow> inner (cs ! j) \<Longrightarrow> commits H tr cl (p @ [word_of_nat (Suc i + j)]) (cs ! j)"
    "\<And>j. j < length cs \<Longrightarrow> inner (cs ! j) \<Longrightarrow> Suc i + j < 16" "\<And>j v. j < length cs \<Longrightarrow> cs ! j = ValueN v \<Longrightarrow> 16 \<le> Suc i + j"
    using Cons.prems(1) [of "Suc _"] Cons.prems(2) [of "Suc _"] Cons.prems(3) [of "Suc _"] by simp_all
  obtain kids s2 where k: "commitChildren tr cl p (Suc i) cs s1 = Some (kids, s2)" "map nodeEnc kids = map (refEnc H) cs" "put H ?W' ?U' s1 s2"
    using Cons.IH [of "Suc i" s1] pre by blast
  have apart: "\<not> ?U' q" if "?W q e" for q e
    using that beneath_disjoint written_beneath child_apart [of i] by meson
  have "put H (\<lambda>q e. ?W q e \<or> ?W' q e) (\<lambda>q. ?U q \<or> ?U' q) s s2" by (rule put_trans [OF d(3) k(3) apart])
  then have "put H (\<lambda>q e. \<exists>j. j < length (c # cs) \<and> i + j < 16 \<and> written H (p @ [word_of_nat (i + j)]) ((c # cs) ! j) q e)
      (\<lambda>q. \<exists>j. j < length (c # cs) \<and> i + j < 16 \<and> beneath (p @ [word_of_nat (i + j)]) q) s s2"
    unfolding length_Cons Ex_less_Suc2 nth_Cons_0 nth_Cons_Suc add_0_right add_Suc_right add_Suc .
  moreover have "commitChildren tr cl p i (c # cs) s = Some (d # kids, s2)" using d(1) k(1) by simp
  moreover have "map nodeEnc (d # kids) = map (refEnc H) (c # cs)" using d(2) k(2) by simp
  ultimately show ?case by blast
qed

lemma commits_Short:
  assumes tok: "tok r p (Short k c f)" and nc: "\<not> clean (Short k c f)" and law: "law H r p (Short k c f)"
    and st: "settled H p (Short k c f)" "small H p (Short k c f)"
    and kid: "tok r (p @ k) c \<Longrightarrow> inner c \<Longrightarrow> commits H tr cl (p @ k) c"
  shows "commits H tr cl p (Short k c f)"
  unfolding commits_def
proof
  fix s
  have k: "k \<noteq> []" using tok_Short_ne [OF tok] by simp
  obtain key where key: "hexToCompact k = Some key" using hexToCompact_Some by blast
  obtain d s1 where d: "(case c of Full cs cf \<Rightarrow> commit tr cl (p @ k) (Full cs cf) s | _ \<Rightarrow> Some (c, s)) = Some (d, s1)"
      "nodeEnc d = refEnc H c" "put H (written H (p @ k) c) (beneath (p @ k)) s s1"
  proof (cases "inner c")
    case True
    then obtain cs cf where c: "c = Full cs cf" "tok r (p @ k) c" using tok by (auto elim!: tok_Short_cases simp: isFull_def)
    have "p @ k \<noteq> []" using k by simp
    then show ?thesis using kid [OF c(2) True] c(1) that unfolding commits_def refers_def by (auto simp del: append_is_Nil_conv)
  next
    case False
    then have "put H (written H (p @ k) c) (beneath (p @ k)) s s" using written_inner by (blast intro: put_refl)
    then show ?thesis using that [of c s] False refers_plain [of c "p @ k" H] k by (cases c) simp_all
  qed
  have "nodeEnc (Short key d f) = rawEnc H (Short k c f)" "cache (Short key d f) = cache (Short k c f)" using d(2) key by simp_all
  from commits_store [OF _ nc law st this d(3) _ _ written_Short_iff [OF nc], of tr cl]
  obtain e s2 where "store tr cl p (Short key d f) s1 = (e, s2)" "refers H p (Short k c f) e"
      "put H (written H p (Short k c f)) (beneath p) s s2"
    using beneath_strict [OF k, of p] written_beneath [of H "p @ k" c] beneath_append [of p k] by fastforce
  moreover have "commit tr cl p (Short k c f) s = Some (store tr cl p (Short key d f) s1)" using nc d(1) key by (auto simp: clean_def)
  ultimately show "\<exists>e s'. commit tr cl p (Short k c f) s = Some (e, s') \<and> refers H p (Short k c f) e \<and>
      put H (written H p (Short k c f)) (beneath p) s s'" by simp
qed

lemma nibble_index:
  fixes Q :: "byte \<Rightarrow> nat \<Rightarrow> bool"
  assumes "n = (17::nat)"
  shows "(\<exists>j. j < n \<and> 0 + j < 16 \<and> Q (word_of_nat (0 + j)) j) \<longleftrightarrow> (\<exists>x<16. Q x (unat x))" (is "?L = ?R")
proof
  assume ?L
  then obtain j where "j < 16" "Q (word_of_nat j) j" by auto
  then show ?R by (intro exI [of _ "word_of_nat j"]) (simp add: word_less_nat_alt unat_of_nat)
next
  assume ?R
  then obtain x :: byte where "x < 16" "Q x (unat x)" by blast
  then show ?L using assms by (intro exI [of _ "unat x"]) (simp add: word_less_nat_alt)
qed

lemma tok_Full_nth:
  assumes "tok r p (Full cs f)" "i < 16"
  shows "cs ! i = NilN \<or> tok r (p @ [word_of_nat i]) (cs ! i)"
proof -
  have "unat (word_of_nat i :: byte) = i" "(word_of_nat i :: byte) < 16" using assms(2) by (simp_all add: unat_of_nat word_less_nat_alt)
  moreover have "\<forall>x<16. cs ! unat x = NilN \<or> tok r (p @ [x]) (cs ! unat x)" using assms(1) by (auto simp: tok_simps)
  ultimately show ?thesis by metis
qed

lemma commits_Full:
  assumes tok: "tok r p (Full cs f)" and nc: "\<not> clean (Full cs f)" and law: "law H r p (Full cs f)"
    and st: "settled H p (Full cs f)" "small H p (Full cs f)"
    and kid: "\<And>i. i < 16 \<Longrightarrow> inner (cs ! i) \<Longrightarrow> commits H tr cl (p @ [word_of_nat i]) (cs ! i)"
  shows "commits H tr cl p (Full cs f)"
  unfolding commits_def
proof
  fix s
  let ?W = "\<lambda>q e. \<exists>x<16. written H (p @ [x]) (cs ! unat x) q e" and ?U = "\<lambda>q. \<exists>x<(16::byte). beneath (p @ [x]) q"
  have l: "length cs = 17" using tok by (simp add: tok_simps)
  have val: "\<not> inner (cs ! 16)" using tok by (auto simp: tok_simps)
  have low: "cs ! i \<noteq> ValueN v" if "i < 16" for i v
    using tok_Full_nth [OF tok that] by auto
  have idx: "inner (cs ! j) \<Longrightarrow> j < 16" "cs ! j = ValueN v \<Longrightarrow> 16 \<le> j" if "j < length cs" for j v
    using that l val low [of j v] by (cases "j = 16"; force)+
  have ex: "\<exists>kids s'. commitChildren tr cl p 0 cs s = Some (kids, s') \<and> map nodeEnc kids = map (refEnc H) cs \<and>
    put H (\<lambda>q e. \<exists>j. j < length cs \<and> 0 + j < 16 \<and> written H (p @ [word_of_nat (0 + j)]) (cs ! j) q e)
      (\<lambda>q. \<exists>j. j < length cs \<and> 0 + j < 16 \<and> beneath (p @ [word_of_nat (0 + j)]) q) s s'"
    by (rule commitChildren_ok) (use kid idx in simp_all)
  obtain kids s1 where k: "commitChildren tr cl p 0 cs s = Some (kids, s1)" "map nodeEnc kids = map (refEnc H) cs"
    and put: "put H (\<lambda>q e. \<exists>j. j < length cs \<and> 0 + j < 16 \<and> written H (p @ [word_of_nat (0 + j)]) (cs ! j) q e)
      (\<lambda>q. \<exists>j. j < length cs \<and> 0 + j < 16 \<and> beneath (p @ [word_of_nat (0 + j)]) q) s s1"
    using ex by blast
  have nib: "(\<exists>j. j < length cs \<and> 0 + j < 16 \<and> Q (word_of_nat (0 + j)) j) \<longleftrightarrow> (\<exists>x<16. Q x (unat x))" for Q :: "byte \<Rightarrow> nat \<Rightarrow> bool"
    using l by (rule nibble_index)
  have put: "put H ?W ?U s s1"
    using put nib [of "\<lambda>x j. written H (p @ [x]) (cs ! j) _ _"] nib [of "\<lambda>x j. beneath (p @ [x]) _"] by simp
  have "nodeEnc (Full kids f) = rawEnc H (Full cs f)" "cache (Full kids f) = cache (Full cs f)" using k(2) by simp_all
  from commits_store [OF _ nc law st this put _ _ written_Full_iff [OF nc], of tr cl]
  obtain e s2 where "store tr cl p (Full kids f) s1 = (e, s2)" "refers H p (Full cs f) e"
      "put H (written H p (Full cs f)) (beneath p) s s2"
    using beneath_strict [of "[_]" p] written_beneath beneath_append [of p "[_]"] by fastforce
  moreover have "commit tr cl p (Full cs f) s = Some (store tr cl p (Full kids f) s1)" using nc k(1) by (auto simp: clean_def)
  ultimately show "\<exists>e s'. commit tr cl p (Full cs f) s = Some (e, s') \<and> refers H p (Full cs f) e \<and>
      put H (written H p (Full cs f)) (beneath p) s s'" by simp
qed

theorem commit_ok:
  "tok r p n \<Longrightarrow> inner n \<Longrightarrow> every (law H r) p n \<Longrightarrow> every (settled H) p n \<Longrightarrow> every (small H) p n \<Longrightarrow> commits H tr cl p n"
proof (induction n arbitrary: p)
  case (Short k c f)
  then have "tok r (p @ k) c \<Longrightarrow> inner c \<Longrightarrow> commits H tr cl (p @ k) c" by simp
  then show ?case using Short.prems commits_clean [of "Short k c f" H r p] commits_Short [of r p k c f H] by (cases "clean (Short k c f)") simp_all
next
  case (Full cs f)
  have "commits H tr cl (p @ [word_of_nat i]) (cs ! i)" if i: "i < 16" "inner (cs ! i)" for i
  proof -
    have "tok r (p @ [word_of_nat i]) (cs ! i)" using tok_Full_nth [OF Full.prems(1) i(1)] i(2) by auto
    moreover have "cs ! i \<in> set cs" using Full.prems(1) i(1) by (simp add: tok_simps)
    ultimately show ?thesis using Full.IH [OF _ _ i(2)] every_child [OF Full.prems(3), of i] every_child [OF Full.prems(4), of i] every_child [OF Full.prems(5), of i] i(1) by auto
  qed
  then show ?case using Full.prems commits_clean [of "Full cs f" H r p] commits_Full [of r p cs f H] by (cases "clean (Full cs f)") simp_all
qed simp_all

subsection \<open>Committing a trie and opening it again\<close>

text \<open>The node sets a commit hands to the database: deletions and blobs of proper nodes.\<close>

definition good_blob :: "keccak \<Rightarrow> byte list \<Rightarrow> byte list \<Rightarrow> bool" where
  "good_blob H p b \<longleftrightarrow> (\<exists>m. stored m \<and> inner m \<and> b = nodeEnc (compactKeys m)) \<and> length b < 2 ^ 63 \<and> (p \<noteq> [] \<longrightarrow> 32 \<le> length b)"

lemma sound_good: "sound H r \<longleftrightarrow> (\<forall>p h b. reader_node r p h = Inr b \<longrightarrow> h = BytesToHash (digest H b) \<and> good_blob H p b)"
  unfolding sound_def good_blob_def by blast

lemma written_good:
  "written H p n q e \<Longrightarrow> tok r p n \<Longrightarrow> every (law H r) p n \<Longrightarrow> every (small H) p n \<Longrightarrow> good_blob H q e"
proof (induction rule: written.induct)
  case (w_self n p)
  have "stored (sform H None n)" "inner (sform H None n)" "rawEnc H n = nodeEnc (compactKeys (sform H None n))"
    using w_self sform_stored [of r p n H None] sform_enc [of n H None] by auto
  then have "\<exists>m. stored m \<and> inner m \<and> rawEnc H n = nodeEnc (compactKeys m)" by blast
  then show ?case using w_self(3) every_small [OF w_self(6)] by (auto simp: good_blob_def)
next
  case (w_short k c f p q e)
  have "inner c" using written_inner [OF w_short(2)] by simp
  then have "tok r (p @ k) c" using w_short.prems(1) by (auto elim: tok_Short_cases)
  then show ?case using w_short by simp
next
  case (w_full cs f x p q e)
  have "cs ! unat x \<noteq> NilN" using written_inner [OF w_full(3)] by auto
  then have "tok r (p @ [x]) (cs ! unat x)" using w_full.prems(1) w_full(2) by (auto simp: tok_simps)
  then show ?case using w_full unat_nib_17 [OF w_full(2)] by simp
qed

definition good_set :: "keccak \<Rightarrow> NodeSet \<Rightarrow> bool" where
  "good_set H s \<longleftrightarrow> (\<forall>q m. mget (Nodes s) q = Some m \<longrightarrow> m = NewDeleted \<or> (\<exists>b. m = blobNode H b \<and> good_blob H q b))"

definition serves :: "keccak \<Rightarrow> NodeSet option \<Rightarrow> trieReader \<Rightarrow> bool" where
  "serves H ns r \<longleftrightarrow> (\<forall>s q b. ns = Some s \<longrightarrow> mget (Nodes s) q = Some (blobNode H b) \<longrightarrow> reader_node r q (BytesToHash (digest H b)) = Inr b)"

lemma mget_deletions:
  "mget (Nodes (foldl (\<lambda>nodes path. AddNode path NewDeleted nodes) s ps)) q = Some m \<Longrightarrow> m = NewDeleted \<or> mget (Nodes s) q = Some m"
proof (induction ps arbitrary: s)
  case (Cons p ps)
  from Cons.IH [of "AddNode p NewDeleted s"] Cons.prems
  have "m = NewDeleted \<or> mget (Nodes (AddNode p NewDeleted s)) q = Some m" unfolding foldl_Cons by blast
  then show ?case by (auto split: if_splits)
qed simp

lemma every_small_strip: "every (small H) p n \<Longrightarrow> strip n' = strip n \<Longrightarrow> every (small H) p n'"
proof (induction arbitrary: n' rule: every.induct)
  case (ev_full cs p f)
  then obtain cs' f' where n': "n' = Full cs' f'" "map strip cs' = map strip cs" by (cases n') auto
  then have l: "length cs' = 17" using ev_full.hyps(1) map_eq_imp_length_eq by metis
  have "strip (cs' ! unat x) = strip (cs ! unat x)" if "unat x < 17" for x :: byte
    using n'(2) that l ev_full.hyps(1) by (metis nth_map)
  then have "every (small H) (p @ [x]) (cs' ! unat x)" if "unat x < 17" for x using ev_full.IH that by blast
  moreover have "small H p n'" using ev_full.hyps(2) same_shape(2) [OF ev_full.prems, of H] by (simp add: small_def)
  ultimately show ?case using l unfolding n'(1) by simp
next
  case (ev_short p k c f)
  then obtain c' f' where n': "n' = Short k c' f'" "strip c' = strip c" by (cases n') auto
  moreover have "small H p n'" using ev_short.hyps(1) same_shape(2) [OF ev_short.prems, of H] by (simp add: small_def)
  ultimately show ?case using ev_short.IH by simp
next
  case (ev_nil p)
  then show ?case by (cases n') simp_all
next
  case (ev_value p v)
  then show ?case by (cases n') simp_all
next
  case (ev_hash p h)
  then show ?case by (cases n') simp_all
qed

lemma committer_Commit_ok:
  assumes "tok r [] n" "inner n" "every (law H r) [] n" "every (settled H) [] n" "every (small H) [] n" "good_set H s"
  shows "\<exists>s'. committer_Commit tr cl n s = Some (HashN (digest H (rawEnc H n)), s') \<and> good_set H s' \<and>
    (\<forall>q e. written H [] n q e \<longrightarrow> mget (Nodes s') q = Some (blobNode H e))"
proof -
  obtain d s' where c: "commit tr cl [] n s = Some (d, s')" "refers H [] n d" "put H (written H [] n) (beneath []) s s'"
    using commit_ok [OF assms(1-5)] unfolding commits_def by blast
  have "d = HashN (digest H (rawEnc H n))" using c(2) by (simp add: refers_def)
  moreover have "good_set H s'"
    using c(3) assms(6) written_good [OF _ assms(1,3,5)] unfolding good_set_def put_def by blast
  moreover have "\<forall>q e. written H [] n q e \<longrightarrow> mget (Nodes s') q = Some (blobNode H e)" using c(3) by (simp add: put_def)
  ultimately show ?thesis using c(1) by (simp add: committer_Commit_def)
qed

lemma Commit_ok:
  assumes inv: "trie_inv H t" "sized H t" and ne: "root t \<noteq> NilN"
  shows "\<exists>ns u. trie_Commit H cl t = Some ((rootHash H (root t), ns), u) \<and> committed u \<and> (\<forall>s. ns = Some s \<longrightarrow> good_set H s) \<and>
    (\<forall>r'. extends (reader t) r' \<longrightarrow> serves H ns r' \<longrightarrow>
      stands (reader t) r' [] (root t) (HashN (digest H (rawEnc H (root t)))))"
proof -
  obtain u where h: "trie_Hash H t = Some (rootHash H (root t), u)" "trie_inv H u" "strip (root u) = strip (root t)"
      "every (settled H) [] (root u)" "reader u = reader t"
    using trie_Hash_ok [OF inv] by blast
  have sm: "every (small H) [] (root u)" using inv(2) every_small_strip [OF _ h(3)] by (simp add: sized_def)
  have "root u \<noteq> NilN" using h(3) ne by (cases "root t"; cases "root u") auto
  note r = trie_inv_root [OF h(2) this, unfolded h(5)]
  have law: "every (law H (reader t)) [] (root u)" using h(2,5) by (simp add: trie_inv_def)
  have raw: "rawEnc H (root u) = rawEnc H (root t)" using h(3) by (rule same_shape)
  have st: "stands (reader t) r' [] (root t) d \<longleftrightarrow> stands (reader t) r' [] (root u) d" for r' d
    using same_shape(4) [OF h(3)] isFull_strip [of _ _ "root u"] isFull_strip [of _ _ "root t"] unfolding stands_def h(3) by simp
  obtain g dirty where c: "cache (root u) = (Some g, dirty)"
    using h(4) r by (cases "root u") (auto simp: settled_def)
  show ?thesis
  proof (cases dirty)
    case False
    then have "clean (root u)" using c by (simp add: clean_def)
    then have "extends (reader t) r' \<Longrightarrow> stands (reader t) r' [] (root t) (HashN (digest H (rawEnc H (root t))))" for r'
      using stands_clean [of "reader t" "[]" "root u" H r'] r law unfolding st raw by (cases "root u") auto
    then show ?thesis using h(1) ne c False by (simp add: trie_Commit_def Let_def)
  next
    case True
    let ?s = "foldl (\<lambda>nodes path. AddNode path NewDeleted nodes) (NewNodeSet (owner u)) (deletedNodes (trace u))"
    have "good_set H ?s" using mget_deletions [of "NewNodeSet (owner u)"] by (auto simp: good_set_def NewNodeSet_def)
    then obtain s' where s: "committer_Commit (trace u) cl (root u) ?s = Some (HashN (digest H (rawEnc H (root u))), s')"
        "good_set H s'" "\<forall>q e. written H [] (root u) q e \<longrightarrow> mget (Nodes s') q = Some (blobNode H e)"
      using committer_Commit_ok [of "reader t" "root u" H ?s "trace u" cl] r law h(4) sm by blast
    have "stands (reader t) r' [] (root t) (HashN (digest H (rawEnc H (root t))))"
      if "extends (reader t) r'" "serves H (Some s') r'" for r'
      using stands_root [of "root u" "reader t" H r'] r law sm that s(3) unfolding st raw serves_def by blast
    moreover obtain u' where "trie_Commit H cl t = Some ((rootHash H (root t), Some s'), u')" "committed u'"
      using h(1) ne c True s(1) by (simp add: trie_Commit_def Let_def)
    moreover have "\<forall>z. Some s' = Some z \<longrightarrow> good_set H z" using s(2) by blast
    ultimately show ?thesis by blast
  qed
qed

lemma New_ok:
  assumes rd: "newTrieReader (StateRoot i) (id_Owner i) db = Inr r" and root: "id_Root i = BytesToHash d" "length d = 32"
    and ne: "id_Root i \<noteq> 0" "id_Root i \<noteq> EmptyRootHash" and tok: "tok r [] (HashN d)" and snd: "sound H r"
  shows "\<exists>u. trie_New i db = Some (Ok u) \<and> reader u = r \<and> \<not> committed u \<and> tok r [] (root u) \<and>
    every (law H r) [] (root u) \<and> (\<forall>k v. entry r [] (root u) k v \<longleftrightarrow> entry r [] (HashN d) k v)"
proof -
  obtain n where n: "resolves r d [] n" "inner n" "tok r [] n" using tok by (auto simp: tok_simps)
  have d: "Hash_Bytes (id_Root i) = d" using root setFixed_exact by (simp add: Hash_Bytes_BytesToHash)
  obtain tr where "resolveAndTrack r d [] newTracer = Some (Ok n, tr)"
    using n(1) by (auto simp: resolves_def resolveAndTrack_def Let_def)
  then have "trie_New i db = Some (Ok \<lparr> root = n, owner = id_Owner i, committed = False, unhashed = 0, reader = r, trace = tr \<rparr>)"
    using rd ne d by (simp add: trie_New_def Let_def)
  moreover have "every (law H r) [] n" using resolved_law [OF snd root(2) tok n(1)] by blast
  moreover have "entry r [] n k v \<longleftrightarrow> entry r [] (HashN d) k v" for k v using n(1) by (auto dest: resolves_unique)
  ultimately show ?thesis using n(3) by simp
qed

lemma New_empty:
  assumes "newTrieReader (StateRoot i) (id_Owner i) db = Inr r" "id_Root i = EmptyRootHash"
  shows "\<exists>u. trie_New i db = Some (Ok u) \<and> reader u = r \<and> \<not> committed u \<and> root u = NilN"
  using assms by (simp add: trie_New_def Let_def)

text \<open>A database that keeps what it had and serves the nodes of the set opens the committed trie.\<close>

lemma commit_opens:
  assumes inv: "trie_inv H t" "sized H t" and h: "rootHash H (root t) \<noteq> 0" "root t \<noteq> NilN \<longrightarrow> rootHash H (root t) \<noteq> EmptyRootHash"
    and c: "trie_Commit H cl t = Some ((h, ns), u)"
    and rd: "newTrieReader (StateRoot i) (id_Owner i) db = Inr r" "id_Root i = h"
    and db: "extends (reader t) r" "serves H ns r" "sound H r"
  shows "h = rootHash H (root t) \<and> (\<exists>v. trie_New i db = Some (Ok v) \<and> reader v = r \<and> trie_inv H v \<and> tlookup v = tlookup t)"
proof (cases "root t = NilN")
  case True
  then have hh: "h = EmptyRootHash" using c by (auto simp: trie_Commit_def Let_def split: if_splits)
  then obtain v where v: "trie_New i db = Some (Ok v)" "reader v = r" "\<not> committed v" "root v = NilN"
    using New_empty rd by blast
  then have "trie_inv H v" by (simp add: trie_inv_def trie_ok_def keyed_def)
  moreover have "tlookup v = tlookup t"
    using v True inv(1) by (intro tlookup_cong) (simp_all add: trie_inv_def trie_ok_def holds_def)
  ultimately show ?thesis using v True hh by (simp add: rootHash_def)
next
  case False
  let ?d = "digest H (rawEnc H (root t))"
  have hh: "h = rootHash H (root t)" and st: "stands (reader t) r [] (root t) (HashN ?d)"
    using Commit_ok [OF inv False, of cl] c db(1,2) by auto
  have "id_Root i = BytesToHash ?d" using rd(2) hh False by (simp add: rootHash_def)
  then obtain v where v: "trie_New i db = Some (Ok v)" "reader v = r" "\<not> committed v" "tok r [] (root v)"
      "every (law H r) [] (root v)" "\<forall>k w. entry r [] (root v) k w \<longleftrightarrow> entry r [] (HashN ?d) k w"
    using New_ok [OF rd(1) _ length_digest _ _ _ db(3), of H "rawEnc H (root t)"] st h False hh rd(2) by (auto simp: stands_def)
  have e: "entry r [] (root v) k w \<longleftrightarrow> entry (reader t) [] (root t) k w" for k w using v(6) st by (simp add: stands_def)
  have ok: "trie_ok v" using v by (simp add: trie_ok_def)
  moreover have "keyed v" using e v(2) inv(1) by (simp add: keyed_def trie_inv_def)
  moreover have "tlookup v = tlookup t" using ok inv(1) e v(2) by (intro tlookup_cong) (simp_all add: trie_inv_def holds_def)
  ultimately show ?thesis using v hh by (simp add: trie_inv_def)
qed

end
