(* ===== verification/Memorydb.thy ===== *)
theory Memorydb
  imports Prelude "HOL-Library.List_Lexorder"
begin

text \<open>
  The in-memory key-value store of \<open>ethdb/memorydb/memorydb.go\<close>: reads and writes, batches,
  iterators over a key range, snapshots.  The store is the map of the source, \<open>None\<close> once it is
  closed; the slices that the source copies are values here.
\<close>

datatype mem_err = MemClosed | MemNotFound | SnapshotReleased

type_synonym memdb = "(byte list, byte list) gomap option"

definition mem_New :: memdb where
  "mem_New = Some []"

definition mem_Close :: "memdb \<Rightarrow> memdb" where
  "mem_Close db = None"

definition mem_Has :: "memdb \<Rightarrow> byte list \<Rightarrow> mem_err + bool" where
  "mem_Has db key = (case db of None \<Rightarrow> Inl MemClosed | Some m \<Rightarrow> Inr (mhas m key))"

definition mem_Get :: "memdb \<Rightarrow> byte list \<Rightarrow> mem_err + byte list" where
  "mem_Get db key =
     (case db of
        None \<Rightarrow> Inl MemClosed
      | Some m \<Rightarrow> (case mget m key of Some entry \<Rightarrow> Inr entry | None \<Rightarrow> Inl MemNotFound))"

definition mem_Put :: "memdb \<Rightarrow> byte list \<Rightarrow> byte list \<Rightarrow> mem_err + memdb" where
  "mem_Put db key v = (case db of None \<Rightarrow> Inl MemClosed | Some m \<Rightarrow> Inr (Some (mput key v m)))"

definition mem_Delete :: "memdb \<Rightarrow> byte list \<Rightarrow> mem_err + memdb" where
  "mem_Delete db key = (case db of None \<Rightarrow> Inl MemClosed | Some m \<Rightarrow> Inr (Some (mdel key m)))"

definition mem_Len :: "memdb \<Rightarrow> nat" where
  "mem_Len db = (case db of None \<Rightarrow> 0 | Some m \<Rightarrow> mlen m)"

subsection \<open>Batches\<close>

record keyvalue =
  kv_key :: "byte list"
  kv_value :: "byte list"
  kv_delete :: bool

record batch =
  b_writes :: "keyvalue list"
  b_size :: int

definition NewBatch :: batch where
  "NewBatch = \<lparr> b_writes = [], b_size = 0 \<rparr>"

definition batch_Put :: "byte list \<Rightarrow> byte list \<Rightarrow> batch \<Rightarrow> batch" where
  "batch_Put key v b =
     b\<lparr> b_writes := b_writes b @ [\<lparr> kv_key = key, kv_value = v, kv_delete = False \<rparr>],
        b_size := b_size b + int (length key) + int (length v) \<rparr>"

definition batch_Delete :: "byte list \<Rightarrow> batch \<Rightarrow> batch" where
  "batch_Delete key b =
     b\<lparr> b_writes := b_writes b @ [\<lparr> kv_key = key, kv_value = [], kv_delete = True \<rparr>],
        b_size := b_size b + int (length key) \<rparr>"

definition ValueSize :: "batch \<Rightarrow> int" where
  "ValueSize b = b_size b"

definition write_one :: "(byte list, byte list) gomap \<Rightarrow> keyvalue \<Rightarrow> (byte list, byte list) gomap" where
  "write_one m kv = (if kv_delete kv then mdel (kv_key kv) m else mput (kv_key kv) (kv_value kv) m)"

definition batch_Write :: "batch \<Rightarrow> memdb \<Rightarrow> mem_err + memdb" where
  "batch_Write b db = (case db of None \<Rightarrow> Inl MemClosed | Some m \<Rightarrow> Inr (Some (foldl write_one m (b_writes b))))"

definition batch_Reset :: "batch \<Rightarrow> batch" where
  "batch_Reset b = b\<lparr> b_writes := [], b_size := 0 \<rparr>"

text \<open>The writer a batch is replayed on is given by its two methods.\<close>

fun replay :: "(byte list \<Rightarrow> byte list \<Rightarrow> 's \<Rightarrow> ('e, 's) outcome) \<Rightarrow> (byte list \<Rightarrow> 's \<Rightarrow> ('e, 's) outcome) \<Rightarrow>
    keyvalue list \<Rightarrow> 's \<Rightarrow> ('e, 's) outcome" where
  "replay put del [] s = Ok s"
| "replay put del (kv # kvs) s =
     bind_outcome (if kv_delete kv then del (kv_key kv) s else put (kv_key kv) (kv_value kv) s) (replay put del kvs)"

definition batch_Replay :: "(byte list \<Rightarrow> byte list \<Rightarrow> 's \<Rightarrow> ('e, 's) outcome) \<Rightarrow> (byte list \<Rightarrow> 's \<Rightarrow> ('e, 's) outcome) \<Rightarrow>
    batch \<Rightarrow> 's \<Rightarrow> ('e, 's) outcome" where
  "batch_Replay put del b s = replay put del (b_writes b) s"

subsection \<open>Iterators\<close>

record iterator =
  it_index :: int
  it_keys :: "byte list list"
  it_values :: "byte list list"

definition hasPrefix :: "byte list \<Rightarrow> byte list \<Rightarrow> bool" where
  "hasPrefix k p \<longleftrightarrow> take (length p) k = p"

definition NewIterator :: "memdb \<Rightarrow> byte list \<Rightarrow> byte list \<Rightarrow> iterator" where
  "NewIterator db prefix start =
     (let m = (case db of None \<Rightarrow> [] | Some m \<Rightarrow> m);
          st = prefix @ start;
          ks = sort (filter (\<lambda>k. hasPrefix k prefix \<and> st \<le> k) (mkeys m))
      in \<lparr> it_index = -1, it_keys = ks, it_values = map (\<lambda>k. case mget m k of Some v \<Rightarrow> v | None \<Rightarrow> []) ks \<rparr>)"

definition memit_Next :: "iterator \<Rightarrow> bool \<times> iterator" where
  "memit_Next it =
     (if it_index it \<ge> int (length (it_keys it)) then (False, it)
      else let it = it\<lparr> it_index := it_index it + 1 \<rparr> in (it_index it < int (length (it_keys it)), it))"

text \<open>\<open>None\<close> is the nil slice.\<close>

definition memit_Key :: "iterator \<Rightarrow> byte list option" where
  "memit_Key it =
     (if it_index it < 0 \<or> it_index it \<ge> int (length (it_keys it)) then None
      else Some (it_keys it ! nat (it_index it)))"

definition memit_Value :: "iterator \<Rightarrow> byte list option" where
  "memit_Value it =
     (if it_index it < 0 \<or> it_index it \<ge> int (length (it_keys it)) then None
      else Some (it_values it ! nat (it_index it)))"

definition memit_Release :: "iterator \<Rightarrow> iterator" where
  "memit_Release it = \<lparr> it_index = -1, it_keys = [], it_values = [] \<rparr>"

subsection \<open>Snapshots\<close>

type_synonym mem_snapshot = "(byte list, byte list) gomap option"

definition newSnapshot :: "memdb \<Rightarrow> mem_snapshot" where
  "newSnapshot db = Some (case db of None \<Rightarrow> [] | Some m \<Rightarrow> m)"

definition snap_Has :: "mem_snapshot \<Rightarrow> byte list \<Rightarrow> mem_err + bool" where
  "snap_Has snap key = (case snap of None \<Rightarrow> Inl SnapshotReleased | Some m \<Rightarrow> Inr (mhas m key))"

definition snap_Get :: "mem_snapshot \<Rightarrow> byte list \<Rightarrow> mem_err + byte list" where
  "snap_Get snap key =
     (case snap of
        None \<Rightarrow> Inl SnapshotReleased
      | Some m \<Rightarrow> (case mget m key of Some entry \<Rightarrow> Inr entry | None \<Rightarrow> Inl MemNotFound))"

definition snap_Release :: "mem_snapshot \<Rightarrow> mem_snapshot" where
  "snap_Release snap = None"

subsection \<open>Reading\<close>

text \<open>What is stored under a key.\<close>

definition mlookup :: "memdb \<Rightarrow> byte list \<Rightarrow> byte list option" where
  "mlookup db k = (case mem_Get db k of Inr v \<Rightarrow> Some v | Inl e \<Rightarrow> None)"

definition mem_open :: "memdb \<Rightarrow> bool" where
  "mem_open db \<longleftrightarrow> (\<exists>m. db = Some m \<and> mwf m)"

definition mem_update :: "byte list \<Rightarrow> byte list \<Rightarrow> memdb \<Rightarrow> memdb" where
  "mem_update k v db = (case mem_Put db k v of Inr db' \<Rightarrow> db' | Inl e \<Rightarrow> db)"

definition mem_remove :: "byte list \<Rightarrow> memdb \<Rightarrow> memdb" where
  "mem_remove k db = (case mem_Delete db k of Inr db' \<Rightarrow> db' | Inl e \<Rightarrow> db)"

lemmas mem_defs = mem_open_def mlookup_def mem_update_def mem_remove_def mem_Get_def mem_Put_def mem_Delete_def

interpretation memory: kv_store mlookup mem_update mem_remove mem_open "\<lambda>_. True" "\<lambda>_. True"
  by unfold_locales (auto simp: mem_defs split: option.splits)

text \<open>A batch writes its entries in order; puts only, it is a sequence of writes of the store.\<close>

lemma mlookup_write:
  assumes "mem_open db"
  shows "\<exists>db'. batch_Write b db = Inr db' \<and> mem_open db' \<and>
    ((\<forall>kv\<in>set (b_writes b). \<not> kv_delete kv) \<longrightarrow>
      (\<forall>k. mlookup db' k = (case map_of (rev (map (\<lambda>kv. (kv_key kv, kv_value kv)) (b_writes b))) k of Some v \<Rightarrow> Some v | None \<Rightarrow> mlookup db k)))"
proof -
  obtain m where m: "db = Some m" "mwf m" using assms by (auto simp: mem_open_def)
  have wf: "mwf (foldl write_one m kvs)" for kvs
    using m(2) by (induction kvs arbitrary: m) (simp_all add: write_one_def)
  have "mget (foldl write_one m kvs) k = (case map_of (rev (map (\<lambda>kv. (kv_key kv, kv_value kv)) kvs)) k of Some v \<Rightarrow> Some v | None \<Rightarrow> mget m k)"
    if "\<forall>kv\<in>set kvs. \<not> kv_delete kv" for kvs k
    using that by (induction kvs arbitrary: m) (auto simp: write_one_def map_add_def split: option.splits)
  then show ?thesis using m wf by (auto simp: batch_Write_def mem_defs split: option.splits)
qed

end
