(* ===== verification/Hashdb.thy ===== *)
theory Hashdb
  imports Trie_Commit Rlp_Decode Memorydb
begin

text \<open>
  The hash-based node database of \<open>trie/triedb/hashdb/database.go\<close>: a write cache of trie nodes
  over a disk store, with reference counts, a doubly linked list of the cached nodes in the order
  of their insertion, garbage collection (\<open>Dereference\<close>), flushing of the oldest nodes (\<open>Cap\<close>) and
  of a whole trie (\<open>Commit\<close>).  The list is threaded through the map of the cached nodes, as in the
  source: a missing neighbour is a nil dereference, a panic.  The disk is the memory database of
  \<open>ethdb/memorydb\<close>; the cache of clean nodes (\<open>fastcache\<close>, not part of the repository) is a
  parameter.  Sizes are integers (the source keeps them in a float64, exact below \<open>2 ^ 53\<close>); the
  timers and meters are left out.
\<close>

datatype hd_err = DiskErr mem_err | DecodeErr rlp_err | HdNotFound

record cachedNode =
  cn_node :: "byte list"
  cn_parents :: u32
  cn_external :: "hash list"
  flushPrev :: hash
  flushNext :: hash

definition cachedNodeSize :: int where
  "cachedNodeSize = 104"

record 'c Database =
  diskdb :: memdb
  cleans :: "'c option"
  dirties :: "(hash, cachedNode) gomap"
  oldest :: hash
  newest :: hash
  gcnodes :: u64
  gcsize :: int
  flushnodes :: u64
  flushsize :: int
  dirtiesSize :: int
  childrenSize :: int

text \<open>
  What the database is given: the operations of the clean cache, the resolver of the children of
  a stored node (\<open>None\<close> for a panic), and the order of a range over a set of external children.
\<close>

record 'c hd_env =
  fc_Get :: "'c \<Rightarrow> byte list \<Rightarrow> byte list option"
  fc_Set :: "byte list \<Rightarrow> byte list \<Rightarrow> 'c \<Rightarrow> 'c"
  hd_ForEach :: "byte list \<Rightarrow> hash list option"
  hd_range :: "hash list \<Rightarrow> hash list"

definition forChildren :: "'c hd_env \<Rightarrow> cachedNode \<Rightarrow> hash list option" where
  "forChildren E n = map_option (\<lambda>cs. hd_range E (cn_external n) @ cs) (hd_ForEach E (cn_node n))"

definition hd_New :: "memdb \<Rightarrow> 'c option \<Rightarrow> 'c Database" where
  "hd_New disk cc =
     \<lparr> diskdb = disk, cleans = cc, dirties = [], oldest = 0, newest = 0, gcnodes = 0, gcsize = 0,
       flushnodes = 0, flushsize = 0, dirtiesSize = 0, childrenSize = 0 \<rparr>"

subsection \<open>The resolver of the Merkle-Patricia trie\<close>

fun forGatherChildren :: "node \<Rightarrow> hash list" where
  "forGatherChildren (Short k v f) = forGatherChildren v"
| "forGatherChildren (Full cs f) = concat (take 16 (map forGatherChildren cs))"
| "forGatherChildren (HashN h) = [BytesToHash h]"
| "forGatherChildren (ValueN v) = []"
| "forGatherChildren NilN = []"

definition mpt_ForEach :: "byte list \<Rightarrow> hash list option" where
  "mpt_ForEach blob = (case decodeNode None blob of Some (Inr n) \<Rightarrow> Some (forGatherChildren n) | _ \<Rightarrow> None)"

subsection \<open>Insertion and lookup\<close>

definition addParent :: "(hash, cachedNode) gomap \<Rightarrow> hash \<Rightarrow> (hash, cachedNode) gomap" where
  "addParent ds child =
     (case mget ds child of None \<Rightarrow> ds | Some c \<Rightarrow> mput child (c\<lparr> cn_parents := cn_parents c + 1 \<rparr>) ds)"

definition set_prev :: "hash \<Rightarrow> hash \<Rightarrow> 'c Database \<Rightarrow> (hd_err, 'c Database) outcome" where
  "set_prev h x db =
     (case mget (dirties db) h of
        None \<Rightarrow> Panic
      | Some n \<Rightarrow> Ok (db\<lparr> dirties := mput h (n\<lparr> flushPrev := x \<rparr>) (dirties db) \<rparr>))"

definition set_next :: "hash \<Rightarrow> hash \<Rightarrow> 'c Database \<Rightarrow> (hd_err, 'c Database) outcome" where
  "set_next h x db =
     (case mget (dirties db) h of
        None \<Rightarrow> Panic
      | Some n \<Rightarrow> Ok (db\<lparr> dirties := mput h (n\<lparr> flushNext := x \<rparr>) (dirties db) \<rparr>))"

definition nodeSize :: "cachedNode \<Rightarrow> int" where
  "nodeSize n = 32 + int (length (cn_node n))"

definition hd_insert :: "'c hd_env \<Rightarrow> hash \<Rightarrow> byte list \<Rightarrow> 'c Database \<Rightarrow> (hd_err, 'c Database) outcome" where
  "hd_insert E h blob db =
     (if mhas (dirties db) h then Ok db
      else
        let entry = \<lparr> cn_node = blob, cn_parents = 0, cn_external = [], flushPrev = newest db, flushNext = 0 \<rparr> in
        case forChildren E entry of
          None \<Rightarrow> Panic
        | Some cs \<Rightarrow>
            let db = db\<lparr> dirties := mput h entry (foldl addParent (dirties db) cs) \<rparr> in
            bind_outcome
              (if oldest db = 0 then Ok (db\<lparr> oldest := h, newest := h \<rparr>)
               else bind_outcome (set_next (newest db) h db) (\<lambda>db. Ok (db\<lparr> newest := h \<rparr>)))
              (\<lambda>db. Ok (db\<lparr> dirtiesSize := dirtiesSize db + nodeSize entry \<rparr>)))"

definition ReadLegacyTrieNode :: "memdb \<Rightarrow> hash \<Rightarrow> byte list" where
  "ReadLegacyTrieNode db h = (case mem_Get db (Hash_Bytes h) of Inr v \<Rightarrow> v | Inl e \<Rightarrow> [])"

definition HasLegacyTrieNode :: "memdb \<Rightarrow> hash \<Rightarrow> bool" where
  "HasLegacyTrieNode db h = (case mem_Has db (Hash_Bytes h) of Inr ok \<Rightarrow> ok | Inl e \<Rightarrow> False)"

definition WriteLegacyTrieNode :: "hash \<Rightarrow> byte list \<Rightarrow> batch \<Rightarrow> batch" where
  "WriteLegacyTrieNode h blob b = batch_Put (Hash_Bytes h) blob b"

definition cache_get :: "'c hd_env \<Rightarrow> 'c Database \<Rightarrow> hash \<Rightarrow> byte list option" where
  "cache_get E db h = (case cleans db of None \<Rightarrow> None | Some c \<Rightarrow> fc_Get E c (Hash_Bytes h))"

definition cache_set :: "'c hd_env \<Rightarrow> hash \<Rightarrow> byte list \<Rightarrow> 'c Database \<Rightarrow> 'c Database" where
  "cache_set E h blob db = db\<lparr> cleans := map_option (fc_Set E (Hash_Bytes h) blob) (cleans db) \<rparr>"

text \<open>\<open>None\<close> is the error; a read from the disk is remembered in the clean cache.\<close>

definition hd_Node :: "'c hd_env \<Rightarrow> hash \<Rightarrow> 'c Database \<Rightarrow> byte list option \<times> 'c Database" where
  "hd_Node E h db =
     (if h = 0 then (None, db)
      else
        (case cache_get E db h of
           Some enc \<Rightarrow> (Some enc, db)
         | None \<Rightarrow>
             (case mget (dirties db) h of
                Some dirty \<Rightarrow> (Some (cn_node dirty), db)
              | None \<Rightarrow>
                  let enc = ReadLegacyTrieNode (diskdb db) h in
                  if length enc \<noteq> 0 then (Some enc, cache_set E h enc db) else (None, db))))"

definition hd_Nodes :: "'c Database \<Rightarrow> hash list" where
  "hd_Nodes db = mkeys (dirties db)"

subsection \<open>References\<close>

definition reference :: "hash \<Rightarrow> hash \<Rightarrow> 'c Database \<Rightarrow> (hd_err, 'c Database) outcome" where
  "reference child parent db =
     (case mget (dirties db) child of
        None \<Rightarrow> Ok db
      | Some node \<Rightarrow>
          if parent = 0 then Ok (db\<lparr> dirties := mput child (node\<lparr> cn_parents := cn_parents node + 1 \<rparr>) (dirties db) \<rparr>)
          else
            (case mget (dirties db) parent of
               None \<Rightarrow> Panic
             | Some p \<Rightarrow>
                 if child \<in> set (cn_external p) then Ok db
                 else
                   let ds = mput child (node\<lparr> cn_parents := cn_parents node + 1 \<rparr>) (dirties db) in
                   (case mget ds parent of
                      None \<Rightarrow> Panic
                    | Some p \<Rightarrow>
                        Ok (db\<lparr> dirties := mput parent (p\<lparr> cn_external := cn_external p @ [child] \<rparr>) ds,
                                childrenSize := childrenSize db + 32 \<rparr>))))"

text \<open>Removing a node from the list: the switch that \<open>dereference\<close> and the cleaner share.\<close>

definition unlink :: "hash \<Rightarrow> cachedNode \<Rightarrow> 'c Database \<Rightarrow> (hd_err, 'c Database) outcome" where
  "unlink h node db =
     (if h = oldest db then
        let db = db\<lparr> oldest := flushNext node \<rparr> in
        if flushNext node \<noteq> 0 then set_prev (flushNext node) 0 db else Ok db
      else if h = newest db then
        let db = db\<lparr> newest := flushPrev node \<rparr> in
        if flushPrev node \<noteq> 0 then set_next (flushPrev node) 0 db else Ok db
      else
        bind_outcome (set_next (flushPrev node) (flushNext node) db) (set_prev (flushNext node) (flushPrev node)))"

definition forget :: "hash \<Rightarrow> cachedNode \<Rightarrow> 'c Database \<Rightarrow> 'c Database" where
  "forget h node db =
     db\<lparr> dirties := mdel h (dirties db), dirtiesSize := dirtiesSize db - nodeSize node,
         childrenSize := childrenSize db - int (length (cn_external node)) * 32 \<rparr>"

text \<open>\<open>None\<close>: the recursion is deeper than the fuel.\<close>

fun dereference :: "nat \<Rightarrow> 'c hd_env \<Rightarrow> hash \<Rightarrow> 'c Database \<Rightarrow> (hd_err, 'c Database) outcome option"
and dereferences :: "nat \<Rightarrow> 'c hd_env \<Rightarrow> hash list \<Rightarrow> 'c Database \<Rightarrow> (hd_err, 'c Database) outcome option" where
  "dereference 0 E h db = None"
| "dereference (Suc fuel) E h db =
     (case mget (dirties db) h of
        None \<Rightarrow> Some (Ok db)
      | Some node \<Rightarrow>
          let node = (if cn_parents node > 0 then node\<lparr> cn_parents := cn_parents node - 1 \<rparr> else node);
              db = db\<lparr> dirties := mput h node (dirties db) \<rparr> in
          if cn_parents node = 0 then
            (case unlink h node db of
               Ok db \<Rightarrow>
                 (case forChildren E node of
                    None \<Rightarrow> Some Panic
                  | Some cs \<Rightarrow>
                      (case dereferences fuel E cs db of
                         Some (Ok db) \<Rightarrow> Some (Ok (forget h node db))
                       | r \<Rightarrow> r))
             | r \<Rightarrow> Some r)
          else Some (Ok db))"
| "dereferences fuel E [] db = Some (Ok db)"
| "dereferences fuel E (c # cs) db =
     (case dereference fuel E c db of Some (Ok db) \<Rightarrow> dereferences fuel E cs db | r \<Rightarrow> r)"

definition hd_Dereference :: "nat \<Rightarrow> 'c hd_env \<Rightarrow> hash \<Rightarrow> 'c Database \<Rightarrow> (hd_err, 'c Database) outcome option" where
  "hd_Dereference fuel E rt db =
     (if rt = 0 then Some (Ok db)
      else
        (case dereference fuel E rt db of
           Some (Ok db') \<Rightarrow>
             Some (Ok (db'\<lparr> gcnodes := gcnodes db' + (word_of_nat (mlen (dirties db)) - word_of_nat (mlen (dirties db'))),
                            gcsize := gcsize db' + (dirtiesSize db - dirtiesSize db') \<rparr>))
         | r \<Rightarrow> r))"

subsection \<open>Flushing the oldest nodes\<close>

definition IdealBatchSize :: int where
  "IdealBatchSize = 100 * 1024"

text \<open>Writing a batch to the disk.\<close>

definition hd_Write :: "batch \<Rightarrow> 'c Database \<Rightarrow> (hd_err, unit) outcome \<times> 'c Database" where
  "hd_Write b db =
     (case batch_Write b (diskdb db) of
        Inl e \<Rightarrow> (Err (DiskErr e), db)
      | Inr disk \<Rightarrow> (Ok (), db\<lparr> diskdb := disk \<rparr>))"

text \<open>
  The first loop of \<open>Cap\<close>: from \<open>old\<close> on, nodes go into the batch until the size is below the
  limit.  It returns the first node that is kept and the last batch.
\<close>

primrec cap_flush :: "nat \<Rightarrow> int \<Rightarrow> int \<Rightarrow> hash \<Rightarrow> batch \<Rightarrow> 'c Database \<Rightarrow> ((hd_err, hash \<times> batch) outcome \<times> 'c Database) option" where
  "cap_flush 0 limit sz old b db = None"
| "cap_flush (Suc fuel) limit sz old b db =
     (if sz > limit \<and> old \<noteq> 0 then
        (case mget (dirties db) old of
           None \<Rightarrow> Some (Panic, db)
         | Some node \<Rightarrow>
             let b = WriteLegacyTrieNode old (cn_node node) b;
                 sz = sz - (nodeSize node + cachedNodeSize) - int (length (cn_external node)) * 32 in
             if ValueSize b \<ge> IdealBatchSize then
               (case hd_Write b db of
                  (Ok _, db) \<Rightarrow> cap_flush fuel limit sz (flushNext node) (batch_Reset b) db
                | (Err e, db) \<Rightarrow> Some (Err e, db)
                | (Panic, db) \<Rightarrow> Some (Panic, db))
             else cap_flush fuel limit sz (flushNext node) b db)
      else Some (Ok (old, b), db))"

text \<open>The second loop: the flushed nodes leave the cache.\<close>

primrec cap_clear :: "nat \<Rightarrow> hash \<Rightarrow> 'c Database \<Rightarrow> (hd_err, 'c Database) outcome option" where
  "cap_clear 0 old db = None"
| "cap_clear (Suc fuel) old db =
     (if oldest db \<noteq> old then
        (case mget (dirties db) (oldest db) of
           None \<Rightarrow> Some Panic
         | Some node \<Rightarrow> cap_clear fuel old ((forget (oldest db) node db)\<lparr> oldest := flushNext node \<rparr>))
      else Some (Ok db))"

definition hd_memory :: "'c Database \<Rightarrow> int" where
  "hd_memory db = dirtiesSize db + int (mlen (dirties db)) * cachedNodeSize + childrenSize db"

definition hd_Cap :: "nat \<Rightarrow> int \<Rightarrow> 'c Database \<Rightarrow> ((hd_err, unit) outcome \<times> 'c Database) option" where
  "hd_Cap fuel limit db =
     (case cap_flush fuel limit (hd_memory db) (oldest db) NewBatch db of
        None \<Rightarrow> None
      | Some (Err e, db) \<Rightarrow> Some (Err e, db)
      | Some (Panic, db) \<Rightarrow> Some (Panic, db)
      | Some (Ok (old, b), db) \<Rightarrow>
          (case hd_Write b db of
             (Err e, db) \<Rightarrow> Some (Err e, db)
           | (Panic, db) \<Rightarrow> Some (Panic, db)
           | (Ok _, db) \<Rightarrow>
               (case cap_clear fuel old db of
                  None \<Rightarrow> None
                | Some (Err e) \<Rightarrow> Some (Err e, db)
                | Some Panic \<Rightarrow> Some (Panic, db)
                | Some (Ok db') \<Rightarrow>
                    (case (if oldest db' \<noteq> 0 then set_prev (oldest db') 0 db' else Ok db') of
                       Ok db'' \<Rightarrow>
                         Some (Ok (), db''\<lparr>
                           flushnodes := flushnodes db'' + (word_of_nat (mlen (dirties db)) - word_of_nat (mlen (dirties db''))),
                           flushsize := flushsize db'' + (dirtiesSize db - dirtiesSize db'') \<rparr>)
                     | Err e \<Rightarrow> Some (Err e, db')
                     | Panic \<Rightarrow> Some (Panic, db')))))"

subsection \<open>Committing a trie to the disk\<close>

definition cleaner_Put :: "'c hd_env \<Rightarrow> byte list \<Rightarrow> byte list \<Rightarrow> 'c Database \<Rightarrow> (hd_err, 'c Database) outcome" where
  "cleaner_Put E key rlp db =
     (let h = BytesToHash key in
      case mget (dirties db) h of
        None \<Rightarrow> Ok db
      | Some node \<Rightarrow>
          bind_outcome (unlink h node db) (\<lambda>db. Ok (cache_set E h rlp (forget h node db))))"

definition cleaner_Delete :: "byte list \<Rightarrow> 'c Database \<Rightarrow> (hd_err, 'c Database) outcome" where
  "cleaner_Delete key db = Panic"

text \<open>Write the batch and take what it held out of the cache.\<close>

definition write_uncache :: "'c hd_env \<Rightarrow> batch \<Rightarrow> 'c Database \<Rightarrow> (hd_err, batch) outcome \<times> 'c Database" where
  "write_uncache E b db =
     (case hd_Write b db of
        (Ok _, db) \<Rightarrow>
          (case batch_Replay (cleaner_Put E) cleaner_Delete b db of
             Ok db' \<Rightarrow> (Ok (batch_Reset b), db')
           | Err e \<Rightarrow> (Err e, db)
           | Panic \<Rightarrow> (Panic, db))
      | (Err e, db) \<Rightarrow> (Err e, db)
      | (Panic, db) \<Rightarrow> (Panic, db))"

fun hd_commit :: "nat \<Rightarrow> 'c hd_env \<Rightarrow> hash \<Rightarrow> batch \<Rightarrow> 'c Database \<Rightarrow> ((hd_err, batch) outcome \<times> 'c Database) option"
and hd_commits :: "nat \<Rightarrow> 'c hd_env \<Rightarrow> hash list \<Rightarrow> batch \<Rightarrow> 'c Database \<Rightarrow> ((hd_err, batch) outcome \<times> 'c Database) option" where
  "hd_commit 0 E h b db = None"
| "hd_commit (Suc fuel) E h b db =
     (case mget (dirties db) h of
        None \<Rightarrow> Some (Ok b, db)
      | Some node \<Rightarrow>
          (case forChildren E node of
             None \<Rightarrow> Some (Panic, db)
           | Some cs \<Rightarrow>
               (case hd_commits fuel E cs b db of
                  Some (Ok b, db) \<Rightarrow>
                    let b = WriteLegacyTrieNode h (cn_node node) b in
                    if ValueSize b \<ge> IdealBatchSize then Some (write_uncache E b db) else Some (Ok b, db)
                | r \<Rightarrow> r)))"
| "hd_commits fuel E [] b db = Some (Ok b, db)"
| "hd_commits fuel E (c # cs) b db =
     (case hd_commit fuel E c b db of Some (Ok b, db) \<Rightarrow> hd_commits fuel E cs b db | r \<Rightarrow> r)"

definition hd_Commit :: "nat \<Rightarrow> 'c hd_env \<Rightarrow> hash \<Rightarrow> 'c Database \<Rightarrow> ((hd_err, unit) outcome \<times> 'c Database) option" where
  "hd_Commit fuel E h db =
     (case hd_commit fuel E h NewBatch db of
        None \<Rightarrow> None
      | Some (Err e, db) \<Rightarrow> Some (Err e, db)
      | Some (Panic, db) \<Rightarrow> Some (Panic, db)
      | Some (Ok b, db) \<Rightarrow>
          (case write_uncache E b db of
             (Ok _, db) \<Rightarrow> Some (Ok (), db\<lparr> gcnodes := 0, gcsize := 0, flushnodes := 0, flushsize := 0 \<rparr>)
           | (Err e, db) \<Rightarrow> Some (Err e, db)
           | (Panic, db) \<Rightarrow> Some (Panic, db)))"

subsection \<open>Updates and readers\<close>

definition hd_Initialized :: "'c Database \<Rightarrow> hash \<Rightarrow> bool" where
  "hd_Initialized db genesisRoot = HasLegacyTrieNode (diskdb db) genesisRoot"

definition ForEachWithOrder :: "(byte list, Node) gomap \<Rightarrow> (byte list \<times> Node) list" where
  "ForEachWithOrder nodes =
     map (\<lambda>path. (path, case mget nodes path of Some n \<Rightarrow> n | None \<Rightarrow> NewDeleted)) (rev (sort (mkeys nodes)))"

fun insertAll :: "'c hd_env \<Rightarrow> (byte list \<times> Node) list \<Rightarrow> 'c Database \<Rightarrow> (hd_err, 'c Database) outcome" where
  "insertAll E [] db = Ok db"
| "insertAll E ((path, n) # ns) db =
     bind_outcome
       (if IsDeleted n then Ok db else hd_insert E (n_Hash n) (case n_Blob n of Some b \<Rightarrow> b | None \<Rightarrow> []) db)
       (insertAll E ns)"

fun insertSets :: "'c hd_env \<Rightarrow> MergedNodeSet \<Rightarrow> hash list \<Rightarrow> 'c Database \<Rightarrow> (hd_err, 'c Database) outcome" where
  "insertSets E nodes [] db = Ok db"
| "insertSets E nodes (ow # ows) db =
     bind_outcome
       (case mget nodes ow of None \<Rightarrow> Panic | Some s \<Rightarrow> insertAll E (ForEachWithOrder (Nodes s)) db)
       (insertSets E nodes ows)"

definition StateAccountT :: gtype where
  "StateAccountT = TStruct [
     (\<lparr> sf_name = ''Nonce'', sf_exported = True, sf_tag = [] \<rparr>, TUint 64),
     (\<lparr> sf_name = ''Balance'', sf_exported = True, sf_tag = [] \<rparr>, TPtr TBig),
     (\<lparr> sf_name = ''Root'', sf_exported = True, sf_tag = [] \<rparr>, TArray 32 (TUint 8)),
     (\<lparr> sf_name = ''CodeHash'', sf_exported = True, sf_tag = [] \<rparr>, TSlice (TUint 8))]"

text \<open>The storage root in an account; \<open>None\<close> if the decoder did not return.\<close>

definition accountRoot :: "byte list \<Rightarrow> (rlp_err + hash) option" where
  "accountRoot blob =
     (case DecodeBytes blob StateAccountT of
        None \<Rightarrow> None
      | Some (Inl e) \<Rightarrow> Some (Inl e)
      | Some (Inr (VSeq [_, _, VBytes r, _])) \<Rightarrow> Some (Inr (BytesToHash r))
      | Some (Inr _) \<Rightarrow> Some (Inl ErrIllTyped))"

text \<open>An error leaves the references made so far in place.\<close>

fun linkLeaves :: "leaf list \<Rightarrow> 'c Database \<Rightarrow> (hd_err, unit) outcome \<times> 'c Database" where
  "linkLeaves [] db = (Ok (), db)"
| "linkLeaves (n # ns) db =
     (case accountRoot (l_Blob n) of
        None \<Rightarrow> (Panic, db)
      | Some (Inl e) \<Rightarrow> (Err (DecodeErr e), db)
      | Some (Inr r) \<Rightarrow>
          if r \<noteq> EmptyRootHash then
            (case reference r (l_Parent n) db of
               Ok db \<Rightarrow> linkLeaves ns db
             | Err e \<Rightarrow> (Err e, db)
             | Panic \<Rightarrow> (Panic, db))
          else linkLeaves ns db)"

text \<open>The owners other than the account trie come in the order of the range over the sets.\<close>

definition hd_Update :: "'c hd_env \<Rightarrow> hash \<Rightarrow> hash \<Rightarrow> MergedNodeSet \<Rightarrow> 'c Database \<Rightarrow> (hd_err, unit) outcome \<times> 'c Database" where
  "hd_Update E rt parent nodes db =
     (let db = (if parent \<noteq> EmptyRootHash then snd (hd_Node E parent db) else db);
          order = filter (\<lambda>ow. ow \<noteq> 0) (mkeys nodes) @ (if mhas nodes 0 then [0] else []) in
      case insertSets E nodes order db of
        Ok db \<Rightarrow> (case mget nodes 0 of None \<Rightarrow> (Ok (), db) | Some s \<Rightarrow> linkLeaves (Leaves s) db)
      | Err e \<Rightarrow> (Err e, db)
      | Panic \<Rightarrow> (Panic, db))"

definition hd_Size :: "'c Database \<Rightarrow> int \<times> int" where
  "hd_Size db = (0, dirtiesSize db + childrenSize db + int (mlen (dirties db)) * cachedNodeSize)"

definition hd_Close :: "'c Database \<Rightarrow> 'c Database" where
  "hd_Close db = db\<lparr> cleans := None \<rparr>"

text \<open>A reader of a state; \<open>None\<close> if the state is not available.\<close>

definition hd_reader_Node :: "'c hd_env \<Rightarrow> 'c Database \<Rightarrow> hash \<Rightarrow> byte list \<Rightarrow> hash \<Rightarrow> byte list option" where
  "hd_reader_Node E db ow path h = fst (hd_Node E h db)"

definition hd_Reader :: "'c hd_env \<Rightarrow> 'c Database \<Rightarrow> trie_db" where
  "hd_Reader E db rt = (if fst (hd_Node E rt db) = None then None else Some (hd_reader_Node E db))"

end
