(* ===== verification/Spec2Isabelle.thy ===== *)
theory Spec2Isabelle
  imports Fetcher_Pool Rlp_Roundtrip Rlp_Total Hashdb
begin

text \<open>
  Verification of the data-availability node, a fork of go-ethereum (\<open>src/\<close>).

  \<^bold>\<open>The program and its parts.\<close>  Clients hand the node data-availability records (\<open>DA\<close>,
  \<open>core/types/file.go\<close>); the file-data pool keeps them in memory, writes them to a journal and to
  an SQL table, and announces them to peers; the fetcher collects records that peers announce.
  Records and messages travel in RLP, hashes and addresses in hexadecimal, and the world state is
  a Merkle-Patricia trie.  Each theory models one of these parts:

  \<^item> \<open>Prelude\<close>: Go's machine types, maps and results, the interface \<open>kv_store\<close> of a keyed store.
  \<^item> \<open>Hexcodec\<close>: \<open>common/bytes.go\<close>, \<open>common/types.go\<close>, \<open>common/hexutil/hexutil.go\<close>.
  \<^item> \<open>Da_Records\<close>: the record and its database layer, \<open>core/types/file.go\<close>, \<open>ethdb/db\<close>.
  \<^item> \<open>Da_Rlp\<close>: the record as a Go type for package \<open>rlp\<close>, written and read by the model of that
    package.
  \<^item> \<open>Filedata_Journal\<close>, \<open>Filedata_Pool\<close>: \<open>core/txpool/filedatapool\<close>.
  \<^item> \<open>Filedata_Fetcher\<close>, \<open>Fetcher_Invariants\<close>: \<open>eth/fetcher/fileData_fetcher.go\<close>.
  \<^item> \<open>Fetcher_Pool\<close>: the fetcher against the contract of the pool it delivers to.
  \<^item> \<open>Rlp_Codec\<close>, \<open>Rlp_Raw\<close>, \<open>Rlp_Types\<close>, \<open>Rlp_Stream\<close>, \<open>Rlp_Decode\<close>, \<open>Rlp_Roundtrip\<close>,
    \<open>Rlp_Total\<close>: the package \<open>rlp\<close>.
  \<^item> \<open>Trie_Encoding\<close>, \<open>Trie_Node\<close>, \<open>Trie_Ops\<close>, \<open>Trie_Map\<close>, \<open>Trie_Canon\<close>, \<open>Trie_Hash\<close>,
    \<open>Trie_Root\<close>, \<open>Trie_Commit\<close>: the package \<open>trie\<close>.
  \<^item> \<open>Memorydb\<close>, \<open>Hashdb\<close>: the key-value store \<open>ethdb/memorydb\<close> and the node database
    \<open>trie/triedb/hashdb\<close> on top of it.

  \<^bold>\<open>How code becomes definitions.\<close>  A struct is a record with the source's field names, a method a
  function from the state to a result and the new state, an error a value of \<open>outcome\<close> (\<open>Ok\<close>,
  \<open>Err\<close>, \<open>Panic\<close>) or a sum.  A Go map is an association list with distinct keys (\<open>gomap\<close>); where
  the source ranges over a map, the order is an argument or the claim holds for every order.
  Fixed-width integers are words of that width; a point in time and a duration are unbounded
  integers of nanoseconds, so the saturation of Go's \<open>Duration\<close> after 292 years is not modelled.
  Where callers keep and change what they hand over (the records of the pool) a pointer is an
  address into a heap and every read goes through it; elsewhere values are immutable once shared
  and are modelled as values.  Goroutines that share a state are the events of
  one transition system, as the source serialises them with a mutex or a select.  Code outside
  the repository is a parameter: the SQL layer (\<open>gorm\<close>), the commitment scheme, the clock, the
  callbacks between components and the disk (errors of the operating system included).

  \<^bold>\<open>What is shown.\<close>
  \<^item> Fetcher: the invariants of its five maps in every reachable state, which panics of the
    source cannot happen and in exactly which states the remaining one does, that a delivery
    leaves nothing behind, and when the wait timer fires.
  \<^item> Pool: the well-formedness of the lookup table in every run, whatever the owners of the records
    write, and under which writes a record stays under its own keys; the exact errors and table of
    \<open>Add\<close>; expiry; the consequences of a slot counter that never falls; that a start always
    returns and empties the journal.
  \<^item> Fetcher and pool together: \<open>Enqueue\<close> panics exactly when a record is invalid, and otherwise
    leaves the table that offering the records one by one gives.
  \<^item> Records: what survives a save and a load of the database and of the journal, and which queries
    can never succeed.
  \<^item> RLP: decoding inverts encoding on canonical values of all Go types in scope, decoding always
    returns, the encoder's deferred headers give the bytes of the recursive rules, sizes are exact,
    splitting accepts exactly the canonical encodings; and where a list overruns its parent unnoticed.
  \<^item> Trie: the operations refine a map for tries loaded in part, in minimal form, without errors;
    stored nodes read back; the key encodings are inverse to one another; the shape of a trie is
    a function of its entries.

  \<^bold>\<open>Fuel.\<close>  \<open>DecodeBytes\<close> gives its loops one unit per input byte and one more; \<open>DecodeBytes_returns\<close>
  shows it is never used up.  \<open>decodeNode\<close> does the same, \<open>decodeNode_returns\<close>.  The trie
  operations get two units per nibble of the key and two more: every step consumes a nibble or
  loads a node, and no two nodes are loaded in a row; \<open>trie_refines_map\<close> shows they return.  The
  journal loader gets one unit per byte of the file and one more, and each record one per byte
  left and one more; \<open>journal_load_returns\<close> shows they are never used up.

  \<^bold>\<open>Not modelled.\<close>  Networking, RPC, wallets, consoles and the build are input and output around
  third-party services.  Cryptography is curve arithmetic, partly in C and assembly, and appears
  as parameters.  The L1 and bitcoin synchronisation loops and the contract bindings are calls of
  remote services.  Of the node databases under the trie the hash-based one is modelled, on the memory database
  (\<open>ethdb/memorydb\<close>); on the disk-backed stores, which are third-party engines, and the
  path-based one nothing is claimed, and the trie itself takes its node reader as a parameter.  Within the modelled files, text formatting,
  JSON and SQL adapters, object pools and code that is commented out are left out.
\<close>

end
